(* ===== verification/Prelude.thy ===== *)
theory Prelude
  imports Complex_Main "HOL-Library.Word" "HOL-Library.Multiset"
begin

text \<open>
  Shared vocabulary of the development: machine integer types, the outcome type of code whose
  C++ original can run into undefined behaviour or call \<open>rte_exit\<close>, counted loops, and the
  generic lemmas on lists, folds and flattened matrices that the component theories use.

  Conventions. Counters whose wrap-around matters are words of their C++ width. Identifiers and
  sizes that are only compared or used as indices (core numbers, shard numbers, table sizes) are
  \<open>nat\<close>, with the constant \<open>UINT32_MAX\<close> written out where the code uses it as a marker. A
  \<open>for\<close> loop from \<open>0\<close> to \<open>n\<close> is a fold over \<open>[0..<n]\<close>.
\<close>

type_synonym u8 = "8 word"
type_synonym u16 = "16 word"
type_synonym u32 = "32 word"
type_synonym u64 = "64 word"

named_theorems frame_simps \<open>what an operation leaves unchanged\<close>
named_theorems len_simps \<open>lengths of arrays after an operation\<close>

definition UINT32_MAX :: nat where
  "UINT32_MAX = 4294967295"

subsection \<open>Counted loops\<close>

text \<open>Invariant rule for a loop \<open>for (i = 0; i < n; i++)\<close>.\<close>

lemma fold_upt_inv:
  assumes "P 0 s"
    and "\<And>i s. i < n \<Longrightarrow> P i s \<Longrightarrow> P (Suc i) (f i s)"
  shows "P n (fold f [0..<n] s)"
proof -
  have "m \<le> n \<Longrightarrow> P m (fold f [0..<m] s)" for m
    by (induction m) (use assms in auto)
  then show ?thesis by simp
qed

text \<open>A loop whose body keeps \<open>P\<close> keeps \<open>P\<close>.\<close>

lemma fold_keep:
  assumes "P s" and "\<And>x s. x \<in> set xs \<Longrightarrow> P s \<Longrightarrow> P (f x s)"
  shows "P (fold f xs s)"
  using assms by (induction xs arbitrary: s) auto

text \<open>A loop that does not touch the component \<open>g\<close> of the state.\<close>

lemma fold_frame:
  assumes "\<And>x s. g (f x s) = g s"
  shows "g (fold f xs s) = g s"
  using assms by (induction xs arbitrary: s) auto

text \<open>A loop that updates entry \<open>i\<close> of an array in iteration \<open>i\<close>, from that entry only.\<close>

lemma fold_list_update_map:
  assumes "n \<le> length xs"
  shows "fold (\<lambda>i ys. ys[i := h i (ys ! i)]) [0..<n] xs
    = map (\<lambda>i. if i < n then h i (xs ! i) else xs ! i) [0..<length xs]"
  using assms
proof (induction n)
  case 0
  then show ?case by (simp add: map_nth)
next
  case (Suc n)
  then show ?case
    by (auto intro!: nth_equalityI simp: nth_list_update)
qed

lemma list_update_unchanged: "xs ! i = v \<Longrightarrow> xs[i := v] = xs"
  by auto

text \<open>Reading an updated array in range, whether or not the written index was in range.\<close>

lemma nth_update: "j < length xs \<Longrightarrow> xs[i := v] ! j = (if j = i then v else xs ! j)"
  by (cases "i < length xs") (auto simp: nth_list_update list_update_beyond)

subsection \<open>Loops that can fail\<close>

text \<open>
  Where the model stops: an array access out of range, a null dereference, a division by zero, an
  object used through a pointer of another type (all undefined behaviour, for which the C++ has no check
  and after which nothing can be said of it), a loop that spins until another thread acts, a call of
  \<open>rte_exit\<close>, or an error return (which the C++ does report).
\<close>

datatype fault = OutOfBounds | NullPointer | DivisionByZero | WrongType | Spinning | Exit string | ReturnError int

type_synonym 'a outcome = "fault + 'a"

fun outcome_bind :: "'a outcome \<Rightarrow> ('a \<Rightarrow> 'b outcome) \<Rightarrow> 'b outcome" where
  "outcome_bind (Inl e) k = Inl e"
| "outcome_bind (Inr x) k = k x"

fun outcome_fold :: "('a \<Rightarrow> 's \<Rightarrow> 's outcome) \<Rightarrow> 'a list \<Rightarrow> 's \<Rightarrow> 's outcome" where
  "outcome_fold f [] s = Inr s"
| "outcome_fold f (x # xs) s = outcome_bind (f x s) (outcome_fold f xs)"

definition check_index :: "nat \<Rightarrow> 'a list \<Rightarrow> 'b outcome \<Rightarrow> 'b outcome" where
  "check_index i xs k = (if i < length xs then k else Inl OutOfBounds)"

lemma outcome_bind_Inr: "outcome_bind r k = Inr y \<longleftrightarrow> (\<exists>x. r = Inr x \<and> k x = Inr y)"
  by (cases r) auto

lemma check_index_Inr: "check_index i xs k = Inr y \<longleftrightarrow> i < length xs \<and> k = Inr y"
  by (auto simp: check_index_def)

lemma check_index_ok [simp]: "i < length xs \<Longrightarrow> check_index i xs k = k"
  by (simp add: check_index_def)

lemma outcome_fold_append:
  "outcome_fold f (xs @ ys) s = outcome_bind (outcome_fold f xs s) (outcome_fold f ys)"
proof (induction xs arbitrary: s)
  case Nil
  then show ?case by simp
next
  case (Cons x xs)
  then show ?case by (cases "f x s") auto
qed

lemma outcome_fold_keep:
  assumes "P s" and "\<And>x s. x \<in> set xs \<Longrightarrow> P s \<Longrightarrow> \<exists>s'. f x s = Inr s' \<and> P s'"
  shows "\<exists>s'. outcome_fold f xs s = Inr s' \<and> P s'"
  using assms
proof (induction xs arbitrary: s)
  case Nil
  then show ?case by simp
next
  case (Cons x xs)
  then obtain s' where s': "f x s = Inr s'" "P s'" by fastforce
  from Cons.IH [OF s'(2)] Cons.prems(2) obtain s'' where "outcome_fold f xs s' = Inr s''" "P s''"
    by fastforce
  with s' show ?case by simp
qed

text \<open>
  A loop of steps with checks against the same loop without: what the checked loop returns, and that it
  returns if an invariant puts all indexes in range.
\<close>

lemma outcome_fold_pure:
  assumes "\<And>x s s'. f x s = Inr s' \<Longrightarrow> s' = g x s" and "outcome_fold f xs s = Inr s'"
  shows "s' = fold g xs s"
  using assms(2)
proof (induction xs arbitrary: s)
  case (Cons x xs)
  then obtain s1 where 1: "f x s = Inr s1" "outcome_fold f xs s1 = Inr s'" by (auto simp: outcome_bind_Inr)
  show ?case using Cons.IH [OF 1(2)] assms(1) [OF 1(1)] by simp
qed simp

lemma outcome_fold_total:
  assumes "P s" and "\<And>x s. x \<in> set xs \<Longrightarrow> P s \<Longrightarrow> f x s = Inr (g x s) \<and> P (g x s)"
  shows "outcome_fold f xs s = Inr (fold g xs s) \<and> P (fold g xs s)"
  using assms
proof (induction xs arbitrary: s)
  case (Cons x xs)
  have "f x s = Inr (g x s)" "P (g x s)" using Cons.prems(2) [of x s] Cons.prems(1) by simp_all
  then show ?case using Cons.IH [of "g x s"] Cons.prems(2) by simp
qed simp

subsection \<open>Flattened matrices\<close>

text \<open>The code keeps a matrix with \<open>m\<close> columns in one array and reads entry \<open>i*m + j\<close>.\<close>

lemma flat_index_less:
  assumes "i < (n::nat)" and "j < m"
  shows "i * m + j < n * m"
proof -
  have "i * m + j < i * m + m" using assms(2) by simp
  also have "\<dots> = Suc i * m" by simp
  also have "\<dots> \<le> n * m" using assms(1) by (intro mult_le_mono1) simp
  finally show ?thesis .
qed

lemma flat_index_inj:
  assumes "j < m" and "j' < m" and "i * m + j = i' * m + (j'::nat)"
  shows "i = i' \<and> j = j'"
proof -
  have "(i * m + j) div m = i" and "(i' * m + j') div m = i'" using assms(1,2) by auto
  then have "i = i'" using assms(3) by simp
  with assms(3) show ?thesis by simp
qed

lemma flat_eqI:
  assumes "length xs = n * m" and "length ys = n * m"
    and "\<And>i j. i < n \<Longrightarrow> j < m \<Longrightarrow> xs ! (i * m + j) = ys ! (i * m + j)"
  shows "xs = ys"
proof (rule nth_equalityI)
  show "length xs = length ys" using assms by simp
next
  fix k assume "k < length xs"
  then have k: "k < n * m" using assms by simp
  then have m: "0 < m" by (cases m) auto
  have "k div m < n" using k m by (simp add: less_mult_imp_div_less)
  moreover have "k mod m < m" using m by simp
  ultimately have "xs ! (k div m * m + k mod m) = ys ! (k div m * m + k mod m)" by (rule assms(3))
  then show "xs ! k = ys ! k" by simp
qed

subsection \<open>Headers in memory\<close>

text \<open>
  Fields of packet headers as the code reads them: through a struct pointer, on a little-endian
  machine. \<open>htons\<close> and \<open>ntohs\<close> exchange the two bytes.
\<close>

definition le16 :: "u8 list \<Rightarrow> nat \<Rightarrow> u16" where
  "le16 mem i = ucast (mem ! i) + 256 * ucast (mem ! Suc i)"

definition le32 :: "u8 list \<Rightarrow> nat \<Rightarrow> u32" where
  "le32 mem i = ucast (le16 mem i) + 65536 * ucast (le16 mem (i + 2))"

definition htons :: "u16 \<Rightarrow> u16" where
  "htons w = 256 * ucast (ucast w :: u8) + ucast (ucast (drop_bit 8 w) :: u8)"

end
