(* ===== verification/Doubles.thy ===== *)
theory Doubles
  imports Prelude "HOL-Library.Log_Nat"
begin

text \<open>
  The C++ type \<open>double\<close>. A finite binary64 value is a rational number, and an operation returns
  the exact result rounded to the nearest representable value, ties to even. \<open>rnd\<close> is that
  rounding, gradual underflow included; results of magnitude \<open>2^1024\<close> and above (which would be
  infinities) and NaN are outside the model: no operation of the modelled code reaches them from
  finite inputs of the magnitudes it handles.
\<close>

type_synonym double = rat

definition binade :: "rat \<Rightarrow> int" where
  "binade x = (let (p, q) = quotient_of \<bar>x\<bar>;
                   k = bitlen p - bitlen q
               in if 2 powi k \<le> \<bar>x\<bar> then k else k - 1)"

definition ulp_exponent :: "rat \<Rightarrow> int" where
  "ulp_exponent x = max (binade x - 52) (-1074)"

definition round_half_even :: "rat \<Rightarrow> int" where
  "round_half_even x = (let f = \<lfloor>x\<rfloor>; d = x - of_int f in
     if d < 1/2 then f else if 1/2 < d then f + 1 else if even f then f else f + 1)"

definition rnd_at :: "int \<Rightarrow> rat \<Rightarrow> double" where
  "rnd_at e x = of_int (round_half_even (x / 2 powi e)) * 2 powi e"

definition rnd :: "rat \<Rightarrow> double" where
  "rnd x = (if x = 0 then 0 else rnd_at (ulp_exponent x) x)"

definition dadd :: "double \<Rightarrow> double \<Rightarrow> double" where "dadd a b = rnd (a + b)"
definition dsub :: "double \<Rightarrow> double \<Rightarrow> double" where "dsub a b = rnd (a - b)"
definition dmul :: "double \<Rightarrow> double \<Rightarrow> double" where "dmul a b = rnd (a * b)"
definition ddiv :: "double \<Rightarrow> double \<Rightarrow> double" where "ddiv a b = rnd (a / b)"

subsection \<open>Rounding to an integer\<close>

lemma round_half_even_mono: "x \<le> y \<Longrightarrow> round_half_even x \<le> round_half_even y"
proof -
  assume le: "x \<le> y"
  then have fl: "\<lfloor>x\<rfloor> \<le> \<lfloor>y\<rfloor>" by (rule floor_mono)
  show ?thesis
  proof (cases "\<lfloor>x\<rfloor> = \<lfloor>y\<rfloor>")
    case True
    then show ?thesis using le by (auto simp: round_half_even_def Let_def)
  next
    case False
    with fl have "\<lfloor>x\<rfloor> + 1 \<le> \<lfloor>y\<rfloor>" by simp
    moreover have "round_half_even x \<le> \<lfloor>x\<rfloor> + 1" by (simp add: round_half_even_def Let_def)
    moreover have "\<lfloor>y\<rfloor> \<le> round_half_even y" by (simp add: round_half_even_def Let_def)
    ultimately show ?thesis by linarith
  qed
qed

lemma round_half_even_of_int [simp]: "round_half_even (of_int z) = z"
  by (simp add: round_half_even_def)

lemma round_half_even_error: "\<bar>of_int (round_half_even x) - x\<bar> \<le> 1/2"
proof -
  have "of_int \<lfloor>x\<rfloor> \<le> x" and "x < of_int \<lfloor>x\<rfloor> + 1" by linarith+
  then show ?thesis by (auto simp: round_half_even_def Let_def abs_le_iff)
qed

subsection \<open>Binades and the monotonicity of rounding\<close>

lemma bitlen_powi:
  assumes "0 < z"
  shows "2 powi (bitlen z - 1) \<le> rat_of_int z \<and> rat_of_int z < 2 powi bitlen z"
proof -
  have pos: "1 \<le> bitlen z" using assms by (auto simp: bitlen_alt_def)
  have "2 ^ nat (bitlen z - 1) \<le> z \<and> z < 2 ^ nat (bitlen z)" using assms by (rule bitlen_bounds)
  then have "rat_of_int (2 ^ nat (bitlen z - 1)) \<le> of_int z \<and> of_int z < rat_of_int (2 ^ nat (bitlen z))"
    by (simp only: of_int_le_iff of_int_less_iff)
  then show ?thesis using pos by (simp add: power_int_def)
qed

lemma powi_pos [simp]: "0 < (2::rat) powi e"
  by simp

lemma powi_shift: "(2::rat) powi (a + b) = 2 powi a * 2 powi b"
  by (simp add: power_int_add)

lemma powi_le: "a \<le> b \<Longrightarrow> (2::rat) powi a \<le> 2 powi b"
  by (rule power_int_increasing) auto

lemma powi_multiple: "a \<le> b \<Longrightarrow> \<exists>z. (2::rat) powi b = of_int z * 2 powi a"
proof -
  assume "a \<le> b"
  then have "(2::rat) powi b = of_int (2 ^ nat (b - a)) * 2 powi a"
    by (simp add: power_int_def [of _ "b - a", symmetric] powi_shift [symmetric] flip: power_int_of_nat)
  then show ?thesis by blast
qed

lemma binade_bounds:
  assumes "x \<noteq> 0"
  shows "2 powi binade x \<le> \<bar>x\<bar> \<and> \<bar>x\<bar> < 2 powi (binade x + 1)"
proof -
  obtain p q where pq: "quotient_of \<bar>x\<bar> = (p, q)" by (cases "quotient_of \<bar>x\<bar>")
  have x: "\<bar>x\<bar> = of_int p / of_int q" using pq by (rule quotient_of_div)
  have q: "0 < q" using pq by (rule quotient_of_denom_pos)
  have "0 < \<bar>x\<bar>" using assms by simp
  then have p: "0 < p" using q unfolding x by (simp add: zero_less_divide_iff)
  define k where "k = bitlen p - bitlen q"
  note P = bitlen_powi [OF p] and Q = bitlen_powi [OF q]
  have lower: "2 powi (k - 1) \<le> \<bar>x\<bar>"
  proof -
    have "(2::rat) powi (k - 1) * of_int q \<le> 2 powi (k - 1) * 2 powi bitlen q" using Q by simp
    also have "\<dots> = (2::rat) powi (bitlen p - 1)" by (simp add: powi_shift [symmetric] k_def)
    also have "\<dots> \<le> of_int p" using P by simp
    finally show ?thesis using q by (simp add: x field_simps)
  qed
  have upper: "\<bar>x\<bar> < 2 powi (k + 1)"
  proof -
    have "of_int p < (2::rat) powi bitlen p" using P by simp
    also have "\<dots> = 2 powi (k + 1) * 2 powi (bitlen q - 1)" by (simp add: powi_shift [symmetric] k_def)
    also have "\<dots> \<le> 2 powi (k + 1) * of_int q" using Q by simp
    finally show ?thesis using q by (simp add: x field_simps)
  qed
  show ?thesis using lower upper by (auto simp: binade_def pq k_def [symmetric] Let_def not_le)
qed

lemma binade_unique:
  assumes "2 powi e \<le> \<bar>x\<bar>" and "\<bar>x\<bar> < 2 powi (e + 1)"
  shows "binade x = e"
proof -
  have "x \<noteq> 0" using assms(1) by (metis abs_zero not_less powi_pos)
  from binade_bounds [OF this] have "(2::rat) powi binade x < 2 powi (e + 1)" "(2::rat) powi e < 2 powi (binade x + 1)"
    using assms by linarith+
  then have "binade x < e + 1" "e < binade x + 1" using powi_le not_le by metis+
  then show ?thesis by simp
qed

lemma binade_mono:
  assumes "0 < \<bar>x\<bar>" and "\<bar>x\<bar> \<le> \<bar>y\<bar>"
  shows "binade x \<le> binade y"
proof -
  have "x \<noteq> 0" "y \<noteq> 0" using assms by auto
  then have "(2::rat) powi binade x < 2 powi (binade y + 1)"
    using binade_bounds [of x] binade_bounds [of y] assms by linarith
  then have "binade x < binade y + 1" using powi_le not_le by metis
  then show ?thesis by simp
qed

lemma binade_minus [simp]: "binade (- x) = binade x"
  by (simp add: binade_def)

lemma ulp_exponent_minus [simp]: "ulp_exponent (- x) = ulp_exponent x"
  by (simp add: ulp_exponent_def)

lemma rnd_at_mono: "x \<le> y \<Longrightarrow> rnd_at e x \<le> rnd_at e y"
  by (simp add: rnd_at_def round_half_even_mono divide_right_mono)

lemma rnd_at_multiple [simp]: "rnd_at e (of_int z * 2 powi e) = of_int z * 2 powi e"
  by (simp add: rnd_at_def)

lemma rnd_at_power: "e \<le> b \<Longrightarrow> rnd_at e (2 powi b) = 2 powi b"
  using powi_multiple [of e b] by auto

lemma rnd_at_0 [simp]: "rnd_at e 0 = 0"
  using rnd_at_multiple [of e 0] by simp

lemma rnd_eq: "rnd x = rnd_at (ulp_exponent x) x"
  by (simp add: rnd_def)

lemma rnd_0 [simp]: "rnd 0 = 0"
  by (simp add: rnd_def)

lemma round_half_even_minus: "round_half_even (- x) = - round_half_even x"
proof (cases "x = of_int \<lfloor>x\<rfloor>")
  case True
  then show ?thesis by (metis of_int_minus round_half_even_of_int)
next
  case False
  then have "of_int \<lfloor>x\<rfloor> < x" "x < of_int \<lfloor>x\<rfloor> + 1" by linarith+
  then have "\<lfloor>- x\<rfloor> = - \<lfloor>x\<rfloor> - 1" by linarith
  then show ?thesis by (auto simp: round_half_even_def Let_def)
qed

lemma rnd_minus: "rnd (- x) = - rnd x"
  by (simp add: rnd_def rnd_at_def round_half_even_minus)

lemma rnd_mono_pos:
  assumes "0 < x" and "x \<le> y"
  shows "rnd x \<le> rnd y"
proof -
  have b: "binade x \<le> binade y" using assms by (intro binade_mono) auto
  show ?thesis
  proof (cases "ulp_exponent x = ulp_exponent y")
    case True
    then show ?thesis using assms(2) by (simp add: rnd_eq rnd_at_mono)
  next
    case False
    then have ey: "ulp_exponent y = binade y - 52" and ex: "ulp_exponent x \<le> binade y"
      and "binade x + 1 \<le> binade y"
      using b by (auto simp: ulp_exponent_def max_def split: if_splits)
    then have "x \<le> 2 powi binade y"
      using binade_bounds [of x] assms powi_le [of "binade x + 1" "binade y"] by auto
    then have "rnd x \<le> 2 powi binade y"
      using rnd_at_mono [of x "2 powi binade y" "ulp_exponent x"] rnd_at_power [OF ex] by (simp add: rnd_eq)
    also have "2 powi binade y \<le> rnd y"
      using rnd_at_mono [of "2 powi binade y" y "ulp_exponent y"] rnd_at_power [of "ulp_exponent y" "binade y"]
        binade_bounds [of y] assms by (simp add: rnd_eq ey)
    finally show ?thesis .
  qed
qed

lemma rnd_nonneg: "0 \<le> x \<Longrightarrow> 0 \<le> rnd x"
  using rnd_at_mono [of 0 x "ulp_exponent x"] by (simp add: rnd_eq)

lemma rnd_mono: "x \<le> y \<Longrightarrow> rnd x \<le> rnd y"
proof -
  assume le: "x \<le> y"
  consider "0 < x" | "x \<le> 0" "0 \<le> y" | "y < 0" using le by linarith
  then show ?thesis
  proof cases
    case 1
    then show ?thesis using le by (rule rnd_mono_pos)
  next
    case 2
    then show ?thesis using rnd_nonneg [of y] rnd_nonneg [of "- x"] by (simp add: rnd_minus)
  next
    case 3
    then show ?thesis using rnd_mono_pos [of "- y" "- x"] le by (simp add: rnd_minus)
  qed
qed

subsection \<open>Exact results and rounding errors\<close>

lemma rnd_at_dyadic: "e' \<le> e \<Longrightarrow> rnd_at e' (of_int z * 2 powi e) = of_int z * 2 powi e"
proof -
  assume "e' \<le> e"
  then obtain w where "(2::rat) powi e = of_int w * 2 powi e'" using powi_multiple by blast
  then have "of_int z * (2::rat) powi e = of_int (z * w) * 2 powi e'" by simp
  then show ?thesis by (metis rnd_at_multiple)
qed

lemma rnd_dyadic:
  assumes "\<bar>z\<bar> \<le> 2 ^ 53" and "-1074 \<le> e"
  shows "rnd (of_int z * 2 powi e) = of_int z * 2 powi e"
proof (cases "z = 0")
  case True
  then show ?thesis by simp
next
  case False
  define x where "x = of_int z * (2::rat) powi e"
  have x0: "x \<noteq> 0" using False by (simp add: x_def)
  have "\<bar>x\<bar> = of_int \<bar>z\<bar> * 2 powi e" by (simp add: x_def abs_mult)
  also have "\<dots> \<le> of_int (2 ^ 53) * 2 powi e" using assms(1) by (intro mult_right_mono) (simp_all only: of_int_le_iff, simp)
  also have "\<dots> = 2 powi (e + 53)" by (simp add: powi_shift)
  finally have up: "\<bar>x\<bar> \<le> 2 powi (e + 53)" .
  show ?thesis
  proof (cases "binade x \<le> e + 52")
    case True
    then have "ulp_exponent x \<le> e" using assms(2) by (simp add: ulp_exponent_def)
    then show ?thesis by (simp add: rnd_eq rnd_at_dyadic x_def)
  next
    case False
    then have "(2::rat) powi (e + 53) \<le> 2 powi binade x" by (intro powi_le) simp
    then have eq: "\<bar>x\<bar> = 2 powi (e + 53)" using up binade_bounds [OF x0] by linarith
    have "ulp_exponent x \<le> e + 53" using assms(2) binade_unique [of "e + 53" x] eq
      by (simp add: ulp_exponent_def powi_shift)
    then have "rnd \<bar>x\<bar> = \<bar>x\<bar>" using rnd_at_power eq by (metis abs_if rnd_eq ulp_exponent_minus)
    then show ?thesis unfolding x_def [symmetric] by (cases "0 \<le> x") (auto simp: rnd_minus)
  qed
qed

lemma rnd_of_int: "\<bar>z\<bar> \<le> 2 ^ 53 \<Longrightarrow> rnd (of_int z) = of_int z"
  using rnd_dyadic [of z 0] by simp

lemma rnd_of_nat: "n \<le> 2 ^ 53 \<Longrightarrow> rnd (of_nat n) = of_nat n"
  using rnd_of_int [of "int n"] by simp

lemma rnd_significand: "\<bar>round_half_even (x / 2 powi ulp_exponent x)\<bar> \<le> 2 ^ 53"
proof (cases "x = 0")
  case True
  then show ?thesis by (simp add: round_half_even_def)
next
  case False
  define e where "e = ulp_exponent x"
  have "\<bar>x\<bar> < 2 powi (binade x + 1)" using binade_bounds [OF False] by simp
  also have "\<dots> \<le> 2 powi (e + 53)" by (intro powi_le) (simp add: e_def ulp_exponent_def)
  also have "\<dots> = of_int (2 ^ 53) * 2 powi e" by (simp add: powi_shift)
  finally have "\<bar>x\<bar> / 2 powi e \<le> of_int (2 ^ 53)" by (simp add: divide_le_eq)
  then have "x / 2 powi e \<le> of_int (2 ^ 53)" "of_int (- (2 ^ 53)) \<le> x / 2 powi e"
    by (auto simp: abs_le_iff field_simps)
  then have "round_half_even (x / 2 powi e) \<le> 2 ^ 53" "- (2 ^ 53) \<le> round_half_even (x / 2 powi e)"
    using round_half_even_mono round_half_even_of_int by metis+
  then show ?thesis by (simp add: e_def abs_le_iff)
qed

lemma rnd_idem [simp]: "rnd (rnd x) = rnd x"
proof -
  have "rnd x = of_int (round_half_even (x / 2 powi ulp_exponent x)) * 2 powi ulp_exponent x"
    by (simp add: rnd_eq rnd_at_def)
  moreover have "-1074 \<le> ulp_exponent x" by (simp add: ulp_exponent_def)
  ultimately show ?thesis using rnd_dyadic [OF rnd_significand] by metis
qed

lemma rnd_error: "\<bar>rnd x - x\<bar> \<le> 2 powi ulp_exponent x / 2"
proof -
  define e where "e = ulp_exponent x"
  have "rnd x - x = (of_int (round_half_even (x / 2 powi e)) - x / 2 powi e) * 2 powi e"
    by (simp add: rnd_eq rnd_at_def e_def left_diff_distrib)
  then have "\<bar>rnd x - x\<bar> = \<bar>of_int (round_half_even (x / 2 powi e)) - x / 2 powi e\<bar> * 2 powi e"
    by (simp add: abs_mult)
  also have "\<dots> \<le> 1/2 * 2 powi e"
    using round_half_even_error by (intro mult_right_mono) auto
  finally show ?thesis by (simp add: e_def)
qed

text \<open>The error bound relative to the exact result, plus half the smallest subnormal.\<close>

lemma rnd_error_rel: "\<bar>rnd x - x\<bar> \<le> \<bar>x\<bar> / 2 ^ 53 + 1 / 2 ^ 1075"
proof (cases "x = 0")
  case True
  then show ?thesis by simp
next
  case False
  have "(2::rat) powi ulp_exponent x \<le> 2 powi (binade x - 52) + 2 powi (-1074)"
    by (cases "binade x - 52 \<le> -1074") (auto simp: ulp_exponent_def max_def)
  moreover have "(2::rat) powi (binade x - 52) = 2 powi binade x / 2 ^ 52"
    by (simp add: power_int_diff)
  moreover have "(2::rat) powi (-1074) / 2 = 1 / 2 ^ 1075"
    by (simp only: power_int_minus) (simp add: field_simps)
  ultimately show ?thesis using rnd_error [of x] binade_bounds [OF False] by simp
qed

subsection \<open>The comparisons of the code\<close>

text \<open>
  \<open>EPSILON\<close> is the \<^emph>\<open>float\<close> literal \<open>0.0000000001f\<close>: the binary32 value nearest to \<open>10^-10\<close>,
  which the expressions promote to \<open>double\<close>. \<open>SCALE\<close> is \<open>1.5\<close>.
\<close>

definition EPSILON :: double where "EPSILON = 14411519 / 2 ^ 57"

definition SCALE :: double where "SCALE = 3 / 2"

definition is_equal_than :: "double \<Rightarrow> double \<Rightarrow> bool" where
  "is_equal_than a b \<longleftrightarrow> \<bar>dsub a b\<bar> \<le> dmul (if \<bar>a\<bar> < \<bar>b\<bar> then \<bar>b\<bar> else \<bar>a\<bar>) EPSILON"

definition is_less_than :: "double \<Rightarrow> double \<Rightarrow> bool" where
  "is_less_than a b \<longleftrightarrow> dsub b a > dmul (if \<bar>a\<bar> < \<bar>b\<bar> then \<bar>b\<bar> else \<bar>a\<bar>) EPSILON"

lemma EPSILON_bounds: "0 < EPSILON" "EPSILON < 1 / 2 ^ 33" "1 / 2 ^ 34 < EPSILON"
  by (simp_all add: EPSILON_def)

lemma tolerance_nonneg: "0 \<le> dmul (if \<bar>a\<bar> < \<bar>b\<bar> then \<bar>b\<bar> else \<bar>a\<bar>) EPSILON"
  unfolding dmul_def using EPSILON_bounds by (intro rnd_nonneg mult_nonneg_nonneg) auto

lemma is_less_than_less: "is_less_than a b \<Longrightarrow> a < b"
proof (rule ccontr)
  assume l: "is_less_than a b" and "\<not> a < b"
  then have "dsub b a \<le> 0" using rnd_mono [of "b - a" 0] by (simp add: dsub_def)
  with l tolerance_nonneg [of a b] show False by (simp add: is_less_than_def)
qed

lemma is_less_than_antimono:
  assumes "is_less_than a' b" and "0 \<le> a" and "a \<le> a'"
  shows "is_less_than a b"
proof -
  have "a' < b" using assms(1) by (rule is_less_than_less)
  moreover have "dsub b a' \<le> dsub b a" using assms(3) by (simp add: dsub_def rnd_mono)
  ultimately show ?thesis using assms by (simp add: is_less_than_def)
qed

lemma is_equal_than_refl [simp]: "is_equal_than a a"
  using tolerance_nonneg [of a a] by (simp add: is_equal_than_def dsub_def)

lemma is_equal_than_sym: "is_equal_than a b \<longleftrightarrow> is_equal_than b a"
proof -
  have "\<bar>dsub a b\<bar> = \<bar>dsub b a\<bar>" using rnd_minus [of "a - b"] by (simp add: dsub_def)
  then show ?thesis by (cases "\<bar>a\<bar> = \<bar>b\<bar>") (auto simp: is_equal_than_def)
qed

lemma is_less_than_not_equal: "is_less_than a b \<Longrightarrow> \<not> is_equal_than a b"
proof -
  assume l: "is_less_than a b"
  have "dsub a b = - dsub b a" using rnd_minus [of "b - a"] by (simp add: dsub_def)
  then show ?thesis using l tolerance_nonneg [of a b] by (simp add: is_less_than_def is_equal_than_def)
qed

end
