(* ===== verification/Flow_Element.thy ===== *)
theory Flow_Element
  imports Prelude
begin

text \<open>
  The interface the network functions of the service chain (\<open>DyIDS\<close>, \<open>DyNAPT\<close>) share. A packet
  carries in its \<open>PERFCTR_ANNO\<close> the address of its flow's \<open>global_state\<close>, an array of \<open>void *\<close>
  with one slot per network function, which \<open>DyssectWorkingCore::extract_state\<close> allocated. An
  element with handle \<open>h\<close> owns slot \<open>h\<close> of every flow: \<open>simple_action\<close> creates its state there
  on the first packet of the flow and updates it on each packet; \<open>push_batch\<close> does this for every
  packet of the batch, in order, and passes the batch on.

  A slot holds the object its pointer refers to (each object is referred to from one slot only). The
  elements cast the pointer without any check; when it refers to the other element's object, what they
  do is undefined, and the model says so by the fault \<open>WrongType\<close> instead of going on.
\<close>

text \<open>Memory that was allocated but not written is \<open>None\<close>.\<close>

record IDSState =
  found :: u32
  not_found :: u32
  matched :: "u32 option list"
  unmatched :: "u32 option list"

record NAPTState =
  napt_src_port :: "u16 option"
  napt_dst_port :: "u16 option"
  napt_src_addr :: "u32 option"
  napt_dst_addr :: "u32 option"
  napt_count :: u32

datatype slot = NoState | IDSSlot IDSState | NAPTSlot NAPTState

text \<open>\<open>tcp_mem\<close> is the memory that can be read from \<open>tcp_header()\<close> on.\<close>

record packet =
  PERFCTR_ANNO :: "nat option"
  tcp_mem :: "u8 list"

type_synonym global_mem = "nat \<Rightarrow> slot list"

definition for_flow :: "nat \<Rightarrow> packet \<Rightarrow> bool" where
  "for_flow a p \<longleftrightarrow> PERFCTR_ANNO p = Some a"

text \<open>\<open>global_state[handle]\<close>, read and written by one call of \<open>simple_action\<close>.\<close>

definition with_slot :: "nat \<Rightarrow> (slot \<Rightarrow> slot outcome) \<Rightarrow> packet \<Rightarrow> global_mem \<Rightarrow> global_mem outcome" where
  "with_slot h upd p g = (case PERFCTR_ANNO p of
     None \<Rightarrow> Inl NullPointer
   | Some a \<Rightarrow> check_index h (g a) (outcome_bind (upd (g a ! h)) (\<lambda>x. Inr (g(a := (g a)[h := x])))))"

text \<open>
  The contract: an action succeeds exactly when the packet has a flow, the flow has the slot and
  the step on the slot succeeds, and then only that slot of that flow changes.
\<close>

locale flow_element =
  fixes handle :: nat
    and step :: "packet \<Rightarrow> slot \<Rightarrow> slot outcome"
    and action :: "packet \<Rightarrow> global_mem \<Rightarrow> global_mem outcome"
  assumes action_ok: "action p g = Inr g' \<longleftrightarrow> (\<exists>a x. for_flow a p \<and> handle < length (g a)
    \<and> step p (g a ! handle) = Inr x \<and> g' = g(a := (g a)[handle := x]))"
begin

definition batch :: "packet list \<Rightarrow> global_mem \<Rightarrow> global_mem outcome" where
  "batch ps g = outcome_fold action ps g"

lemma batch_Cons:
  "batch (p # ps) g = Inr g' \<longleftrightarrow> (\<exists>a x. for_flow a p \<and> handle < length (g a)
    \<and> step p (g a ! handle) = Inr x \<and> batch ps (g(a := (g a)[handle := x])) = Inr g')"
  by (auto simp: batch_def outcome_bind_Inr action_ok)

lemma batch_frame:
  "batch ps g = Inr g' \<Longrightarrow> length (g' a) = length (g a) \<and> (\<forall>h. h \<noteq> handle \<longrightarrow> g' a ! h = g a ! h)
    \<and> ((\<forall>p\<in>set ps. \<not> for_flow a p) \<longrightarrow> g' a = g a)"
proof (induction ps arbitrary: g)
  case Nil
  then show ?case by (simp add: batch_def)
next
  case (Cons p ps)
  from Cons.prems obtain b x where b: "for_flow b p" "batch ps (g(b := (g b)[handle := x])) = Inr g'"
    by (auto simp: batch_Cons)
  show ?case using Cons.IH [OF b(2)] b(1) by (auto split: if_splits)
qed

text \<open>What a flow's slot becomes depends on the flow's own packets only, in their order.\<close>

lemma batch_flow:
  "batch ps g = Inr g' \<Longrightarrow> handle < length (g a) \<Longrightarrow>
    outcome_fold step (filter (for_flow a) ps) (g a ! handle) = Inr (g' a ! handle)"
proof (induction ps arbitrary: g)
  case Nil
  then show ?case by (simp add: batch_def)
next
  case (Cons p ps)
  from Cons.prems obtain b x where b: "for_flow b p" "handle < length (g b)"
    "step p (g b ! handle) = Inr x" "batch ps (g(b := (g b)[handle := x])) = Inr g'"
    by (auto simp: batch_Cons)
  show ?case
  proof (cases "b = a")
    case True
    then show ?thesis using Cons.IH [OF b(4)] b(1-3) by simp
  next
    case False
    then have "\<not> for_flow a p" using b(1) by (simp add: for_flow_def)
    then show ?thesis using Cons.IH [OF b(4)] Cons.prems(2) False by simp
  qed
qed

text \<open>A batch succeeds when every flow's own packets do.\<close>

lemma batch_succeeds:
  assumes "\<forall>p\<in>set ps. \<exists>a. for_flow a p \<and> handle < length (g a)"
    and "\<forall>a. \<exists>x. outcome_fold step (filter (for_flow a) ps) (g a ! handle) = Inr x"
  shows "\<exists>g'. batch ps g = Inr g'"
  using assms
proof (induction ps arbitrary: g)
  case Nil
  then show ?case by (simp add: batch_def)
next
  case (Cons p ps)
  then obtain a where a: "for_flow a p" "handle < length (g a)" by auto
  from Cons.prems(2) obtain y where "outcome_fold step (filter (for_flow a) (p # ps)) (g a ! handle) = Inr y"
    by blast
  with a obtain x where x: "step p (g a ! handle) = Inr x" by (auto simp: outcome_bind_Inr)
  let ?g = "g(a := (g a)[handle := x])"
  have "\<forall>b. \<exists>y. outcome_fold step (filter (for_flow b) ps) (?g b ! handle) = Inr y"
  proof
    fix b
    obtain y where y: "outcome_fold step (filter (for_flow b) (p # ps)) (g b ! handle) = Inr y"
      using Cons.prems(2) by blast
    show "\<exists>y. outcome_fold step (filter (for_flow b) ps) (?g b ! handle) = Inr y"
      using y x a by (cases "b = a") (auto simp: for_flow_def)
  qed
  then have "\<exists>g'. batch ps ?g = Inr g'" using Cons.prems(1) by (intro Cons.IH) auto
  then show ?case using a x by (auto simp: batch_Cons)
qed

end

lemma with_slot_ok: "with_slot h (step p) p g = Inr g' \<longleftrightarrow> (\<exists>a x. for_flow a p \<and> h < length (g a)
    \<and> step p (g a ! h) = Inr x \<and> g' = g(a := (g a)[h := x]))"
  by (auto simp: with_slot_def for_flow_def check_index_Inr outcome_bind_Inr split: option.splits)

end
