(* ===== verification/Dyssect_State.thy ===== *)
theory Dyssect_State
  imports Doubles Flow_Element "HOL-Library.AList"
begin

text \<open>
  The data model of the Dyssect elements (\<open>dyssectcontroller.hh\<close>): flows, per-flow state, shards
  and the static members of \<open>DyssectController\<close> through which the controller, the working cores
  and the offloading cores communicate.

  Two libraries the code calls appear as parameters of the model: DPDK's rings
  (\<open>'r ring_ops\<close>) and the hash tables of Google sparsehash (\<open>'t table_ops\<close>). What the proofs
  rely on is their documented behaviour, stated as the predicates \<open>ring_ok\<close> and \<open>table_ok\<close>
  over an abstraction of a ring to the list of pointers it holds and of a table to its entries.
\<close>

subsection \<open>Flows and their state\<close>

record DyssectFlow =
  src_port :: u16
  dst_port :: u16
  src_addr :: u32
  dst_addr :: u32
  hash_value :: u32

text \<open>\<open>DyssectFlow::EqualTo\<close>: \<open>memcmp\<close> on the first \<open>FLOW_SIZE = 12\<close> bytes, the four address fields.\<close>

definition flow_equal :: "DyssectFlow \<Rightarrow> DyssectFlow \<Rightarrow> bool" where
  "flow_equal a b \<longleftrightarrow> src_port a = src_port b \<and> dst_port a = dst_port b
     \<and> src_addr a = src_addr b \<and> dst_addr a = dst_addr b"

text \<open>The shard of a flow in \<open>extract_state\<close>: \<open>s = f.hash_value % total_shards\<close>.\<close>

definition shard_of :: "nat \<Rightarrow> DyssectFlow \<Rightarrow> nat" where
  "shard_of ts f = unat (hash_value f) mod ts"

text \<open>Objects of type \<open>DyssectState\<close> are referred to by address; so is \<open>global_state\<close>.\<close>

type_synonym addr = nat

record DyssectState =
  cdf :: double
  prob :: double
  prob2 :: double
  priority :: bool
  offloaded :: bool
  state_epoch :: u32
  state_bytes :: u64
  state_shard :: nat
  flow :: DyssectFlow
  global_state :: addr

text \<open>What \<open>rte_zmalloc\<close> returns: every byte zero.\<close>

definition zero_flow :: DyssectFlow where
  "zero_flow = \<lparr>src_port = 0, dst_port = 0, src_addr = 0, dst_addr = 0, hash_value = 0\<rparr>"

definition zero_state :: DyssectState where
  "zero_state = \<lparr>cdf = 0, prob = 0, prob2 = 0, priority = False, offloaded = False,
     state_epoch = 0, state_bytes = 0, state_shard = 0, flow = zero_flow, global_state = 0\<rparr>"

subsection \<open>Packets and rings\<close>

text \<open>An \<open>rte_mbuf\<close>: its identity, the RSS hash the NIC stored in it and the frame.\<close>

record mbuf =
  mbuf_id :: nat
  rss :: u32
  frame :: "u8 list"

text \<open>
  Rings are named as \<open>init_queues\<close> names them (\<open>toAdd%d\<close>, \<open>toRemove%d\<close>, \<open>ring%d\<close>,
  \<open>queue%d\<close>); a \<open>rte_ring *\<close> is such a name. A ring holds \<open>void *\<close> values: packets, or, in the
  control rings, pointers to rings.
\<close>

datatype ring_ptr = ToAdd nat | ToRemove nat | RingOf nat | QueueOf nat

datatype void_ptr = PRing ring_ptr | PMbuf mbuf

record 'r ring_ops =
  ring_create :: "nat \<Rightarrow> 'r"
  ring_enqueue :: "void_ptr \<Rightarrow> 'r \<Rightarrow> int \<times> 'r"
  ring_enqueue_burst :: "void_ptr list \<Rightarrow> 'r \<Rightarrow> nat \<times> 'r"
  ring_dequeue :: "'r \<Rightarrow> (void_ptr \<times> 'r) option"
  ring_dequeue_burst :: "nat \<Rightarrow> 'r \<Rightarrow> void_ptr list \<times> 'r"
  ring_count :: "'r \<Rightarrow> nat"

text \<open>
  DPDK's documentation of \<open>rte_ring\<close>: a bounded FIFO. A ring created with \<open>n\<close> slots holds at
  most \<open>n - 1\<close> pointers; \<open>rte_ring_enqueue\<close> returns 0, or a negative number when the ring is
  full; the burst operations move as many pointers as fit, or as there are.
\<close>

definition ring_ok :: "'r ring_ops \<Rightarrow> ('r \<Rightarrow> void_ptr list) \<Rightarrow> ('r \<Rightarrow> nat) \<Rightarrow> bool" where
  "ring_ok R cont cap \<longleftrightarrow>
     (\<forall>n. cont (ring_create R n) = [] \<and> cap (ring_create R n) = n - 1) \<and>
     (\<forall>q. ring_count R q = length (cont q)) \<and>
     (\<forall>x q. length (cont q) < cap q \<longrightarrow>
        fst (ring_enqueue R x q) = 0 \<and> cont (snd (ring_enqueue R x q)) = cont q @ [x]) \<and>
     (\<forall>x q. \<not> length (cont q) < cap q \<longrightarrow>
        fst (ring_enqueue R x q) < 0 \<and> cont (snd (ring_enqueue R x q)) = cont q) \<and>
     (\<forall>x q. cap (snd (ring_enqueue R x q)) = cap q) \<and>
     (\<forall>xs q. fst (ring_enqueue_burst R xs q) = min (length xs) (cap q - length (cont q)) \<and>
        cont (snd (ring_enqueue_burst R xs q)) = cont q @ take (cap q - length (cont q)) xs \<and>
        cap (snd (ring_enqueue_burst R xs q)) = cap q) \<and>
     (\<forall>q. cont q = [] \<longrightarrow> ring_dequeue R q = None) \<and>
     (\<forall>q x xs. cont q = x # xs \<longrightarrow>
        (\<exists>q'. ring_dequeue R q = Some (x, q') \<and> cont q' = xs \<and> cap q' = cap q)) \<and>
     (\<forall>n q. fst (ring_dequeue_burst R n q) = take n (cont q) \<and>
        cont (snd (ring_dequeue_burst R n q)) = drop n (cont q) \<and>
        cap (snd (ring_dequeue_burst R n q)) = cap q)"

text \<open>A ring as the list of its pointers and its capacity, to instantiate the parameter.\<close>

type_synonym list_ring = "void_ptr list \<times> nat"

definition list_ring_ops :: "list_ring ring_ops" where
  "list_ring_ops = \<lparr>
     ring_create = (\<lambda>n. ([], n - 1)),
     ring_enqueue = (\<lambda>x (xs, c). if length xs < c then (0, (xs @ [x], c)) else (- 105, (xs, c))),
     ring_enqueue_burst = (\<lambda>ys (xs, c).
       (min (length ys) (c - length xs), (xs @ take (c - length xs) ys, c))),
     ring_dequeue = (\<lambda>(xs, c). case xs of [] \<Rightarrow> None | x # xs' \<Rightarrow> Some (x, (xs', c))),
     ring_dequeue_burst = (\<lambda>n (xs, c). (take n xs, (drop n xs, c))),
     ring_count = (\<lambda>(xs, c). length xs)\<rparr>"

lemma list_ring_ok: "ring_ok list_ring_ops fst snd"
  by (auto simp: ring_ok_def list_ring_ops_def)

subsection \<open>Hash tables\<close>

record 't table_ops =
  table_new :: 't
  table_find :: "DyssectFlow \<Rightarrow> 't \<Rightarrow> addr option"
  table_put :: "DyssectFlow \<Rightarrow> addr \<Rightarrow> 't \<Rightarrow> 't"
  table_clear :: "'t \<Rightarrow> 't"
  table_entries :: "'t \<Rightarrow> (DyssectFlow \<times> addr) list"

text \<open>
  \<open>dense_hash_map\<close> with \<open>EqualTo\<close> as its equality: \<open>operator[]\<close> inserts or overwrites, \<open>find\<close>
  looks up, iteration visits each entry once in an unspecified order. The hash is \<open>hash_value\<close>
  and the empty key is the all-zero flow, so the map is only specified for a set \<open>K\<close> of keys
  that excludes the empty key and on which equal flows have equal hashes.
\<close>

definition key_set :: "DyssectFlow set \<Rightarrow> bool" where
  "key_set K \<longleftrightarrow> (\<forall>k\<in>K. \<not> flow_equal k zero_flow) \<and>
     (\<forall>k\<in>K. \<forall>k'\<in>K. flow_equal k k' \<longrightarrow> hash_value k = hash_value k')"

definition table_ok :: "'t table_ops \<Rightarrow> DyssectFlow set \<Rightarrow> ('t \<Rightarrow> (DyssectFlow \<times> addr) set) \<Rightarrow> bool" where
  "table_ok T K ent \<longleftrightarrow> key_set K \<and>
     ent (table_new T) = {} \<and> (\<forall>t. ent (table_clear T t) = {}) \<and>
     (\<forall>t. set (table_entries T t) = ent t \<and> distinct (map fst (table_entries T t))) \<and>
     (\<forall>t k v. k \<in> K \<longrightarrow> fst ` ent t \<subseteq> K \<longrightarrow> ent (table_put T k v t) = {e \<in> ent t. fst e \<noteq> k} \<union> {(k, v)}) \<and>
     (\<forall>t k v. k \<in> K \<longrightarrow> fst ` ent t \<subseteq> K \<longrightarrow> (table_find T k t = Some v \<longleftrightarrow> (k, v) \<in> ent t))"

lemma flow_equal_key_set:
  assumes "key_set K" and "k \<in> K" and "k' \<in> K"
  shows "flow_equal k k' \<longleftrightarrow> k = k'"
proof
  assume eq: "flow_equal k k'"
  with assms have "hash_value k = hash_value k'" by (simp add: key_set_def)
  with eq show "k = k'" by (simp add: flow_equal_def)
qed (simp add: flow_equal_def)

text \<open>An association list, later bindings hidden, instantiates the parameter.\<close>

type_synonym list_table = "(DyssectFlow \<times> addr) list"

definition list_table_ops :: "list_table table_ops" where
  "list_table_ops = \<lparr>
     table_new = [],
     table_find = (\<lambda>k t. map_of t k),
     table_put = (\<lambda>k v t. (k, v) # t),
     table_clear = (\<lambda>_. []),
     table_entries = AList.clearjunk\<rparr>"

lemma set_clearjunk: "set (AList.clearjunk t) = {(k, v). map_of t k = Some v}"
proof -
  have "set (AList.clearjunk t) = {(k, v). map_of (AList.clearjunk t) k = Some v}"
    using distinct_clearjunk [of t] by (auto simp: map_of_eq_Some_iff)
  then show ?thesis by (simp add: map_of_clearjunk)
qed

lemma list_table_ok: "key_set K \<Longrightarrow> table_ok list_table_ops K (\<lambda>t. set (AList.clearjunk t))"
  by (auto simp: table_ok_def list_table_ops_def set_clearjunk distinct_clearjunk split: if_splits)

subsection \<open>Shards and the controller's static members\<close>

text \<open>
  \<open>ShardInfo\<close>. The members \<open>flows\<close> and \<open>_table\<close> are never used by the code and have no field.
  \<open>pause\<close> and the flags below are atomics that only ever hold 0 or 1.
\<close>

record ('t, 'r) ShardInfo =
  shard_r :: double
  shard_V :: double
  use_2 :: bool
  shard_bytes :: u32
  shard_packets :: u32
  old_bytes :: u32
  old_packets :: u32
  pause :: nat
  ref_count_1 :: u32
  ref_count_2 :: u32
  ordered_flows :: "addr list"
  r_new :: double
  owner :: nat
  owner_new :: nat
  table :: 't
  local_queue :: 'r
  flows3 :: 't
  flows3_2 :: 't

text \<open>
  The static members of \<open>DyssectController\<close>, with the objects they point to: \<open>ring_at\<close> is the
  memory of the rings, \<open>state_at\<close> that of the \<open>DyssectState\<close> objects, \<open>slots_at\<close> that of the
  \<open>global_state\<close> arrays; \<open>heap_top\<close> is the first address \<open>rte_zmalloc\<close> has not handed out. The arrays indexed by a
  core have one entry per core.
\<close>

record ('t, 'r) shared =
  iqueues :: nat
  sfc_length :: nat
  total_shards :: nat
  shards :: "('t, 'r) ShardInfo list"
  epoch :: u32
  had_changes :: "nat list"
  transfer_r :: "nat list"
  transfer_shard :: "nat list"
  transfer_offloading :: "nat list"
  controller_signal :: "nat list"
  offloading_from_working :: "nat list"
  new_offloading_from_working :: "nat list"
  rings :: "ring_ptr list"
  queues :: "ring_ptr list"
  toAddQueue :: "ring_ptr list"
  toRemoveQueue :: "ring_ptr list"
  ring_at :: "ring_ptr \<Rightarrow> 'r"
  state_at :: "addr \<Rightarrow> DyssectState"
  slots_at :: global_mem
  heap_top :: addr

text \<open>\<open>shards[s].\<dots> = \<dots>\<close>, and the queue operations on a ring in memory.\<close>

definition upd_shard :: "nat \<Rightarrow> (('t, 'r) ShardInfo \<Rightarrow> ('t, 'r) ShardInfo) \<Rightarrow> ('t, 'r) shared \<Rightarrow> ('t, 'r) shared" where
  "upd_shard s f sh = sh\<lparr>shards := (shards sh)[s := f (shards sh ! s)]\<rparr>"

definition set_ring :: "ring_ptr \<Rightarrow> 'r \<Rightarrow> ('t, 'r) shared \<Rightarrow> ('t, 'r) shared" where
  "set_ring p q sh = sh\<lparr>ring_at := (ring_at sh)(p := q)\<rparr>"

definition enqueue_at :: "'r ring_ops \<Rightarrow> ring_ptr \<Rightarrow> void_ptr \<Rightarrow> ('t, 'r) shared \<Rightarrow> ('t, 'r) shared" where
  "enqueue_at R p x sh = set_ring p (snd (ring_enqueue R x (ring_at sh p))) sh"

subsection \<open>Frames of the ring operations\<close>

lemma set_ring_frame [simp]:
  "shards (set_ring p q sh) = shards sh" "total_shards (set_ring p q sh) = total_shards sh"
  "iqueues (set_ring p q sh) = iqueues sh" "sfc_length (set_ring p q sh) = sfc_length sh"
  "epoch (set_ring p q sh) = epoch sh"
  "had_changes (set_ring p q sh) = had_changes sh" "transfer_r (set_ring p q sh) = transfer_r sh"
  "transfer_shard (set_ring p q sh) = transfer_shard sh"
  "transfer_offloading (set_ring p q sh) = transfer_offloading sh"
  "controller_signal (set_ring p q sh) = controller_signal sh"
  "offloading_from_working (set_ring p q sh) = offloading_from_working sh"
  "new_offloading_from_working (set_ring p q sh) = new_offloading_from_working sh"
  "rings (set_ring p q sh) = rings sh" "queues (set_ring p q sh) = queues sh"
  "toAddQueue (set_ring p q sh) = toAddQueue sh" "toRemoveQueue (set_ring p q sh) = toRemoveQueue sh"
  "state_at (set_ring p q sh) = state_at sh" "slots_at (set_ring p q sh) = slots_at sh"
  "heap_top (set_ring p q sh) = heap_top sh"
  "ring_at (set_ring p q sh) = (ring_at sh)(p := q)"
  by (simp_all add: set_ring_def)

text \<open>Every field but the memory of the rings: what the ring operations leave unchanged.\<close>

definition same_but_rings :: "('t, 'r) shared \<Rightarrow> ('t, 'r) shared \<Rightarrow> bool" where
  "same_but_rings sh sh' \<longleftrightarrow> sh' = sh\<lparr>ring_at := ring_at sh'\<rparr>"

lemma same_but_ringsE:
  assumes "same_but_rings sh sh'"
  obtains q where "sh' = sh\<lparr>ring_at := q\<rparr>"
  using assms by (auto simp: same_but_rings_def)

lemma same_but_ringsI [intro?]: "sh' = sh\<lparr>ring_at := q\<rparr> \<Longrightarrow> same_but_rings sh sh'"
  by (simp add: same_but_rings_def)

lemma same_but_rings_trans: "same_but_rings a b \<Longrightarrow> same_but_rings b c \<Longrightarrow> same_but_rings a c"
  by (auto elim!: same_but_ringsE intro: same_but_ringsI)

lemma same_but_rings_refl [simp]: "same_but_rings sh sh"
  by (simp add: same_but_rings_def)

lemma same_but_rings_set [simp, intro]: "same_but_rings sh sh' \<Longrightarrow> same_but_rings sh (set_ring p q sh')"
  by (auto elim!: same_but_ringsE intro: same_but_ringsI simp: set_ring_def)

lemma same_but_rings_enqueue [simp, intro]:
  "same_but_rings sh sh' \<Longrightarrow> same_but_rings sh (enqueue_at R p x sh')"
  by (simp add: enqueue_at_def)

end
