(* ===== verification/Assignment.thy ===== *)
theory Assignment
  imports Dyssect_State
begin

text \<open>
  The controller's assignment of shards to working cores: the matrix \<open>A\<close>, the NIC's
  redirection table (RETA) that mirrors it, and the start of a shard migration
  (\<open>init_dpdk\<close>, \<open>migration_shard\<close>, \<open>update_reta\<close>, \<open>update_shards\<close>).

  \<open>A\<close> and \<open>newA\<close> are 0/1 matrices with one row per shard and one column per core. The
  abstraction \<open>assigned\<close> reads the core of a shard off its row. The invariant \<open>assign_ok\<close> says
  that every row has exactly one 1, in a working core's column; \<open>reta_ok\<close> says that the RETA
  agrees with it.
\<close>

subsection \<open>The private state of the controller\<close>

record slo_params =
  Cap :: double
  Csp :: double
  SLOp :: double
  Car :: double
  Csr :: double
  SLOr :: double

record controller =
  num_W :: nat
  num_E :: nat
  total_cores :: nat
  mat_A :: "nat list"
  mat_O :: "nat list"
  new_A :: "nat list"
  new_O :: "nat list"
  reta_size :: nat
  reta_conf :: "nat list list"
  reta_updates :: "nat list list list"
  next_short :: u64
  total_flows :: u32
  total_bytes :: u32
  total_packets :: u32
  last_totalpackets :: u32
  Tr :: double
  Tp :: double
  slo :: slo_params
  use_solver :: bool

text \<open>
  \<open>reta_conf\<close> holds the tables of the \<open>RETA_CONF_SIZE = 512 / 64\<close> groups of
  \<open>RTE_ETH_RETA_GROUP_SIZE = 64\<close> entries; \<open>reta_updates\<close> logs the tables handed to
  \<open>rte_eth_dev_rss_reta_update\<close>, the latest first.
\<close>

definition RETA_GROUP_SIZE :: nat where "RETA_GROUP_SIZE = 64"

definition RETA_CONF_SIZE :: nat where "RETA_CONF_SIZE = 512 div RETA_GROUP_SIZE"

definition reta_get :: "nat list list \<Rightarrow> nat \<Rightarrow> nat" where
  "reta_get conf k = conf ! (k div RETA_GROUP_SIZE) ! (k mod RETA_GROUP_SIZE)"

definition reta_set :: "nat \<Rightarrow> nat \<Rightarrow> nat list list \<Rightarrow> nat list list outcome" where
  "reta_set k w conf =
     check_index (k div RETA_GROUP_SIZE) conf (check_index (k mod RETA_GROUP_SIZE) (conf ! (k div RETA_GROUP_SIZE))
       (Inr (conf[k div RETA_GROUP_SIZE := (conf ! (k div RETA_GROUP_SIZE))[k mod RETA_GROUP_SIZE := w]])))"

text \<open>\<open>for (k = start; k < reta_size; k += total_shards) \<dots> = w;\<close> with \<open>total_shards\<close> positive.\<close>

function reta_fill :: "nat \<Rightarrow> nat \<Rightarrow> nat \<Rightarrow> nat \<Rightarrow> nat list list \<Rightarrow> nat list list outcome" where
  "reta_fill k step n w conf =
     (if k < n \<and> 0 < step then (case reta_set k w conf of Inl e \<Rightarrow> Inl e | Inr conf' \<Rightarrow> reta_fill (k + step) step n w conf') else Inr conf)"
  by pat_completeness auto
termination
  by (relation "measure (\<lambda>(k, step, n, w, conf). n - k)") auto

declare reta_fill.simps [simp del]

subsection \<open>Starting a migration\<close>

definition migration_shard :: "nat \<Rightarrow> nat \<Rightarrow> bool \<Rightarrow> ('t, 'r) shared \<Rightarrow> ('t, 'r) shared outcome" where
  "migration_shard s w send_signal sh = check_index s (shards sh)
     (if owner (shards sh ! s) = w then Inr sh
      else if \<not> send_signal then Inr (upd_shard s (\<lambda>i. i\<lparr>owner_new := w, pause := 1\<rparr>) sh)
      else check_index (owner (shards sh ! s)) (transfer_shard sh)
        (Inr (sh\<lparr>transfer_shard := (transfer_shard sh)[owner (shards sh ! s) := 1]\<rparr>)))"

text \<open>The two loops over the cells of the matrices whose 0 becomes a 1.\<close>

definition becomes_one :: "controller \<Rightarrow> nat \<Rightarrow> nat \<Rightarrow> bool outcome" where
  "becomes_one c s w = (let k = s * total_cores c + w in check_index k (new_A c)
     (if new_A c ! k = 1 then check_index k (mat_A c) (Inr (mat_A c ! k = 0)) else Inr False))"

definition migrate_cells :: "bool \<Rightarrow> controller \<Rightarrow> ('t, 'r) shared \<Rightarrow> ('t, 'r) shared outcome" where
  "migrate_cells send_signal c sh =
     outcome_fold (\<lambda>s. outcome_fold (\<lambda>w sh. outcome_bind (becomes_one c s w) (\<lambda>b. if b then migration_shard s w send_signal sh else Inr sh))
         [0..<total_cores c]) [0..<total_shards sh] sh"

text \<open>\<open>update_reta\<close>: the loop state is the counter \<open>transfers\<close> and \<open>reta_conf\<close>.\<close>

definition update_reta_cell :: "controller \<Rightarrow> nat \<Rightarrow> nat \<Rightarrow> nat \<Rightarrow> nat \<times> nat list list \<Rightarrow> (nat \<times> nat list list) outcome" where
  "update_reta_cell c ts s w = (\<lambda>(transfers, conf).
     if w \<ge> num_W c then Inr (transfers, conf)
     else let k = s * total_cores c + w in check_index k (mat_A c) (check_index k (new_A c) (
       let t = (if mat_A c ! k \<noteq> new_A c ! k then Suc transfers else transfers)
       in if new_A c ! k = 1 then outcome_bind (reta_fill s ts (reta_size c) w conf) (\<lambda>conf'. Inr (t, conf')) else Inr (t, conf))))"

definition update_reta_loop :: "controller \<Rightarrow> nat \<Rightarrow> (nat \<times> nat list list) outcome" where
  "update_reta_loop c ts =
     outcome_fold (\<lambda>s. outcome_fold (update_reta_cell c ts s) [0..<total_cores c]) [0..<ts] (0, reta_conf c)"

definition update_reta :: "nat \<Rightarrow> controller \<Rightarrow> controller outcome" where
  "update_reta ts c = outcome_bind (update_reta_loop c ts) (\<lambda>(transfers, conf). let c' = c\<lparr>reta_conf := conf\<rparr>
     in Inr (if transfers div 2 \<noteq> 0 then c'\<lparr>reta_updates := conf # reta_updates c'\<rparr> else c'))"

definition update_shards :: "controller \<Rightarrow> ('t, 'r) shared \<Rightarrow> (bool \<times> controller \<times> ('t, 'r) shared) outcome" where
  "update_shards c sh =
     (if new_A c = mat_A c then Inr (False, c, sh)
      else outcome_bind (migrate_cells False c sh) (\<lambda>sh1.
        outcome_bind (update_reta (total_shards sh) c) (\<lambda>c1.
        outcome_bind (migrate_cells True c1 sh1) (\<lambda>sh2. Inr (True, c1\<lparr>mat_A := new_A c1\<rparr>, sh2)))))"

text \<open>
  The part of \<open>init_dpdk\<close> that fills \<open>A\<close> and \<open>reta_conf\<close>: shard \<open>s\<close> goes to core \<open>s % W\<close>.
\<close>

definition init_assignment :: "nat \<Rightarrow> nat \<Rightarrow> nat \<Rightarrow> nat \<Rightarrow> (nat list \<times> nat list list) outcome" where
  "init_assignment W tc ts n =
     outcome_fold (\<lambda>s (m, conf). outcome_bind (reta_fill s ts n (s mod W) conf) (\<lambda>conf'.
         check_index (s * tc + s mod W) m (Inr (m[s * tc + s mod W := 1], conf')))) [0..<ts]
       (replicate (ts * tc) 0, replicate RETA_CONF_SIZE (replicate RETA_GROUP_SIZE 0))"

subsection \<open>The same without checks\<close>

text \<open>
  What these operations do as long as every index is in range. The lemmas at the end of the theory show
  that they are, and that an operation that returns has done just this.
\<close>

definition reta_put :: "nat \<Rightarrow> nat \<Rightarrow> nat list list \<Rightarrow> nat list list" where
  "reta_put k w conf =
     conf[k div RETA_GROUP_SIZE := (conf ! (k div RETA_GROUP_SIZE))[k mod RETA_GROUP_SIZE := w]]"

function reta_filled :: "nat \<Rightarrow> nat \<Rightarrow> nat \<Rightarrow> nat \<Rightarrow> nat list list \<Rightarrow> nat list list" where
  "reta_filled k step n w conf =
     (if k < n \<and> 0 < step then reta_filled (k + step) step n w (reta_put k w conf) else conf)"
  by pat_completeness auto
termination
  by (relation "measure (\<lambda>(k, step, n, w, conf). n - k)") auto

declare reta_filled.simps [simp del]

definition migrated_shard :: "nat \<Rightarrow> nat \<Rightarrow> bool \<Rightarrow> ('t, 'r) shared \<Rightarrow> ('t, 'r) shared" where
  "migrated_shard s w send_signal sh =
     (if owner (shards sh ! s) = w then sh
      else if \<not> send_signal then upd_shard s (\<lambda>i. i\<lparr>owner_new := w, pause := 1\<rparr>) sh
      else sh\<lparr>transfer_shard := (transfer_shard sh)[owner (shards sh ! s) := 1]\<rparr>)"

definition becomes :: "controller \<Rightarrow> nat \<Rightarrow> nat \<Rightarrow> bool" where
  "becomes c s w \<longleftrightarrow> new_A c ! (s * total_cores c + w) = 1 \<and> mat_A c ! (s * total_cores c + w) = 0"

definition migrated_cells :: "bool \<Rightarrow> controller \<Rightarrow> ('t, 'r) shared \<Rightarrow> ('t, 'r) shared" where
  "migrated_cells send_signal c sh =
     fold (\<lambda>s. fold (\<lambda>w sh. if becomes c s w then migrated_shard s w send_signal sh else sh)
         [0..<total_cores c]) [0..<total_shards sh] sh"

definition reta_cell :: "controller \<Rightarrow> nat \<Rightarrow> nat \<Rightarrow> nat \<Rightarrow> nat \<times> nat list list \<Rightarrow> nat \<times> nat list list" where
  "reta_cell c ts s w = (\<lambda>(transfers, conf).
     if w \<ge> num_W c then (transfers, conf)
     else (if mat_A c ! (s * total_cores c + w) \<noteq> new_A c ! (s * total_cores c + w)
             then Suc transfers else transfers,
           if new_A c ! (s * total_cores c + w) = 1
             then reta_filled s ts (reta_size c) w conf else conf))"

definition reta_loop :: "controller \<Rightarrow> nat \<Rightarrow> nat \<times> nat list list" where
  "reta_loop c ts =
     fold (\<lambda>s. fold (reta_cell c ts s) [0..<total_cores c]) [0..<ts] (0, reta_conf c)"

definition reta_updated :: "nat \<Rightarrow> controller \<Rightarrow> controller" where
  "reta_updated ts c = (let (transfers, conf) = reta_loop c ts; c' = c\<lparr>reta_conf := conf\<rparr>
     in if transfers div 2 \<noteq> 0 then c'\<lparr>reta_updates := conf # reta_updates c'\<rparr> else c')"

definition shards_updated :: "controller \<Rightarrow> ('t, 'r) shared \<Rightarrow> bool \<times> controller \<times> ('t, 'r) shared" where
  "shards_updated c sh =
     (if new_A c = mat_A c then (False, c, sh)
      else let sh1 = migrated_cells False c sh;
               c1 = reta_updated (total_shards sh) c;
               sh2 = migrated_cells True c1 sh1
           in (True, c1\<lparr>mat_A := new_A c1\<rparr>, sh2))"

definition first_assignment :: "nat \<Rightarrow> nat \<Rightarrow> nat \<Rightarrow> nat \<Rightarrow> nat list \<times> nat list list" where
  "first_assignment W tc ts n =
     fold (\<lambda>s (m, conf). (m[s * tc + s mod W := 1], reta_filled s ts n (s mod W) conf)) [0..<ts]
       (replicate (ts * tc) 0, replicate RETA_CONF_SIZE (replicate RETA_GROUP_SIZE 0))"

subsection \<open>The assignment a matrix encodes\<close>

definition one_hot :: "nat list \<Rightarrow> nat \<Rightarrow> nat \<Rightarrow> nat \<Rightarrow> bool" where
  "one_hot m tc s w \<longleftrightarrow> w < tc \<and> (\<forall>j<tc. m ! (s * tc + j) = (if j = w then 1 else 0))"

definition assigned :: "nat list \<Rightarrow> nat \<Rightarrow> nat \<Rightarrow> nat" where
  "assigned m tc s = length (takeWhile (\<lambda>j. m ! (s * tc + j) \<noteq> 1) [0..<tc])"

definition assign_ok :: "nat \<Rightarrow> nat \<Rightarrow> nat \<Rightarrow> nat list \<Rightarrow> bool" where
  "assign_ok W tc ts m \<longleftrightarrow> length m = ts * tc \<and> W \<le> tc \<and>
     (\<forall>s<ts. assigned m tc s < W \<and> one_hot m tc s (assigned m tc s))"

lemma takeWhile_upt:
  "w < n \<Longrightarrow> P w \<Longrightarrow> (\<And>j. j < w \<Longrightarrow> \<not> P j) \<Longrightarrow> length (takeWhile (\<lambda>j. \<not> P j) [0..<n]) = w"
proof -
  assume w: "w < n" and P: "P w" and nP: "\<And>j. j < w \<Longrightarrow> \<not> P j"
  have "[0..<n] = [0..<w] @ w # [Suc w..<n]"
    using w by (metis le0 less_imp_le upt_add_eq_append upt_conv_Cons le_add_diff_inverse)
  then show ?thesis using P nP by (simp add: takeWhile_append)
qed

lemma one_hot_assigned: "one_hot m tc s w \<Longrightarrow> assigned m tc s = w"
  unfolding assigned_def by (rule takeWhile_upt) (auto simp: one_hot_def)

lemma assign_okI:
  assumes "length m = ts * tc" and "W \<le> tc" and "\<And>s. s < ts \<Longrightarrow> \<exists>w<W. one_hot m tc s w"
  shows "assign_ok W tc ts m"
  unfolding assign_ok_def using assms by (auto dest: one_hot_assigned)

lemma assign_okD:
  assumes "assign_ok W tc ts m" and "s < ts" and "j < tc"
  shows "m ! (s * tc + j) = (if j = assigned m tc s then 1 else 0)"
  using assms by (auto simp: assign_ok_def one_hot_def)

lemma assign_ok_less: "assign_ok W tc ts m \<Longrightarrow> s < ts \<Longrightarrow> assigned m tc s < W"
  by (simp add: assign_ok_def)

lemma assign_ok_less_tc: "assign_ok W tc ts m \<Longrightarrow> s < ts \<Longrightarrow> assigned m tc s < tc"
  by (auto simp: assign_ok_def)

text \<open>Two valid matrices are equal as soon as they assign the same cores.\<close>

lemma assign_ok_eqI:
  assumes "assign_ok W tc ts m" and "assign_ok W tc ts m'"
    and "\<And>s. s < ts \<Longrightarrow> assigned m tc s = assigned m' tc s"
  shows "m = m'"
proof (rule flat_eqI [of _ ts tc])
  fix s j assume "s < ts" "j < tc"
  then show "m ! (s * tc + j) = m' ! (s * tc + j)"
    using assms by (simp add: assign_okD [OF assms(1)] assign_okD [OF assms(2)])
qed (use assms in \<open>simp_all add: assign_ok_def\<close>)

subsection \<open>The redirection table\<close>

definition reta_shape :: "nat list list \<Rightarrow> bool" where
  "reta_shape conf \<longleftrightarrow> length conf = RETA_CONF_SIZE \<and> (\<forall>g\<in>set conf. length g = RETA_GROUP_SIZE)"

lemma reta_shape_set [simp]: "reta_shape conf \<Longrightarrow> reta_shape (reta_put k w conf)"
proof -
  assume sh: "reta_shape conf"
  have "set (reta_put k w conf) \<subseteq> insert ((conf ! (k div 64))[k mod 64 := w]) (set conf)"
    unfolding reta_put_def RETA_GROUP_SIZE_def by (rule set_update_subset_insert)
  moreover have "reta_put k w conf = conf \<or> k div 64 < length conf"
    by (auto simp: reta_put_def RETA_GROUP_SIZE_def list_update_beyond not_less)
  ultimately show ?thesis using sh
    by (fastforce simp: reta_shape_def reta_put_def)
qed

lemma reta_get_set:
  assumes "reta_shape conf" and "k < 512"
  shows "reta_get (reta_put k w conf) j = (if j = k then w else reta_get conf j)"
proof -
  have k: "k div 64 < length conf" "k mod 64 < length (conf ! (k div 64))"
    using assms by (auto simp: reta_shape_def RETA_CONF_SIZE_def RETA_GROUP_SIZE_def)
  show ?thesis
  proof (cases "j div 64 = k div 64")
    case True
    then have "j = k \<longleftrightarrow> k mod 64 = j mod 64" by (metis div_mult_mod_eq)
    then show ?thesis using k True
      by (simp add: reta_get_def reta_put_def RETA_GROUP_SIZE_def nth_list_update)
  next
    case False
    then show ?thesis by (auto simp: reta_get_def reta_put_def RETA_GROUP_SIZE_def)
  qed
qed

lemma reta_filled_shape [simp]: "reta_shape conf \<Longrightarrow> reta_shape (reta_filled k step n w conf)"
proof (induction k step n w conf rule: reta_filled.induct)
  case (1 k step n w conf)
  then show ?case by (subst reta_filled.simps) auto
qed

lemma reta_get_fill:
  assumes "reta_shape conf" and "n \<le> 512" and "0 < step"
  shows "reta_get (reta_filled k step n w conf) j =
    (if k \<le> j \<and> j < n \<and> j mod step = k mod step then w else reta_get conf j)"
  using assms
proof (induction k step n w conf rule: reta_filled.induct)
  case (1 k step n w conf)
  show ?case
  proof (cases "k < n")
    case False
    then show ?thesis by (subst reta_filled.simps) auto
  next
    case True
    have "reta_get (reta_filled k step n w conf) j = reta_get (reta_filled (k + step) step n w (reta_put k w conf)) j"
      using True "1.prems" by (simp add: reta_filled.simps [of k])
    also have "\<dots> = (if k + step \<le> j \<and> j < n \<and> j mod step = (k + step) mod step then w
        else reta_get (reta_put k w conf) j)"
      using True "1.prems" by (intro "1.IH") auto
    also have "\<dots> = (if k \<le> j \<and> j < n \<and> j mod step = k mod step then w else reta_get conf j)"
    proof -
      have "k + step \<le> j" if "k < j" "j mod step = k mod step"
      proof -
        from that have "step dvd j - k" by (simp add: mod_eq_dvd_iff_nat)
        then have "step \<le> j - k" using that by (intro dvd_imp_le) auto
        with that show ?thesis by simp
      qed
      then show ?thesis using True "1.prems" by (auto simp: reta_get_set)
    qed
    finally show ?thesis .
  qed
qed

subsection \<open>The loops over the cells, row by row\<close>

lemma fold_single:
  assumes "distinct xs"
  shows "fold (\<lambda>x s. if x = a then f s else s) xs s = (if a \<in> set xs then f s else s)"
  using assms by (induction xs arbitrary: s) auto

definition moved :: "controller \<Rightarrow> nat \<Rightarrow> bool" where
  "moved c s \<longleftrightarrow> assigned (mat_A c) (total_cores c) s \<noteq> assigned (new_A c) (total_cores c) s"

abbreviation new_core :: "controller \<Rightarrow> nat \<Rightarrow> nat" where
  "new_core c s \<equiv> assigned (new_A c) (total_cores c) s"

text \<open>Both matrices are valid assignments of the \<open>ts\<close> shards.\<close>

definition assigns :: "controller \<Rightarrow> nat \<Rightarrow> bool" where
  "assigns c ts \<longleftrightarrow> assign_ok (num_W c) (total_cores c) ts (mat_A c)
     \<and> assign_ok (num_W c) (total_cores c) ts (new_A c)"

lemma assigns_moved_unless_equal:
  assumes "assigns c ts" and "new_A c \<noteq> mat_A c"
  shows "\<exists>s<ts. moved c s"
  using assms assign_ok_eqI [of "num_W c" "total_cores c" ts "mat_A c" "new_A c"]
  by (auto simp: assigns_def moved_def)

lemma becomes_iff:
  assumes "assigns c ts" and "s < ts" and "w < total_cores c"
  shows "becomes c s w \<longleftrightarrow> w = new_core c s \<and> moved c s"
  using assms assign_okD [of "num_W c" "total_cores c" ts _ s w]
  by (auto simp: assigns_def moved_def becomes_def)

lemma migrate_row:
  assumes "assigns c ts" and "s < ts"
  shows "fold (\<lambda>w sh. if becomes c s w then migrated_shard s w b sh else sh) [0..<total_cores c] sh
    = (if moved c s then migrated_shard s (new_core c s) b sh else sh)"
proof -
  have "fold (\<lambda>w sh. if becomes c s w then migrated_shard s w b sh else sh) [0..<total_cores c] sh
    = fold (\<lambda>w sh. if w = new_core c s then if moved c s then migrated_shard s (new_core c s) b sh else sh else sh)
        [0..<total_cores c] sh"
    using assms by (intro fold_cong refl ext) (auto simp: becomes_iff)
  also have "\<dots> = (if moved c s then migrated_shard s (new_core c s) b sh else sh)"
    using assms by (subst fold_single) (auto simp: assigns_def dest: assign_ok_less_tc)
  finally show ?thesis .
qed

lemma migrated_cells_rows:
  assumes "assigns c (total_shards sh)"
  shows "migrated_cells b c sh =
    fold (\<lambda>s sh. if moved c s then migrated_shard s (new_core c s) b sh else sh) [0..<total_shards sh] sh"
  unfolding migrated_cells_def using assms by (intro fold_cong refl ext) (simp add: migrate_row)

subsection \<open>What the two loops do\<close>

text \<open>The shards that change owner, and what announcing the migration writes into them.\<close>

definition migrating :: "controller \<Rightarrow> ('t, 'r) shared \<Rightarrow> nat \<Rightarrow> bool" where
  "migrating c sh s \<longleftrightarrow> s < total_shards sh \<and> moved c s \<and> owner (shards sh ! s) \<noteq> new_core c s"

definition announce :: "controller \<Rightarrow> ('t, 'r) shared \<Rightarrow> nat \<Rightarrow> ('t, 'r) ShardInfo" where
  "announce c sh s = (if migrating c sh s then (shards sh ! s)\<lparr>owner_new := new_core c s, pause := 1\<rparr>
     else shards sh ! s)"

lemma migrate_announce:
  assumes "assigns c (total_shards sh)" and len: "length (shards sh) = total_shards sh"
  shows "migrated_cells False c sh = sh\<lparr>shards := map (announce c sh) [0..<total_shards sh]\<rparr>"
proof -
  let ?P = "\<lambda>i st. st = sh\<lparr>shards := map (\<lambda>s. if s < i then announce c sh s else shards sh ! s) [0..<total_shards sh]\<rparr>"
  let ?f = "\<lambda>s sh. if moved c s then migrated_shard s (new_core c s) False sh else sh"
  have "?P (total_shards sh) (fold ?f [0..<total_shards sh] sh)"
  proof (rule fold_upt_inv [where P = ?P])
    show "?P 0 sh" using map_nth [of "shards sh"] len by simp
  next
    fix i st assume i: "i < total_shards sh" and P: "?P i st"
    have "?f i st = st\<lparr>shards := (shards st)[i := announce c sh i]\<rparr>"
      using i P by (auto simp: migrated_shard_def upd_shard_def announce_def migrating_def list_update_unchanged)
    also have "\<dots> = sh\<lparr>shards := map (\<lambda>s. if s < Suc i then announce c sh s else shards sh ! s) [0..<total_shards sh]\<rparr>"
    proof -
      have "(map (\<lambda>s. if s < i then announce c sh s else shards sh ! s) [0..<total_shards sh])[i := announce c sh i]
        = map (\<lambda>s. if s < Suc i then announce c sh s else shards sh ! s) [0..<total_shards sh]"
        by (intro nth_equalityI) (auto simp: nth_update less_Suc_eq)
      then show ?thesis using P by simp
    qed
    finally show "?P (Suc i) (?f i st)" .
  qed
  then show ?thesis using assms by (simp add: migrated_cells_rows cong: map_cong)
qed

lemma migrate_signal:
  assumes "assigns c (total_shards sh)"
  shows "migrated_cells True c sh = sh\<lparr>transfer_shard := map (\<lambda>k. if \<exists>s. migrating c sh s \<and> owner (shards sh ! s) = k
      then 1 else transfer_shard sh ! k) [0..<length (transfer_shard sh)]\<rparr>"
proof -
  let ?sig = "\<lambda>i k. \<exists>s<i. migrating c sh s \<and> owner (shards sh ! s) = k"
  let ?P = "\<lambda>i st. st = sh\<lparr>transfer_shard := map (\<lambda>k. if ?sig i k then 1 else transfer_shard sh ! k)
      [0..<length (transfer_shard sh)]\<rparr>"
  let ?f = "\<lambda>s sh. if moved c s then migrated_shard s (new_core c s) True sh else sh"
  have "?P (total_shards sh) (fold ?f [0..<total_shards sh] sh)"
  proof (rule fold_upt_inv [where P = ?P])
    show "?P 0 sh" using map_nth [of "transfer_shard sh"] by simp
  next
    fix i st assume i: "i < total_shards sh" and P: "?P i st"
    have "?f i st = (if migrating c sh i then st\<lparr>transfer_shard := (transfer_shard st)[owner (shards sh ! i) := 1]\<rparr> else st)"
      using i P by (auto simp: migrated_shard_def migrating_def)
    moreover have "(if migrating c sh i then (transfer_shard st)[owner (shards sh ! i) := 1] else transfer_shard st)
        = map (\<lambda>k. if ?sig (Suc i) k then 1 else transfer_shard sh ! k) [0..<length (transfer_shard sh)]"
      using P by (intro nth_equalityI) (auto simp: nth_update less_Suc_eq)
    ultimately show "?P (Suc i) (?f i st)" using P by (simp split: if_splits)
  qed
  moreover have "?sig (total_shards sh) k \<longleftrightarrow> (\<exists>s. migrating c sh s \<and> owner (shards sh ! s) = k)" for k
    by (auto simp: migrating_def)
  ultimately show ?thesis using assms by (simp add: migrated_cells_rows)
qed

subsection \<open>The redirection table after an update\<close>

text \<open>One row: two cells differ when the shard moves, and its RETA entries are rewritten.\<close>

lemma reta_row_count:
  assumes "assigns c ts" and "s < ts"
  shows "length (filter (\<lambda>w. w < num_W c \<and> mat_A c ! (s * total_cores c + w) \<noteq> new_A c ! (s * total_cores c + w))
    [0..<total_cores c]) = (if moved c s then 2 else 0)"
proof -
  let ?a = "assigned (mat_A c) (total_cores c) s" and ?a' = "new_core c s"
  let ?D = "\<lambda>w. w < num_W c \<and> mat_A c ! (s * total_cores c + w) \<noteq> new_A c ! (s * total_cores c + w)"
  have "?D w \<longleftrightarrow> moved c s \<and> (w = ?a \<or> w = ?a')" if "w < total_cores c" for w
    using assms that assign_okD [of "num_W c" "total_cores c" ts _ s w] assign_ok_less [of "num_W c" "total_cores c" ts _ s]
    by (auto simp: assigns_def moved_def)
  moreover have "?a < total_cores c" "?a' < total_cores c"
    using assms by (auto simp: assigns_def intro: assign_ok_less_tc)
  ultimately have "set (filter ?D [0..<total_cores c]) = (if moved c s then {?a, ?a'} else {})" by auto
  moreover have "length (filter ?D [0..<total_cores c]) = card (set (filter ?D [0..<total_cores c]))"
    by (rule distinct_card [symmetric]) simp
  ultimately show ?thesis by (simp add: moved_def)
qed

lemma reta_row_gen:
  assumes "assigns c ts" and "s < ts" and "distinct ws" and "set ws \<subseteq> {..<total_cores c}"
  shows "fold (reta_cell c ts s) ws (t, conf) =
    (t + length (filter (\<lambda>w. w < num_W c \<and> mat_A c ! (s * total_cores c + w) \<noteq> new_A c ! (s * total_cores c + w)) ws),
     if new_core c s \<in> set ws then reta_filled s ts (reta_size c) (new_core c s) conf else conf)"
  using assms(3,4)
proof (induction ws arbitrary: t conf)
  case Nil
  then show ?case by simp
next
  case (Cons w ws)
  have one: "new_A c ! (s * total_cores c + w) = 1 \<longleftrightarrow> w = new_core c s" and "new_core c s < num_W c"
    using assms(1,2) Cons.prems assign_okD [of "num_W c" "total_cores c" ts "new_A c" s w]
    by (auto simp: assigns_def intro: assign_ok_less)
  then show ?case using Cons by (auto simp: reta_cell_def simp del: One_nat_def)
qed

lemma reta_row:
  assumes "assigns c ts" and "s < ts"
  shows "fold (reta_cell c ts s) [0..<total_cores c] (t, conf) =
    (t + (if moved c s then 2 else 0), reta_filled s ts (reta_size c) (new_core c s) conf)"
proof -
  have "new_core c s < total_cores c" using assms by (auto simp: assigns_def intro: assign_ok_less_tc)
  then show ?thesis
    by (subst reta_row_gen [OF assms]) (auto simp: reta_row_count [OF assms])
qed

definition moves :: "controller \<Rightarrow> nat \<Rightarrow> nat" where
  "moves c ts = length (filter (moved c) [0..<ts])"

lemma reta_loop_spec:
  assumes "assigns c ts" and "reta_shape (reta_conf c)" and "reta_size c \<le> 512"
  shows "fst (reta_loop c ts) = 2 * moves c ts \<and> reta_shape (snd (reta_loop c ts)) \<and>
    (\<forall>k<reta_size c. 0 < ts \<longrightarrow> reta_get (snd (reta_loop c ts)) k = new_core c (k mod ts))"
proof -
  let ?P = "\<lambda>i st. fst st = 2 * length (filter (moved c) [0..<i]) \<and> reta_shape (snd st) \<and>
      (\<forall>k<reta_size c. k mod ts < i \<longrightarrow> reta_get (snd st) k = new_core c (k mod ts))"
  have "?P ts (fold (\<lambda>s. fold (reta_cell c ts s) [0..<total_cores c]) [0..<ts] (0, reta_conf c))"
  proof (rule fold_upt_inv [where P = ?P])
    show "?P 0 (0, reta_conf c)" using assms(2) by simp
  next
    fix i st assume i: "i < ts" and P: "?P i st"
    obtain t conf where st: "st = (t, conf)" by (cases st)
    have "reta_get (reta_filled i ts (reta_size c) (new_core c i) conf) k = new_core c (k mod ts)"
      if "k < reta_size c" "k mod ts < Suc i" for k
    proof -
      have "k mod ts = i \<Longrightarrow> i \<le> k" by (metis mod_less_eq_dividend)
      then show ?thesis using that P st i assms(3) by (auto simp: reta_get_fill less_Suc_eq)
    qed
    then show "?P (Suc i) (fold (reta_cell c ts i) [0..<total_cores c] st)"
      using P i assms(1) by (simp add: st reta_row)
  qed
  then show ?thesis by (simp add: reta_loop_def moves_def)
qed

text \<open>\<open>conf\<close> sends every RETA entry to the core that \<open>m\<close> assigns to its shard.\<close>

definition reta_agrees :: "nat list list \<Rightarrow> nat \<Rightarrow> nat list \<Rightarrow> nat \<Rightarrow> nat \<Rightarrow> bool" where
  "reta_agrees conf n m tc ts \<longleftrightarrow> (\<forall>k<n. reta_get conf k = assigned m tc (k mod ts))"

text \<open>
  The invariant of the controller: the matrix is a valid assignment, and both the table it keeps
  and the one it last gave to the NIC agree with it.
\<close>

definition controller_inv :: "controller \<Rightarrow> nat \<Rightarrow> bool" where
  "controller_inv c ts \<longleftrightarrow> 0 < ts \<and> reta_size c \<le> 512 \<and> reta_shape (reta_conf c)
     \<and> assign_ok (num_W c) (total_cores c) ts (mat_A c)
     \<and> reta_agrees (reta_conf c) (reta_size c) (mat_A c) (total_cores c) ts
     \<and> reta_updates c \<noteq> []
     \<and> reta_agrees (hd (reta_updates c)) (reta_size c) (mat_A c) (total_cores c) ts"

lemma reta_updated_frame [frame_simps]:
  "num_W (reta_updated ts c) = num_W c" "num_E (reta_updated ts c) = num_E c"
  "total_cores (reta_updated ts c) = total_cores c" "mat_A (reta_updated ts c) = mat_A c"
  "new_A (reta_updated ts c) = new_A c" "reta_size (reta_updated ts c) = reta_size c"
  "mat_O (reta_updated ts c) = mat_O c" "new_O (reta_updated ts c) = new_O c"
  by (simp_all add: reta_updated_def Let_def split: prod.splits)

lemma moves_pos: "s < ts \<Longrightarrow> moved c s \<Longrightarrow> 0 < moves c ts"
  by (auto simp: moves_def length_greater_0_conv filter_empty_conv)

lemma reta_updated_result:
  assumes "assigns c ts" and "reta_shape (reta_conf c)" and "reta_size c \<le> 512" and "0 < ts"
  shows "reta_shape (reta_conf (reta_updated ts c)) \<and>
    reta_agrees (reta_conf (reta_updated ts c)) (reta_size c) (new_A c) (total_cores c) ts \<and>
    reta_updates (reta_updated ts c) =
      (if moves c ts = 0 then reta_updates c else reta_conf (reta_updated ts c) # reta_updates c)"
  using reta_loop_spec [OF assms(1-3)] assms(4)
  by (cases "reta_loop c ts") (simp add: reta_updated_def reta_agrees_def Let_def)

lemma migrated_cells_c: "migrated_cells b (reta_updated ts c) sh = migrated_cells b c sh"
  by (simp add: migrated_cells_def becomes_def frame_simps)

lemma shards_updated_inv:
  assumes "controller_inv c (total_shards sh)"
    and "assign_ok (num_W c) (total_cores c) (total_shards sh) (new_A c)"
    and "shards_updated c sh = (r, c', sh')"
  shows "controller_inv c' (total_shards sh) \<and> mat_A c' = new_A c"
proof (cases "new_A c = mat_A c")
  case True
  then show ?thesis using assms by (simp add: shards_updated_def)
next
  case False
  have a: "assigns c (total_shards sh)" using assms(1,2) by (simp add: assigns_def controller_inv_def)
  have c': "c' = (reta_updated (total_shards sh) c)\<lparr>mat_A := new_A c\<rparr>"
    using assms(3) False by (simp add: shards_updated_def Let_def frame_simps)
  from assigns_moved_unless_equal [OF a False] have "moves c (total_shards sh) \<noteq> 0"
    using moves_pos by fastforce
  then show ?thesis
    using reta_updated_result [OF a] assms(1,2) by (simp add: c' controller_inv_def frame_simps)
qed

subsection \<open>The initial assignment\<close>

lemma first_assignment_cells:
  assumes "0 < W" and "W \<le> tc" and "n \<le> 512" and "first_assignment W tc ts n = (m, conf)"
  shows "length m = ts * tc \<and> (\<forall>s<ts. \<forall>j<tc. m ! (s * tc + j) = (if j = s mod W then 1 else 0))
    \<and> reta_shape conf \<and> (\<forall>k<n. 0 < ts \<longrightarrow> reta_get conf k = (k mod ts) mod W)"
proof -
  let ?z = "replicate (ts * tc) (0::nat)"
  let ?f = "\<lambda>s (m, conf). (m[s * tc + s mod W := 1], reta_filled s ts n (s mod W) conf)"
  let ?P = "\<lambda>i st. length (fst st) = ts * tc \<and>
      (\<forall>s<ts. \<forall>j<tc. fst st ! (s * tc + j) = (if s < i \<and> j = s mod W then 1 else 0)) \<and>
      reta_shape (snd st) \<and> (\<forall>k<n. k mod ts < i \<longrightarrow> reta_get (snd st) k = (k mod ts) mod W)"
  have "?P ts (fold ?f [0..<ts] (?z, replicate RETA_CONF_SIZE (replicate RETA_GROUP_SIZE 0)))"
  proof (rule fold_upt_inv [where P = ?P])
    show "?P 0 (?z, replicate RETA_CONF_SIZE (replicate RETA_GROUP_SIZE 0))"
      by (auto simp: reta_shape_def flat_index_less)
  next
    fix i st assume i: "i < ts" and P: "?P i st"
    obtain m conf where st: "st = (m, conf)" by (cases st)
    have "i mod W < tc" using assms(1,2) by (meson mod_less_divisor order_less_le_trans)
    then have "m[i * tc + i mod W := 1] ! (s * tc + j) = (if s < Suc i \<and> j = s mod W then 1 else 0)"
      if "s < ts" "j < tc" for s j
      using that P flat_index_less [OF that] flat_index_inj [of j tc "i mod W" s i]
      by (auto simp: st nth_update less_Suc_eq)
    moreover have "reta_get (reta_filled i ts n (i mod W) conf) k = (k mod ts) mod W"
      if "k < n" "k mod ts < Suc i" for k
    proof -
      have "k mod ts = i \<Longrightarrow> i \<le> k" by (metis mod_less_eq_dividend)
      then show ?thesis using that P i assms(3) by (auto simp: st reta_get_fill less_Suc_eq)
    qed
    ultimately show "?P (Suc i) (?f i st)" using P by (simp add: st)
  qed
  then show ?thesis using assms(4) by (simp add: first_assignment_def)
qed

lemma first_assignment_ok:
  assumes "0 < W" and "W \<le> tc" and "n \<le> 512" and "first_assignment W tc ts n = (m, conf)"
  shows "assign_ok W tc ts m" and "s < ts \<Longrightarrow> assigned m tc s = s mod W" and "reta_shape conf"
    and "0 < ts \<Longrightarrow> reta_agrees conf n m tc ts"
proof -
  note cells = first_assignment_cells [OF assms]
  have oh: "one_hot m tc s (s mod W)" if "s < ts" for s
    using cells that assms(1,2) by (auto simp: one_hot_def intro: order_less_le_trans [OF mod_less_divisor])
  then show "assign_ok W tc ts m" using cells assms(1,2) by (intro assign_okI) (auto intro!: exI [of _ "_ mod W"])
  show as: "s < ts \<Longrightarrow> assigned m tc s = s mod W" for s using oh one_hot_assigned by blast
  show "reta_shape conf" using cells by blast
  show "0 < ts \<Longrightarrow> reta_agrees conf n m tc ts" using cells as by (simp add: reta_agrees_def)
qed

subsection \<open>The checks\<close>

text \<open>What an operation with checks returns.\<close>

lemma reta_set_pure: "reta_set k w conf = Inr conf' \<Longrightarrow> conf' = reta_put k w conf"
  by (simp add: reta_set_def reta_put_def check_index_Inr)

lemma reta_fill_pure: "reta_fill k step n w conf = Inr conf' \<Longrightarrow> conf' = reta_filled k step n w conf"
proof (induction k step n w conf rule: reta_fill.induct)
  case (1 k step n w conf)
  then show ?case
    by (subst (asm) (2) reta_fill.simps, subst reta_filled.simps) (auto dest: reta_set_pure split: if_splits sum.splits)
qed

lemma migration_shard_pure: "migration_shard s w b sh = Inr sh' \<Longrightarrow> sh' = migrated_shard s w b sh"
  by (auto simp: migration_shard_def migrated_shard_def check_index_Inr split: if_splits)

lemma becomes_one_pure: "becomes_one c s w = Inr b \<Longrightarrow> b = becomes c s w"
  by (auto simp: becomes_one_def becomes_def check_index_Inr Let_def split: if_splits)

lemma migrate_cells_pure: "migrate_cells b c sh = Inr sh' \<Longrightarrow> sh' = migrated_cells b c sh"
  unfolding migrate_cells_def migrated_cells_def
  by (erule outcome_fold_pure [rotated], erule outcome_fold_pure [rotated])
     (auto simp: outcome_bind_Inr dest!: becomes_one_pure migration_shard_pure split: if_splits)

lemma update_reta_cell_pure: "update_reta_cell c ts s w x = Inr y \<Longrightarrow> y = reta_cell c ts s w x"
  by (auto simp: update_reta_cell_def reta_cell_def outcome_bind_Inr check_index_Inr Let_def dest!: reta_fill_pure split: prod.splits if_splits)

lemma update_reta_loop_pure: "update_reta_loop c ts = Inr y \<Longrightarrow> y = reta_loop c ts"
  unfolding update_reta_loop_def reta_loop_def
  by (erule outcome_fold_pure [rotated], erule outcome_fold_pure [rotated]) (rule update_reta_cell_pure)

lemma update_reta_pure: "update_reta ts c = Inr c' \<Longrightarrow> c' = reta_updated ts c"
  by (auto simp: update_reta_def reta_updated_def outcome_bind_Inr Let_def dest!: update_reta_loop_pure split: prod.splits)

lemma update_shards_pure: "update_shards c sh = Inr r \<Longrightarrow> r = shards_updated c sh"
  by (auto simp: update_shards_def shards_updated_def outcome_bind_Inr Let_def dest!: migrate_cells_pure update_reta_pure split: if_splits)

lemma init_assignment_pure: "init_assignment W tc ts n = Inr x \<Longrightarrow> x = first_assignment W tc ts n"
  unfolding init_assignment_def first_assignment_def
  by (erule outcome_fold_pure [rotated]) (auto simp: outcome_bind_Inr check_index_Inr dest: reta_fill_pure split: prod.splits)

text \<open>In range, they return.\<close>

lemma reta_set_ok:
  assumes "reta_shape conf" and "k < 512"
  shows "reta_set k w conf = Inr (reta_put k w conf)"
proof -
  have k: "k div 64 < length conf" "k mod 64 < length (conf ! (k div 64))"
    using assms by (auto simp: reta_shape_def RETA_CONF_SIZE_def RETA_GROUP_SIZE_def)
  then show ?thesis by (simp add: reta_set_def reta_put_def RETA_GROUP_SIZE_def)
qed

lemma reta_fill_ok: "reta_shape conf \<Longrightarrow> n \<le> 512 \<Longrightarrow> reta_fill k step n w conf = Inr (reta_filled k step n w conf)"
proof (induction k step n w conf rule: reta_filled.induct)
  case (1 k step n w conf)
  then show ?case by (subst reta_fill.simps, subst reta_filled.simps) (simp add: reta_set_ok)
qed

lemma update_reta_loop_ok:
  assumes "reta_shape (reta_conf c)" and "reta_size c \<le> 512" and "num_W c \<le> total_cores c"
    and "length (mat_A c) = ts * total_cores c" and "length (new_A c) = ts * total_cores c"
  shows "update_reta_loop c ts = Inr (reta_loop c ts)"
proof -
  let ?P = "\<lambda>(t, conf). reta_shape conf"
  have cell: "update_reta_cell c ts s w x = Inr (reta_cell c ts s w x) \<and> ?P (reta_cell c ts s w x)"
    if "s < ts" "w < total_cores c" "?P x" for s w and x :: "nat \<times> nat list list"
    using that flat_index_less [OF that(1,2)] assms
    by (auto simp: update_reta_cell_def reta_cell_def reta_fill_ok Let_def split: if_splits)
  have row: "outcome_fold (update_reta_cell c ts s) [0..<total_cores c] x = Inr (fold (reta_cell c ts s) [0..<total_cores c] x)
      \<and> ?P (fold (reta_cell c ts s) [0..<total_cores c] x)" if "s < ts" "?P x" for s and x :: "nat \<times> nat list list"
    by (rule outcome_fold_total [where P = ?P]) (use that cell in auto)
  have "outcome_fold (\<lambda>s. outcome_fold (update_reta_cell c ts s) [0..<total_cores c]) [0..<ts] (0, reta_conf c)
      = Inr (fold (\<lambda>s. fold (reta_cell c ts s) [0..<total_cores c]) [0..<ts] (0, reta_conf c))
    \<and> ?P (fold (\<lambda>s. fold (reta_cell c ts s) [0..<total_cores c]) [0..<ts] (0, reta_conf c))"
    by (rule outcome_fold_total [where P = ?P]) (use assms(1) row in auto)
  then show ?thesis by (simp add: update_reta_loop_def reta_loop_def)
qed

lemma update_reta_ok:
  assumes "reta_shape (reta_conf c)" and "reta_size c \<le> 512" and "num_W c \<le> total_cores c"
    and "length (mat_A c) = ts * total_cores c" and "length (new_A c) = ts * total_cores c"
  shows "update_reta ts c = Inr (reta_updated ts c)"
  by (simp add: update_reta_def reta_updated_def update_reta_loop_ok [OF assms] Let_def split: prod.split)

text \<open>All owners are cores with a flag.\<close>

definition owners_flagged :: "nat \<Rightarrow> ('t, 'r) shared \<Rightarrow> bool" where
  "owners_flagged ts sh \<longleftrightarrow> total_shards sh = ts \<and> length (shards sh) = ts \<and> (\<forall>s<ts. owner (shards sh ! s) < length (transfer_shard sh))"

lemma migration_shard_ok:
  assumes "owners_flagged ts sh" and "s < ts"
  shows "migration_shard s w b sh = Inr (migrated_shard s w b sh) \<and> owners_flagged ts (migrated_shard s w b sh)"
  using assms by (auto simp: owners_flagged_def migration_shard_def migrated_shard_def upd_shard_def nth_list_update)

lemma migrate_cells_ok:
  assumes "owners_flagged ts sh" and "length (mat_A c) = ts * total_cores c" and "length (new_A c) = ts * total_cores c"
  shows "migrate_cells b c sh = Inr (migrated_cells b c sh) \<and> owners_flagged ts (migrated_cells b c sh)"
proof -
  let ?f = "\<lambda>s w sh. outcome_bind (becomes_one c s w) (\<lambda>o'. if o' then migration_shard s w b sh else Inr sh)"
  let ?g = "\<lambda>s w sh. if becomes c s w then migrated_shard s w b sh else sh"
  have cell: "?f s w x = Inr (?g s w x) \<and> owners_flagged ts (?g s w x)"
    if "s < ts" "w < total_cores c" "owners_flagged ts x" for s w and x :: "('a, 'b) shared"
    using that flat_index_less [OF that(1,2)] assms(2,3) migration_shard_ok [OF that(3,1)]
    by (auto simp: becomes_one_def becomes_def Let_def)
  have row: "outcome_fold (?f s) [0..<total_cores c] x = Inr (fold (?g s) [0..<total_cores c] x)
      \<and> owners_flagged ts (fold (?g s) [0..<total_cores c] x)" if "s < ts" "owners_flagged ts x" for s and x :: "('a, 'b) shared"
    by (rule outcome_fold_total [where P = "owners_flagged ts"]) (use that cell in auto)
  have ts: "total_shards sh = ts" using assms(1) by (simp add: owners_flagged_def)
  show ?thesis unfolding migrate_cells_def migrated_cells_def ts
    by (rule outcome_fold_total [where P = "owners_flagged ts"]) (use assms(1) row in auto)
qed

lemma update_shards_ok:
  assumes "controller_inv c ts" and "length (new_A c) = ts * total_cores c" and "owners_flagged ts sh"
  shows "update_shards c sh = Inr (shards_updated c sh)"
proof -
  have c: "reta_shape (reta_conf c)" "reta_size c \<le> 512" "num_W c \<le> total_cores c" "length (mat_A c) = ts * total_cores c"
    using assms(1) by (simp_all add: controller_inv_def assign_ok_def)
  note r = update_reta_ok [OF c assms(2)] and m = migrate_cells_ok [OF assms(3) c(4) assms(2), of False]
  have ts: "total_shards sh = ts" using assms(3) by (simp add: owners_flagged_def)
  have "migrate_cells True (reta_updated ts c) (migrated_cells False c sh) = Inr (migrated_cells True (reta_updated ts c) (migrated_cells False c sh))"
    using migrate_cells_ok [of ts "migrated_cells False c sh" "reta_updated ts c" True] m c assms(2) by (simp add: frame_simps)
  then show ?thesis using r m by (simp add: update_shards_def shards_updated_def ts Let_def)
qed

lemma init_assignment_returns:
  assumes "0 < W" and "W \<le> tc" and "n \<le> 512"
  shows "init_assignment W tc ts n = Inr (first_assignment W tc ts n)"
proof -
  let ?P = "\<lambda>(m, conf). length (m :: nat list) = ts * tc \<and> reta_shape conf"
  let ?f = "\<lambda>s (m, conf). outcome_bind (reta_fill s ts n (s mod W) conf) (\<lambda>conf'. check_index (s * tc + s mod W) m (Inr (m[s * tc + s mod W := 1], conf')))"
  let ?g = "\<lambda>s (m, conf). (m[s * tc + s mod W := 1], reta_filled s ts n (s mod W) conf)"
  let ?x = "(replicate (ts * tc) (0 :: nat), replicate RETA_CONF_SIZE (replicate RETA_GROUP_SIZE 0))"
  have "outcome_fold ?f [0..<ts] ?x = Inr (fold ?g [0..<ts] ?x) \<and> ?P (fold ?g [0..<ts] ?x)"
  proof (rule outcome_fold_total [where P = ?P])
    show "?P ?x" by (auto simp: reta_shape_def)
  next
    fix s x assume s: "s \<in> set [0..<ts]" and x: "?P x"
    have "s mod W < tc" using assms(1,2) by (meson mod_less_divisor order_less_le_trans)
    then have "s * tc + s mod W < ts * tc" using s by (intro flat_index_less) simp_all
    then show "?f s x = Inr (?g s x) \<and> ?P (?g s x)" using x assms(3) by (auto simp: reta_fill_ok)
  qed
  then show ?thesis by (simp add: init_assignment_def first_assignment_def)
qed

end
