(* ===== verification/Controller_Init.thy ===== *)
theory Controller_Init
  imports Assignment
begin

text \<open>
  The controller's start-up: \<open>configure\<close>, \<open>init_dpdk\<close>, \<open>init_shards\<close> and \<open>init_queues\<close>, with
  every early exit as a value of \<open>outcome\<close>, and the properties of the shard assignment from
  start-up through any sequence of updates.

  What the NIC and DPDK answer during start-up is the record \<open>dpdk_env\<close>; what Click's argument
  parser read is the record \<open>config\<close>.
\<close>

record dpdk_env =
  dev_reta_size :: nat
  mempool_created :: bool
  configure_ret :: int
  rx_queue_ret :: "nat \<Rightarrow> int"
  tx_queue_ret :: "nat \<Rightarrow> int"
  dev_start_ret :: int

record config =
  args_complete :: int
  arg_SHARDS :: nat
  arg_SFC_LENGTH :: nat
  arg_W :: nat
  arg_E :: nat
  arg_SLOr :: double
  arg_SLOp :: double
  arg_SOLVER :: bool

subsection \<open>Shards and queues\<close>

text \<open>
  A shard after \<open>rte_zmalloc\<close> and the body of the loop of \<open>init_shards\<close>. The members the loop
  does not assign keep the zero of the allocation: \<open>owner_new\<close> is one of them.
\<close>

definition init_shard :: "'t table_ops \<Rightarrow> 'r ring_ops \<Rightarrow> nat \<Rightarrow> nat \<Rightarrow> ('t, 'r) ShardInfo" where
  "init_shard T R W i = \<lparr>shard_r = 0, shard_V = 0, use_2 = False, shard_bytes = 0, shard_packets = 0,
     old_bytes = 0, old_packets = 0, pause = 0, ref_count_1 = 0, ref_count_2 = 0, ordered_flows = [],
     r_new = 0, owner = i mod W, owner_new = 0, table = table_new T,
     local_queue = ring_create R (2 * 1024), flows3 = table_new T, flows3_2 = table_new T\<rparr>"

definition init_shards :: "'t table_ops \<Rightarrow> 'r ring_ops \<Rightarrow> nat \<Rightarrow> ('t, 'r) shared \<Rightarrow> ('t, 'r) shared" where
  "init_shards T R W sh = sh\<lparr>shards := map (init_shard T R W) [0..<total_shards sh]\<rparr>"

text \<open>
  \<open>init_queues\<close>: the control rings of the offloading cores, then for each working core its two
  packet rings, the second of which is handed to offloading core \<open>i % E\<close>. Allocations succeed: the code
  tests the result of neither \<open>rte_ring_create\<close> nor \<open>rte_zmalloc\<close>.
\<close>

definition init_queues :: "'r ring_ops \<Rightarrow> nat \<Rightarrow> nat \<Rightarrow> ('t, 'r) shared \<Rightarrow> ('t, 'r) shared" where
  "init_queues R W E sh =
     (let sh1 = fold (\<lambda>i sh. set_ring (ToRemove i) (ring_create R 4096)
                  (set_ring (ToAdd i) (ring_create R 4096) sh)) [0..<E]
                (sh\<lparr>toAddQueue := map ToAdd [0..<E], toRemoveQueue := map ToRemove [0..<E]\<rparr>)
      in fold (\<lambda>i sh.
           let sh' = set_ring (QueueOf i) (ring_create R 4096) (set_ring (RingOf i) (ring_create R 4096) sh)
           in if E \<noteq> 0 then enqueue_at R (ToAdd (i mod E)) (PRing (QueueOf i)) sh' else sh') [0..<W]
         (sh1\<lparr>rings := map RingOf [0..<W], queues := map QueueOf [0..<W]\<rparr>))"

subsection \<open>The device\<close>

text \<open>The loop that fills \<open>O\<close> and the two offloading arrays: worker \<open>j\<close> offloads to \<open>j % E\<close>.\<close>

definition init_relationship ::
    "nat \<Rightarrow> nat \<Rightarrow> nat \<Rightarrow> nat list \<times> nat list \<times> nat list \<Rightarrow> (nat list \<times> nat list \<times> nat list) outcome" where
  "init_relationship W E tc =
     outcome_fold (\<lambda>j (m, off, new). check_index j off (check_index j new (
       if E \<noteq> 0 then check_index ((j mod E) * tc + j) m (Inr (m[(j mod E) * tc + j := 1], off[j := j mod E], new[j := UINT32_MAX]))
       else Inr (m, off[j := UINT32_MAX], new[j := UINT32_MAX])))) [0..<W]"

text \<open>The same without checks.\<close>

definition first_relationship ::
    "nat \<Rightarrow> nat \<Rightarrow> nat \<Rightarrow> nat list \<times> nat list \<times> nat list \<Rightarrow> nat list \<times> nat list \<times> nat list" where
  "first_relationship W E tc =
     fold (\<lambda>j (m, off, new).
       if E \<noteq> 0 then (m[(j mod E) * tc + j := 1], off[j := j mod E], new[j := UINT32_MAX])
       else (m, off[j := UINT32_MAX], new[j := UINT32_MAX])) [0..<W]"

lemma init_relationship_pure: "init_relationship W E tc x = Inr y \<Longrightarrow> y = first_relationship W E tc x"
  unfolding init_relationship_def first_relationship_def
  by (erule outcome_fold_pure [rotated]) (auto simp: check_index_Inr split: prod.splits if_splits)

lemma init_relationship_returns:
  assumes "W \<le> tc" and "length m = tc * tc" and "length off = tc" and "length new = tc"
  shows "init_relationship W E tc (m, off, new) = Inr (first_relationship W E tc (m, off, new))"
proof -
  let ?P = "\<lambda>(m, off, new). length (m :: nat list) = tc * tc \<and> length (off :: nat list) = tc \<and> length (new :: nat list) = tc"
  have "j mod E * tc + j < tc * tc" if "j < W" for j
    using that assms(1) by (intro flat_index_less) (auto intro: order_le_less_trans [OF mod_less_eq_dividend])
  then show ?thesis unfolding init_relationship_def first_relationship_def
    by (intro conjunct1 [OF outcome_fold_total [where P = ?P]]) (use assms in \<open>auto split: if_splits\<close>)
qed

text \<open>
  \<open>init_dpdk\<close>: the calls whose results it looks at. What \<open>rte_eth_dev_rss_reta_update\<close> and
  \<open>rte_eth_promiscuous_enable\<close> return is ignored by the code. The table \<open>reta_conf\<close> has \<open>RETA_CONF_SIZE\<close> groups: a device that reports more
  entries makes the loop that sets the masks run past it.
\<close>

definition init_dpdk :: "dpdk_env \<Rightarrow> controller \<Rightarrow> ('t, 'r) shared \<Rightarrow> (controller \<times> ('t, 'r) shared) outcome" where
  "init_dpdk env c sh =
     (let W = num_W c; E = num_E c; tc = total_cores c; ts = total_shards sh; n = dev_reta_size env
      in if \<not> mempool_created env then Inl (Exit ''Cannot init mbuf pool'')
         else if configure_ret env < 0 then Inl (Exit ''Cannot initialize DPDK port'')
         else if list_ex (\<lambda>i. rx_queue_ret env i \<noteq> 0) [0..<iqueues sh] then Inl (Exit ''Cannot initialize RX queue'')
         else if list_ex (\<lambda>i. tx_queue_ret env i \<noteq> 0) [0..<W + E] then Inl (Exit ''Cannot initialize TX queue'')
         else if dev_start_ret env < 0 then Inl (Exit ''Cannot start DPDK port'')
         else if n > RETA_CONF_SIZE * RETA_GROUP_SIZE then Inl OutOfBounds
         else if W = 0 \<and> ts \<noteq> 0 then Inl DivisionByZero
         else outcome_bind (init_assignment W tc ts n) (\<lambda>(A, conf).
              outcome_bind (init_relationship W E tc
                    (replicate (tc * tc) 0, offloading_from_working sh, new_offloading_from_working sh)) (\<lambda>(O', off, new).
              Inr (c\<lparr>reta_size := n, reta_conf := conf, mat_A := A, mat_O := O', new_A := A, new_O := O',
                        reta_updates := conf # reta_updates c\<rparr>,
                      sh\<lparr>offloading_from_working := off, new_offloading_from_working := new\<rparr>))))"

subsection \<open>configure\<close>

text \<open>
  The constructor and \<open>configure\<close>. All per-core arrays have \<open>W + E\<close> entries, zeroed. The FIFO the
  solver answers on is created here too; the file system is not modelled.
\<close>

definition configured_controller :: "config \<Rightarrow> controller" where
  "configured_controller cfg = \<lparr>num_W = arg_W cfg, num_E = arg_E cfg, total_cores = arg_W cfg + arg_E cfg,
     mat_A = [], mat_O = [], new_A = [], new_O = [], reta_size = 0, reta_conf = [], reta_updates = [],
     next_short = 0, total_flows = 0, total_bytes = 0, total_packets = 0, last_totalpackets = 0,
     Tr = rnd (1 / 10 ^ 6), Tp = rnd (1 / 10 ^ 6),
     slo = \<lparr>Cap = rnd (914 / 10 ^ 4), Csp = rnd (1166 / 10 ^ 4), SLOp = dmul (arg_SLOp cfg) (rnd (1 / 10 ^ 9)),
            Car = rnd (966 / 10 ^ 4), Csr = rnd (1202 / 10 ^ 4), SLOr = dmul (arg_SLOr cfg) (rnd (1 / 10 ^ 9))\<rparr>,
     use_solver = arg_SOLVER cfg\<rparr>"

definition configured_shared :: "config \<Rightarrow> (ring_ptr \<Rightarrow> 'r) \<Rightarrow> (addr \<Rightarrow> DyssectState) \<Rightarrow> ('t, 'r) shared" where
  "configured_shared cfg mem states = (let z = replicate (arg_W cfg + arg_E cfg) 0 in
     \<lparr>iqueues = arg_W cfg, sfc_length = arg_SFC_LENGTH cfg, total_shards = arg_SHARDS cfg, shards = [],
      epoch = 0, had_changes = z, transfer_r = z, transfer_shard = z, transfer_offloading = z,
      controller_signal = z, offloading_from_working = z, new_offloading_from_working = z,
      rings = [], queues = [], toAddQueue = [], toRemoveQueue = [], ring_at = mem, state_at = states,
      slots_at = (\<lambda>_. []), heap_top = 1\<rparr>)"

definition configure :: "'t table_ops \<Rightarrow> 'r ring_ops \<Rightarrow> dpdk_env \<Rightarrow> config
    \<Rightarrow> (ring_ptr \<Rightarrow> 'r) \<Rightarrow> (addr \<Rightarrow> DyssectState) \<Rightarrow> (controller \<times> ('t, 'r) shared) outcome" where
  "configure T R env cfg mem states =
     (if args_complete cfg < 0 then Inl (ReturnError (-1))
      else outcome_bind (init_dpdk env (configured_controller cfg) (configured_shared cfg mem states))
        (\<lambda>(c, sh). Inr (c, init_queues R (num_W c) (num_E c) (init_shards T R (num_W c) sh))))"

subsection \<open>The state after start-up\<close>

lemma first_relationship_frame:
  assumes "0 < E" and "W + E \<le> tc" and "first_relationship W E tc (m0, off0, new0) = (m, off, new)"
    and m0: "m0 = replicate (tc * tc) 0"
  shows "length m = tc * tc \<and> (\<forall>e<tc. \<forall>w<tc. m ! (e * tc + w) = (if w < W \<and> e = w mod E then 1 else 0))
    \<and> (\<forall>j<W. j < length off0 \<longrightarrow> off ! j = j mod E) \<and> (\<forall>j<W. j < length new0 \<longrightarrow> new ! j = UINT32_MAX)
    \<and> length off = length off0 \<and> length new = length new0"
proof -
  let ?f = "\<lambda>j (m, off, new). if E \<noteq> 0 then (m[(j mod E) * tc + j := 1], off[j := j mod E], new[j := UINT32_MAX])
       else (m, off[j := UINT32_MAX], new[j := UINT32_MAX])"
  let ?P = "\<lambda>i (m, off, new). length m = tc * tc
      \<and> (\<forall>e<tc. \<forall>w<tc. m ! (e * tc + w) = (if w < i \<and> e = w mod E then (1::nat) else 0))
      \<and> (\<forall>j<i. j < length off0 \<longrightarrow> off ! j = j mod E) \<and> (\<forall>j<i. j < length new0 \<longrightarrow> new ! j = UINT32_MAX)
      \<and> length off = length off0 \<and> length new = length new0"
  have "?P W (fold ?f [0..<W] (m0, off0, new0))"
  proof (rule fold_upt_inv [where P = ?P])
    show "?P 0 (m0, off0, new0)" by (auto simp: m0 flat_index_less)
  next
    fix i st assume i: "i < W" and P: "?P i st"
    obtain m off new where st: "st = (m, off, new)" by (cases st)
    have "i < tc" "i mod E < tc" using i assms(1,2) by (auto intro: order_less_le_trans [OF mod_less_divisor])
    then have "m[(i mod E) * tc + i := 1] ! (e * tc + w) = (if w < Suc i \<and> e = w mod E then 1 else 0)"
      if "e < tc" "w < tc" for e w
      using that P flat_index_less [OF that] flat_index_inj [of w tc i e "i mod E"]
      by (auto simp: st nth_update less_Suc_eq)
    then show "?P (Suc i) (?f i st)" using P assms(1) by (auto simp: st nth_update less_Suc_eq)
  qed
  then show ?thesis using assms(3) by (simp add: first_relationship_def)
qed

lemma init_queues_frame:
  "same_but_rings (sh\<lparr>toAddQueue := map ToAdd [0..<E], toRemoveQueue := map ToRemove [0..<E],
      rings := map RingOf [0..<W], queues := map QueueOf [0..<W]\<rparr>) (init_queues R W E sh)"
proof -
  define sh1 where "sh1 = fold (\<lambda>i sh. set_ring (ToRemove i) (ring_create R 4096)
                  (set_ring (ToAdd i) (ring_create R 4096) sh)) [0..<E]
                (sh\<lparr>toAddQueue := map ToAdd [0..<E], toRemoveQueue := map ToRemove [0..<E]\<rparr>)"
  have 1: "same_but_rings (sh\<lparr>toAddQueue := map ToAdd [0..<E], toRemoveQueue := map ToRemove [0..<E]\<rparr>) sh1"
    unfolding sh1_def by (rule fold_keep) simp_all
  define sh2 where "sh2 = sh1\<lparr>rings := map RingOf [0..<W], queues := map QueueOf [0..<W]\<rparr>"
  have "same_but_rings sh2 (init_queues R W E sh)"
    unfolding init_queues_def Let_def sh1_def [symmetric] sh2_def [symmetric]
    by (rule fold_keep) simp_all
  then show ?thesis using 1 by (auto elim!: same_but_ringsE intro: same_but_ringsI simp: sh2_def)
qed

text \<open>The sizes of the shared arrays, and cores and rings in range.\<close>

definition shared_ok :: "nat \<Rightarrow> nat \<Rightarrow> ('t, 'r) shared \<Rightarrow> bool" where
  "shared_ok W E sh \<longleftrightarrow> length (shards sh) = total_shards sh
     \<and> length (had_changes sh) = W + E \<and> length (transfer_r sh) = W + E
     \<and> length (transfer_shard sh) = W + E \<and> length (transfer_offloading sh) = W + E
     \<and> length (controller_signal sh) = W + E \<and> length (offloading_from_working sh) = W + E
     \<and> length (new_offloading_from_working sh) = W + E
     \<and> length (rings sh) = W \<and> length (queues sh) = W
     \<and> length (toAddQueue sh) = E \<and> length (toRemoveQueue sh) = E
     \<and> (\<forall>s<total_shards sh. owner (shards sh ! s) < W
          \<and> (owner_new (shards sh ! s) < W \<or> owner_new (shards sh ! s) = UINT32_MAX))"

lemma same_but_rings_ok: "same_but_rings sh sh' \<Longrightarrow> shared_ok W E sh' \<longleftrightarrow> shared_ok W E sh"
  by (auto elim!: same_but_ringsE simp: shared_ok_def)

lemma configure_success:
  assumes "configure T R env cfg mem st = Inr (c, sh)"
  obtains A conf O' off new where
    "first_assignment (arg_W cfg) (arg_W cfg + arg_E cfg) (arg_SHARDS cfg) (dev_reta_size env) = (A, conf)"
    "first_relationship (arg_W cfg) (arg_E cfg) (arg_W cfg + arg_E cfg)
       (replicate ((arg_W cfg + arg_E cfg) * (arg_W cfg + arg_E cfg)) 0,
        replicate (arg_W cfg + arg_E cfg) 0, replicate (arg_W cfg + arg_E cfg) 0) = (O', off, new)"
    "dev_reta_size env \<le> 512" "arg_W cfg = 0 \<longrightarrow> arg_SHARDS cfg = 0"
    "c = (configured_controller cfg)\<lparr>reta_size := dev_reta_size env, reta_conf := conf, mat_A := A, mat_O := O',
       new_A := A, new_O := O', reta_updates := [conf]\<rparr>"
    "sh = init_queues R (arg_W cfg) (arg_E cfg) (init_shards T R (arg_W cfg)
       ((configured_shared cfg mem st)\<lparr>offloading_from_working := off, new_offloading_from_working := new\<rparr>))"
  using assms
  by (auto simp: configure_def init_dpdk_def configured_controller_def configured_shared_def Let_def
      RETA_CONF_SIZE_def RETA_GROUP_SIZE_def outcome_bind_Inr dest!: init_assignment_pure [THEN sym] init_relationship_pure [THEN sym] split: if_splits prod.splits)

lemma configure_controller_inv:
  assumes "configure T R env cfg mem st = Inr (c, sh)" and "0 < arg_SHARDS cfg"
  shows "controller_inv c (arg_SHARDS cfg) \<and> new_A c = mat_A c \<and> num_W c = arg_W cfg
    \<and> total_cores c = arg_W cfg + arg_E cfg \<and> reta_size c = dev_reta_size env
    \<and> (\<forall>s<arg_SHARDS cfg. assigned (mat_A c) (total_cores c) s = s mod arg_W cfg)"
proof -
  from assms(1) obtain A conf O' off new where
    ia: "first_assignment (arg_W cfg) (arg_W cfg + arg_E cfg) (arg_SHARDS cfg) (dev_reta_size env) = (A, conf)"
    and n: "dev_reta_size env \<le> 512" and W: "arg_W cfg = 0 \<longrightarrow> arg_SHARDS cfg = 0"
    and c: "c = (configured_controller cfg)\<lparr>reta_size := dev_reta_size env, reta_conf := conf, mat_A := A,
      mat_O := O', new_A := A, new_O := O', reta_updates := [conf]\<rparr>"
    by (rule configure_success)
  have "0 < arg_W cfg" "arg_W cfg \<le> arg_W cfg + arg_E cfg" using W assms(2) by auto
  note ok = first_assignment_ok [OF this n ia]
  show ?thesis using ok assms(2) n by (simp add: c configured_controller_def controller_inv_def)
qed

lemma length_first_relationship:
  assumes "first_relationship W E tc (m0, off0, new0) = (m, off, new)"
  shows "length off = length off0 \<and> length new = length new0"
proof -
  have "(\<lambda>(m, off, new). length off = length off0 \<and> length new = length new0)
      (first_relationship W E tc (m0, off0, new0))"
    unfolding first_relationship_def by (rule fold_keep) (auto split: if_splits)
  then show ?thesis by (simp add: assms)
qed

lemma configure_shared_ok:
  assumes "configure T R env cfg mem st = Inr (c, sh)"
  shows "shared_ok (arg_W cfg) (arg_E cfg) sh \<and> total_shards sh = arg_SHARDS cfg"
proof -
  from assms obtain O' off new where
    rel: "first_relationship (arg_W cfg) (arg_E cfg) (arg_W cfg + arg_E cfg)
       (replicate ((arg_W cfg + arg_E cfg) * (arg_W cfg + arg_E cfg)) 0,
        replicate (arg_W cfg + arg_E cfg) 0, replicate (arg_W cfg + arg_E cfg) 0) = (O', off, new)"
    and W: "arg_W cfg = 0 \<longrightarrow> arg_SHARDS cfg = 0"
    and sh: "sh = init_queues R (arg_W cfg) (arg_E cfg) (init_shards T R (arg_W cfg)
       ((configured_shared cfg mem st)\<lparr>offloading_from_working := off, new_offloading_from_working := new\<rparr>))"
    by (rule configure_success)
  have len: "length off = arg_W cfg + arg_E cfg" "length new = arg_W cfg + arg_E cfg"
    using length_first_relationship [OF rel] by simp_all
  let ?sh0 = "init_shards T R (arg_W cfg)
       ((configured_shared cfg mem st)\<lparr>offloading_from_working := off, new_offloading_from_working := new\<rparr>)"
  have "s < arg_SHARDS cfg \<Longrightarrow> s mod arg_W cfg < arg_W cfg" "s < arg_SHARDS cfg \<Longrightarrow> 0 < arg_W cfg" for s
    using W by (cases "arg_W cfg"; simp)+
  then have "shared_ok (arg_W cfg) (arg_E cfg) (?sh0\<lparr>toAddQueue := map ToAdd [0..<arg_E cfg],
      toRemoveQueue := map ToRemove [0..<arg_E cfg], rings := map RingOf [0..<arg_W cfg],
      queues := map QueueOf [0..<arg_W cfg]\<rparr>)"
    using len by (simp add: shared_ok_def init_shards_def init_shard_def configured_shared_def Let_def)
  then show ?thesis
    using same_but_rings_ok [OF init_queues_frame [where sh = ?sh0 and E = "arg_E cfg" and W = "arg_W cfg" and R = R]]
      init_queues_frame [where sh = ?sh0 and E = "arg_E cfg" and W = "arg_W cfg" and R = R]
    by (auto simp: sh init_shards_def configured_shared_def Let_def elim!: same_but_ringsE)
qed

lemma configure_shards:
  assumes "configure T R env cfg mem st = Inr (c, sh)"
  shows "shards sh = map (init_shard T R (arg_W cfg)) [0..<arg_SHARDS cfg]"
proof -
  from assms obtain off new where
    sh: "sh = init_queues R (arg_W cfg) (arg_E cfg) (init_shards T R (arg_W cfg)
       ((configured_shared cfg mem st)\<lparr>offloading_from_working := off, new_offloading_from_working := new\<rparr>))"
    by (rule configure_success)
  show ?thesis
    using init_queues_frame [where E = "arg_E cfg" and W = "arg_W cfg" and R = R and sh = "init_shards T R (arg_W cfg)
       ((configured_shared cfg mem st)\<lparr>offloading_from_working := off, new_offloading_from_working := new\<rparr>)"]
    by (auto simp: sh init_shards_def configured_shared_def Let_def elim!: same_but_ringsE)
qed

subsection \<open>The assignment through any sequence of updates\<close>

text \<open>
  The solver's answers one after another: each new matrix is stored in \<open>newA\<close>, as
  \<open>run_short_solver\<close> does, and applied.
\<close>

definition apply_answer :: "nat list \<Rightarrow> controller \<times> ('t, 'r) shared \<Rightarrow> (controller \<times> ('t, 'r) shared) outcome" where
  "apply_answer m = (\<lambda>(c, sh). outcome_bind (update_shards (c\<lparr>new_A := m\<rparr>) sh) (\<lambda>(b, r). Inr r))"

definition apply_answers :: "nat list list \<Rightarrow> controller \<times> ('t, 'r) shared \<Rightarrow> (controller \<times> ('t, 'r) shared) outcome" where
  "apply_answers ms = outcome_fold apply_answer ms"

lemma shared_ok_flagged: "shared_ok W E sh \<Longrightarrow> owners_flagged (total_shards sh) sh"
  by (auto simp: shared_ok_def owners_flagged_def)

lemma apply_answer_inv:
  assumes "controller_inv c (total_shards sh)" and "assign_ok (num_W c) (total_cores c) (total_shards sh) m"
    and "shared_ok (num_W c) (num_E c) sh"
  shows "\<exists>c' sh'. apply_answer m (c, sh) = Inr (c', sh') \<and> controller_inv c' (total_shards sh') \<and> mat_A c' = m \<and> shared_ok (num_W c') (num_E c') sh'
    \<and> num_W c' = num_W c \<and> num_E c' = num_E c \<and> total_cores c' = total_cores c
    \<and> reta_size c' = reta_size c \<and> total_shards sh' = total_shards sh"
proof -
  let ?c = "c\<lparr>new_A := m\<rparr>"
  have inv: "controller_inv ?c (total_shards sh)" using assms(1) by (simp add: controller_inv_def)
  obtain r c' sh' where u: "shards_updated ?c sh = (r, c', sh')" by (cases "shards_updated ?c sh")
  have "length (new_A ?c) = total_shards sh * total_cores ?c" using assms(2) by (simp add: assign_ok_def)
  from update_shards_ok [OF inv this shared_ok_flagged [OF assms(3)]] u
  have ap: "apply_answer m (c, sh) = Inr (c', sh')" by (simp add: apply_answer_def)
  have 1: "controller_inv c' (total_shards sh)" "mat_A c' = m"
    using shards_updated_inv [OF inv _ u] assms(2) by auto
  have a: "assigns ?c (total_shards sh)" using inv assms(2) by (simp add: assigns_def controller_inv_def)
  have new_core: "s < total_shards sh \<Longrightarrow> new_core ?c s < num_W c" for s
    using assign_ok_less [OF assms(2)] by simp
  show ?thesis
  proof (cases "m = mat_A c")
    case True
    then show ?thesis using ap 1 u assms(3) by (auto simp: shards_updated_def)
  next
    case False
    have len: "length (shards sh) = total_shards sh" using assms(3) by (simp add: shared_ok_def)
    have sh1: "migrated_cells False ?c sh = sh\<lparr>shards := map (announce ?c sh) [0..<total_shards sh]\<rparr>"
      using a len by (rule migrate_announce)
    then have sh': "\<exists>ts. sh' = sh\<lparr>shards := map (announce ?c sh) [0..<total_shards sh], transfer_shard := ts\<rparr>
        \<and> length ts = length (transfer_shard sh)"
      using u False a
      by (auto simp: shards_updated_def Let_def migrated_cells_c migrate_signal)
    have "c' = (reta_updated (total_shards sh) ?c)\<lparr>mat_A := m\<rparr>"
      using u False by (auto simp: shards_updated_def Let_def frame_simps)
    moreover have "\<forall>s<total_shards sh. owner (announce ?c sh s) < num_W c
        \<and> (owner_new (announce ?c sh s) < num_W c \<or> owner_new (announce ?c sh s) = UINT32_MAX)"
      using new_core assms(3) by (simp add: shared_ok_def announce_def)
    ultimately show ?thesis using ap 1 sh' assms(3) by (auto simp: shared_ok_def frame_simps)
  qed
qed

lemma apply_answers_inv:
  assumes "controller_inv c (total_shards sh)" and "shared_ok (num_W c) (num_E c) sh"
    and "\<forall>m\<in>set ms. assign_ok (num_W c) (total_cores c) (total_shards sh) m"
  shows "\<exists>c' sh'. apply_answers ms (c, sh) = Inr (c', sh') \<and> controller_inv c' (total_shards sh') \<and> mat_A c' = last (mat_A c # ms)
    \<and> shared_ok (num_W c') (num_E c') sh' \<and> num_W c' = num_W c \<and> num_E c' = num_E c \<and> total_cores c' = total_cores c
    \<and> reta_size c' = reta_size c \<and> total_shards sh' = total_shards sh"
  using assms
proof (induction ms arbitrary: c sh)
  case Nil
  then show ?case by (simp add: apply_answers_def)
next
  case (Cons m ms)
  obtain c1 sh1 where 1: "apply_answer m (c, sh) = Inr (c1, sh1)" and step: "controller_inv c1 (total_shards sh1)" "mat_A c1 = m"
    "shared_ok (num_W c1) (num_E c1) sh1" "num_W c1 = num_W c" "num_E c1 = num_E c" "total_cores c1 = total_cores c"
    "reta_size c1 = reta_size c" "total_shards sh1 = total_shards sh"
    using apply_answer_inv [OF Cons.prems(1) _ Cons.prems(2), of m] Cons.prems(3) by auto
  then show ?case using Cons.IH [OF step(1,3)] Cons.prems(3) by (auto simp: apply_answers_def)
qed

subsection \<open>A small system for the examples\<close>

definition ex_env :: "nat \<Rightarrow> dpdk_env" where
  "ex_env n = \<lparr>dev_reta_size = n, mempool_created = True, configure_ret = 0, rx_queue_ret = (\<lambda>_. 0),
     tx_queue_ret = (\<lambda>_. 0), dev_start_ret = 0\<rparr>"

definition ex_config :: "nat \<Rightarrow> nat \<Rightarrow> nat \<Rightarrow> config" where
  "ex_config S W E = \<lparr>args_complete = 0, arg_SHARDS = S, arg_SFC_LENGTH = 2, arg_W = W, arg_E = E,
     arg_SLOr = 1000, arg_SLOp = 1000, arg_SOLVER = True\<rparr>"

abbreviation ex_configure :: "nat \<Rightarrow> nat \<Rightarrow> nat \<Rightarrow> nat \<Rightarrow> (controller \<times> (list_table, list_ring) shared) outcome" where
  "ex_configure n S W E \<equiv>
     configure list_table_ops list_ring_ops (ex_env n) (ex_config S W E) (\<lambda>_. ([], 0)) (\<lambda>_. zero_state)"

definition ex_flow :: "u32 \<Rightarrow> DyssectFlow" where
  "ex_flow h = \<lparr>src_port = 1, dst_port = 2, src_addr = 3, dst_addr = 4, hash_value = h\<rparr>"

lemma init_dpdk_loops:
  assumes "W \<noteq> 0 \<or> ts = 0" and "n \<le> 512"
  shows "\<exists>A conf. init_assignment W (W + E) ts n = Inr (A, conf)"
    and "\<exists>O' off new. init_relationship W E (W + E) (replicate ((W + E) * (W + E)) 0, replicate (W + E) 0, replicate (W + E) 0) = Inr (O', off, new)"
proof -
  show "\<exists>A conf. init_assignment W (W + E) ts n = Inr (A, conf)"
  proof (cases "W = 0")
    case True
    then show ?thesis using assms(1) by (simp add: init_assignment_def)
  next
    case False
    then show ?thesis using init_assignment_returns [of W "W + E" n ts] assms(2) by (cases "first_assignment W (W + E) ts n") simp
  qed
  show "\<exists>O' off new. init_relationship W E (W + E) (replicate ((W + E) * (W + E)) 0, replicate (W + E) 0, replicate (W + E) 0) = Inr (O', off, new)"
    by (subst init_relationship_returns) (simp_all, metis prod_cases3)
qed

lemma configure_returns:
  "(\<exists>c sh. configure T R env cfg mem st = Inr (c, sh)) \<longleftrightarrow>
     0 \<le> args_complete cfg \<and> mempool_created env \<and> 0 \<le> configure_ret env
     \<and> (\<forall>i<arg_W cfg. rx_queue_ret env i = 0) \<and> (\<forall>i<arg_W cfg + arg_E cfg. tx_queue_ret env i = 0)
     \<and> 0 \<le> dev_start_ret env \<and> dev_reta_size env \<le> 512 \<and> (arg_W cfg = 0 \<longrightarrow> arg_SHARDS cfg = 0)"
  (is "?l \<longleftrightarrow> ?r")
proof
  show "?l \<Longrightarrow> ?r"
    by (auto simp: configure_def init_dpdk_def configured_controller_def configured_shared_def Let_def
      list_ex_iff RETA_CONF_SIZE_def RETA_GROUP_SIZE_def split: if_splits)
next
  assume r: ?r
  then show ?l using init_dpdk_loops [of "arg_W cfg" "arg_SHARDS cfg" "dev_reta_size env" "arg_E cfg"]
    by (auto simp: configure_def init_dpdk_def configured_controller_def configured_shared_def Let_def
      list_ex_iff RETA_CONF_SIZE_def RETA_GROUP_SIZE_def)
qed

lemma ex_configure_ok:
  assumes "n \<le> 512" and "0 < W"
  shows "\<exists>c sh. ex_configure n S W E = Inr (c, sh)"
  using assms by (simp add: configure_returns ex_env_def ex_config_def)

subsection \<open>Properties of start-up and of the assignment\<close>



text \<open>
  C3: from start-up through any sequence of valid solver answers, every answer is taken up without an access out
  of range and the NIC's redirection table sends every flow to the working core that the current matrix
  assigns to the flow's shard, provided the number of shards divides the size of the table.
\<close>

theorem dispatch_follows_assignment:
  assumes "configure T R env cfg mem st = Inr (c0, sh0)"
    and "0 < arg_SHARDS cfg" and "arg_SHARDS cfg dvd dev_reta_size env" and "0 < dev_reta_size env"
    and "\<forall>m\<in>set ms. assign_ok (arg_W cfg) (arg_W cfg + arg_E cfg) (arg_SHARDS cfg) m"
  shows "\<exists>c sh. apply_answers ms (c0, sh0) = Inr (c, sh) \<and> mat_A c = last (mat_A c0 # ms) \<and>
    (\<forall>f. reta_get (hd (reta_updates c)) (unat (hash_value f) mod dev_reta_size env)
      = assigned (mat_A c) (arg_W cfg + arg_E cfg) (shard_of (arg_SHARDS cfg) f))"
proof -
  have c0: "controller_inv c0 (total_shards sh0)" "num_W c0 = arg_W cfg" "total_cores c0 = arg_W cfg + arg_E cfg"
    and n: "reta_size c0 = dev_reta_size env" and ts: "total_shards sh0 = arg_SHARDS cfg"
    using configure_controller_inv [OF assms(1,2)] configure_shared_ok [OF assms(1)] by auto
  have "num_E c0 = arg_E cfg"
    using assms(1) by (rule configure_success) (simp add: configured_controller_def)
  then have "shared_ok (num_W c0) (num_E c0) sh0" using configure_shared_ok [OF assms(1)] c0 by simp
  from apply_answers_inv [OF c0(1) this, of ms] assms(5) c0 n ts obtain c sh where
    ap: "apply_answers ms (c0, sh0) = Inr (c, sh)" and
    inv: "controller_inv c (arg_SHARDS cfg)" "total_cores c = arg_W cfg + arg_E cfg" "reta_size c = dev_reta_size env" "mat_A c = last (mat_A c0 # ms)"
    by auto
  from inv have "reta_get (hd (reta_updates c)) k = assigned (mat_A c) (arg_W cfg + arg_E cfg) (k mod arg_SHARDS cfg)"
    if "k < dev_reta_size env" for k using that by (simp add: controller_inv_def reta_agrees_def)
  then show ?thesis using ap inv(4) assms(3,4) by (simp add: shard_of_def mod_mod_cancel)
qed

theorem dispatch_follows_assignment_witness:
  "\<exists>c0 sh0 c sh. ex_configure 8 4 2 1 = Inr (c0, sh0) \<and>
     apply_answers [[0,1,0, 1,0,0, 1,0,0, 0,1,0]] (c0, sh0) = Inr (c, sh) \<and>
     reta_get (hd (reta_updates c)) (unat (hash_value (ex_flow 6)) mod 8) = 0"
proof -
  obtain c0 sh0 where conf: "ex_configure 8 4 2 1 = Inr (c0, sh0)"
    using ex_configure_ok [of 8 2 4 1] by auto
  let ?m = "[0,1,0, 1,0,0, 1,0,0, 0,1,0] :: nat list"
  have m: "assign_ok 2 3 4 ?m" by code_simp
  have as: "assigned ?m 3 2 = 0" by code_simp
  from dispatch_follows_assignment [OF conf, of "[?m]"] m obtain c sh where ap: "apply_answers [?m] (c0, sh0) = Inr (c, sh)"
    and c: "mat_A c = ?m" "reta_get (hd (reta_updates c)) (unat (hash_value (ex_flow 6)) mod 8) = assigned (mat_A c) 3 (shard_of 4 (ex_flow 6))"
    by (auto simp: ex_config_def ex_env_def)
  then show ?thesis using conf as by (auto simp: shard_of_def ex_flow_def)
qed

text \<open>
  C17: an update announces exactly the migrations it must: a shard whose core changes, and whose
  owner is not already the new core, gets the new core as \<open>owner_new\<close> and is paused, its owner is
  told to hand shards over, and nothing else in the shared state changes.
\<close>

theorem migration_announced:
  assumes "controller_inv c (total_shards sh)" and "shared_ok (num_W c) (num_E c) sh"
    and "assign_ok (num_W c) (total_cores c) (total_shards sh) (new_A c)"
  shows "\<exists>r c' sh'. update_shards c sh = Inr (r, c', sh') \<and> (r \<longleftrightarrow> new_A c \<noteq> mat_A c)
    \<and> shards sh' = map (\<lambda>s. if moved c s \<and> owner (shards sh ! s) \<noteq> new_core c s
         then (shards sh ! s)\<lparr>owner_new := new_core c s, pause := 1\<rparr> else shards sh ! s) [0..<total_shards sh]
    \<and> transfer_shard sh' = map (\<lambda>k. if \<exists>s. s < total_shards sh \<and> moved c s
         \<and> owner (shards sh ! s) \<noteq> new_core c s \<and> owner (shards sh ! s) = k
         then 1 else transfer_shard sh ! k) [0..<length (transfer_shard sh)]
    \<and> sh'\<lparr>shards := shards sh, transfer_shard := transfer_shard sh\<rparr> = sh"
proof -
  have len: "length (shards sh) = total_shards sh" using assms(2) by (simp add: shared_ok_def)
  have "length (new_A c) = total_shards sh * total_cores c" using assms(3) by (simp add: assign_ok_def)
  note up = update_shards_ok [OF assms(1) this shared_ok_flagged [OF assms(2)]]
  show ?thesis
  proof (cases "new_A c = mat_A c")
    case True
    then have "update_shards c sh = Inr (False, c, sh)" using up by (simp add: shards_updated_def)
    then show ?thesis using True len map_nth [of "shards sh"] map_nth [of "transfer_shard sh"]
      by (auto simp: moved_def)
  next
    case False
    have a: "assigns c (total_shards sh)" using assms(1,3) by (simp add: assigns_def controller_inv_def)
    let ?sh1 = "sh\<lparr>shards := map (announce c sh) [0..<total_shards sh]\<rparr>"
    let ?sh2 = "?sh1\<lparr>transfer_shard := map (\<lambda>k. if \<exists>s. migrating c sh s \<and> owner (shards sh ! s) = k
        then 1 else transfer_shard sh ! k) [0..<length (transfer_shard sh)]\<rparr>"
    have sh1: "migrated_cells False c sh = ?sh1" using a len by (rule migrate_announce)
    have mig: "migrating c ?sh1 s = migrating c sh s" "migrating c sh s \<Longrightarrow> owner (shards ?sh1 ! s) = owner (shards sh ! s)" for s
      by (auto simp: migrating_def announce_def)
    have "(\<exists>s. migrating c ?sh1 s \<and> owner (shards ?sh1 ! s) = k) \<longleftrightarrow> (\<exists>s. migrating c sh s \<and> owner (shards sh ! s) = k)" for k
      using mig by metis
    then have sh2: "migrated_cells True (reta_updated (total_shards sh) c) ?sh1 = ?sh2" using a
      by (simp add: migrated_cells_c migrate_signal cong: if_cong)
    show ?thesis using up False sh1 sh2 by (auto simp: shards_updated_def Let_def announce_def migrating_def conj_assoc)
  qed
qed

theorem migration_announced_witness:
  "\<exists>c sh r c' sh'. ex_configure 8 4 2 1 = Inr (c, sh) \<and>
     update_shards (c\<lparr>new_A := [0,1,0, 1,0,0, 1,0,0, 0,1,0]\<rparr>) sh = Inr (r, c', sh') \<and> r \<and>
     owner_new (shards sh' ! 1) = 0 \<and> pause (shards sh' ! 1) = 1 \<and> pause (shards sh' ! 2) = 0 \<and>
     transfer_shard sh' ! 0 = 1 \<and> transfer_shard sh' ! 1 = 1"
proof -
  let ?m = "[0,1,0, 1,0,0, 1,0,0, 0,1,0] :: nat list"
  obtain c sh where conf: "ex_configure 8 4 2 1 = Inr (c, sh)" using ex_configure_ok [of 8 2 4 1] by auto
  let ?c = "c\<lparr>new_A := ?m\<rparr>"
  have c: "controller_inv c 4" "num_W c = 2" "total_cores c = 3"
      "\<forall>s<4. assigned (mat_A c) 3 s = s mod 2" and sh: "total_shards sh = 4" "length (shards sh) = 4"
      "length (transfer_shard sh) = 3"
    using configure_controller_inv [OF conf] configure_shared_ok [OF conf] by (auto simp: ex_config_def shared_ok_def)
  have shards: "shards sh ! s = init_shard list_table_ops list_ring_ops 2 s" if "s < 4" for s
    using configure_shards [OF conf] that by (simp add: ex_config_def)
  have m: "assign_ok 2 3 4 ?m" by code_simp
  have as: "assigned ?m 3 0 = 1" "assigned ?m 3 1 = 0" "assigned ?m 3 2 = 0" "assigned ?m 3 3 = 1" by code_simp+
  have inv: "controller_inv ?c (total_shards sh)" using c sh by (simp add: controller_inv_def)
  have moved: "moved ?c s \<longleftrightarrow> s < 2" if "s < 4" for s
  proof -
    from that consider "s = 0" | "s = 1" | "s = 2" | "s = 3" by linarith
    then show ?thesis using c as by cases (auto simp: moved_def)
  qed
  have owner: "owner (shards sh ! s) = s mod 2" "pause (shards sh ! s) = 0" if "s < 4" for s
    using shards [OF that] by (simp_all add: init_shard_def)
  have "num_E c = 1" using conf by (rule configure_success) (simp add: ex_config_def configured_controller_def)
  then have "shared_ok (num_W ?c) (num_E ?c) sh"
    using configure_shared_ok [OF conf] c by (simp add: ex_config_def)
  from migration_announced [OF inv this] m c sh obtain r c' sh' where up: "update_shards ?c sh = Inr (r, c', sh')" and
    up_all: "(r \<longleftrightarrow> new_A ?c \<noteq> mat_A ?c)
    \<and> shards sh' = map (\<lambda>s. if moved ?c s \<and> owner (shards sh ! s) \<noteq> new_core ?c s
         then (shards sh ! s)\<lparr>owner_new := new_core ?c s, pause := 1\<rparr> else shards sh ! s) [0..<total_shards sh]
    \<and> transfer_shard sh' = map (\<lambda>k. if \<exists>s. s < total_shards sh \<and> moved ?c s
         \<and> owner (shards sh ! s) \<noteq> new_core ?c s \<and> owner (shards sh ! s) = k
         then 1 else transfer_shard sh ! k) [0..<length (transfer_shard sh)]
    \<and> sh'\<lparr>shards := shards sh, transfer_shard := transfer_shard sh\<rparr> = sh" by auto
  have neq: "new_A ?c \<noteq> mat_A ?c" using moved [of 0] by (auto simp: moved_def)
  have new: "new_core ?c s = 1 - s" if "s < 2" for s
    using that c as by (auto simp: less_2_cases_iff)
  have sig: "(\<exists>s. s < total_shards sh \<and> moved ?c s \<and> owner (shards sh ! s) \<noteq> new_core ?c s
      \<and> owner (shards sh ! s) = k) \<longleftrightarrow> k < 2" for k
  proof
    assume "k < 2"
    then show "\<exists>s. s < total_shards sh \<and> moved ?c s \<and> owner (shards sh ! s) \<noteq> new_core ?c s
      \<and> owner (shards sh ! s) = k"
      using sh moved owner new by (intro exI [of _ k]) (auto simp: less_2_cases_iff)
  qed (use sh moved owner in auto)
  have sh': "shards sh' ! s = (if moved ?c s \<and> owner (shards sh ! s) \<noteq> new_core ?c s
         then (shards sh ! s)\<lparr>owner_new := new_core ?c s, pause := 1\<rparr> else shards sh ! s)" if "s < 4" for s
    using up_all that sh by simp
  have ts: "transfer_shard sh' ! k = (if k < 2 then 1 else transfer_shard sh ! k)" if "k < 3" for k
    using up_all sig that sh by simp
  have "owner_new (shards sh' ! 1) = 0" "pause (shards sh' ! 1) = 1" "pause (shards sh' ! 2) = 0"
    using sh' [of 1] sh' [of 2] moved [of 1] moved [of 2] owner [of 1] owner [of 2] new [of 1] by simp_all
  moreover have "r" "transfer_shard sh' ! 0 = 1" "transfer_shard sh' ! 1 = 1"
    using up_all neq ts [of 0] ts [of 1] by simp_all
  ultimately show ?thesis using conf up by blast
qed

text \<open>
  C18: \<open>update_reta\<close> counts each moved shard twice and halves the count, so it programs the NIC
  exactly when some shard changes its core.
\<close>

theorem nic_updated_iff_shard_moves:
  assumes "controller_inv c ts" and "assign_ok (num_W c) (total_cores c) ts (new_A c)"
  shows "\<exists>transfers conf c'. update_reta_loop c ts = Inr (transfers, conf) \<and> transfers div 2 = card {s. s < ts \<and> moved c s}
    \<and> update_reta ts c = Inr c' \<and> reta_conf c' = conf
    \<and> reta_updates c' = (if {s. s < ts \<and> moved c s} = {} then reta_updates c else conf # reta_updates c)"
proof -
  have a: "assigns c ts" using assms by (simp add: assigns_def controller_inv_def)
  have sh: "reta_shape (reta_conf c)" "reta_size c \<le> 512" "0 < ts" using assms(1) by (simp_all add: controller_inv_def)
  have l: "num_W c \<le> total_cores c" "length (mat_A c) = ts * total_cores c" "length (new_A c) = ts * total_cores c"
    using assms by (simp_all add: controller_inv_def assign_ok_def)
  have "moves c ts = card (set (filter (moved c) [0..<ts]))" 
    unfolding moves_def by (rule distinct_card [symmetric]) simp
  also have "set (filter (moved c) [0..<ts]) = {s. s < ts \<and> moved c s}" by auto
  finally have m: "moves c ts = card {s. s < ts \<and> moved c s}" .
  have f: "finite {s. s < ts \<and> moved c s}" by simp
  obtain transfers conf where r: "reta_loop c ts = (transfers, conf)" by (cases "reta_loop c ts")
  have conf: "reta_conf (reta_updated ts c) = conf" by (simp add: reta_updated_def r Let_def)
  have "transfers div 2 = card {s. s < ts \<and> moved c s}"
    "reta_updates (reta_updated ts c) = (if {s. s < ts \<and> moved c s} = {} then reta_updates c else conf # reta_updates c)"
    using reta_loop_spec [OF a sh(1,2)] reta_updated_result [OF a sh] m f by (simp_all add: r conf card_eq_0_iff)
  then show ?thesis using update_reta_loop_ok [OF sh(1,2) l] update_reta_ok [OF sh(1,2) l] conf by (simp add: r)
qed

theorem nic_updated_iff_shard_moves_witness:
  "\<exists>c sh c'. ex_configure 8 4 2 1 = Inr (c, sh) \<and>
     update_reta 4 (c\<lparr>new_A := [0,1,0, 0,1,0, 1,0,0, 0,1,0]\<rparr>) = Inr c' \<and> length (reta_updates c') = Suc (length (reta_updates c))"
proof -
  let ?m = "[0,1,0, 0,1,0, 1,0,0, 0,1,0] :: nat list"
  obtain c sh where conf: "ex_configure 8 4 2 1 = Inr (c, sh)" using ex_configure_ok [of 8 2 4 1] by auto
  let ?c = "c\<lparr>new_A := ?m\<rparr>"
  have c: "controller_inv c 4" "num_W c = 2" "total_cores c = 3" "assigned (mat_A c) 3 0 = 0"
    using configure_controller_inv [OF conf] by (auto simp: ex_config_def)
  have "assign_ok 2 3 4 ?m" "assigned ?m 3 0 = 1" by code_simp+
  then have "controller_inv ?c 4" "assign_ok (num_W ?c) (total_cores ?c) 4 (new_A ?c)" "moved ?c 0"
    using c by (auto simp: controller_inv_def moved_def)
  then have "\<exists>c'. update_reta 4 ?c = Inr c' \<and> length (reta_updates c') = Suc (length (reta_updates c))"
    using nic_updated_iff_shard_moves [of ?c 4] by (auto split: if_splits)
  then show ?thesis using conf by blast
qed

lemma dispatch_arith:
  assumes "0 < S" and "0 < n" and "0 < W" and "n \<le> 512" and "S < 2 ^ 32"
  shows "(\<forall>h<2 ^ 32. h mod n mod S mod W = h mod S mod W) \<longleftrightarrow> S dvd n \<or> W dvd S \<and> W dvd (n :: nat)"
proof
  assume h: "\<forall>h<2 ^ 32. h mod n mod S mod W = h mod S mod W"
  show "S dvd n \<or> W dvd S \<and> W dvd n"
  proof (cases "S dvd n")
    case False
    let ?r = "n mod S"
    have r: "0 < ?r" "?r < S" using False assms(1) by (simp_all add: mod_greater_zero_iff_not_dvd)
    have "n < 2 ^ 32" using assms(4) by simp
    then have "n mod n mod S mod W = ?r mod W" using h by blast
    then have Wr: "W dvd ?r" by (simp add: mod_eq_0_iff_dvd)
    then have "W dvd S \<and> W dvd n"
    proof (cases "S \<le> n")
      case True
      have "S - ?r < n" using r True by linarith
      then have k: "(n + (S - ?r)) mod n = S - ?r" "n + (S - ?r) < 2 ^ 32" using assms(4) by simp_all
      have "n + (S - ?r) = n div S * S + S" using r(2) div_mult_mod_eq [of n S] by linarith
      then have "(n + (S - ?r)) mod S = 0" by simp
      then have "(S - ?r) mod S mod W = 0" using h k by (metis mod_0)
      then have "W dvd S - ?r" using r by (simp add: mod_eq_0_iff_dvd)
      then have "W dvd S - ?r + ?r" using Wr by (rule dvd_add)
      then have "W dvd S" using r(2) by simp
      moreover have "W dvd n div S * S + ?r" using \<open>W dvd S\<close> Wr by (intro dvd_add dvd_mult)
      ultimately show ?thesis by simp
    next
      case n: False
      then have "W dvd n" using Wr by simp
      have "S mod n mod S mod W = 0" using h assms(5) by (metis mod_0 mod_self)
      moreover have "S mod n < S" using n mod_less_divisor [OF assms(2), of S] by linarith
      ultimately have "W dvd S mod n" by (simp add: mod_eq_0_iff_dvd)
      then have "W dvd S" using \<open>W dvd n\<close> by (simp add: dvd_mod_iff)
      then show ?thesis using \<open>W dvd n\<close> by blast
    qed
    then show ?thesis ..
  qed simp
qed (auto simp: mod_mod_cancel)

text \<open>
  C19: which numbers of shards are fit for the redirection table, which \<open>configure\<close> does not check: after
  start-up the NIC sends every hash to the core that owns its shard exactly when the number of shards
  divides the size of the table, or the number of working cores divides both.
\<close>

theorem dispatch_right_iff:
  assumes "configure T R env cfg mem st = Inr (c, sh)" and "0 < arg_SHARDS cfg" and "arg_SHARDS cfg < 2 ^ 32" and "0 < dev_reta_size env"
  shows "(\<forall>h :: u32. reta_get (hd (reta_updates c)) (unat h mod dev_reta_size env) = owner (shards sh ! (unat h mod arg_SHARDS cfg)))
    \<longleftrightarrow> arg_SHARDS cfg dvd dev_reta_size env \<or> arg_W cfg dvd arg_SHARDS cfg \<and> arg_W cfg dvd dev_reta_size env"
proof -
  let ?S = "arg_SHARDS cfg" and ?n = "dev_reta_size env" and ?W = "arg_W cfg"
  have inv: "controller_inv c ?S" "reta_size c = ?n" "\<forall>s<?S. assigned (mat_A c) (total_cores c) s = s mod ?W"
    using configure_controller_inv [OF assms(1,2)] by auto
  then have n: "?n \<le> 512" by (simp add: controller_inv_def)
  have "?W = 0 \<longrightarrow> ?S = 0" using assms(1) by (rule configure_success)
  then have W: "0 < ?W" using assms(2) by simp
  have get: "reta_get (hd (reta_updates c)) (h mod ?n) = h mod ?n mod ?S mod ?W" for h
    using inv assms(2,4) by (simp add: controller_inv_def reta_agrees_def)
  have own: "owner (shards sh ! (h mod ?S)) = h mod ?S mod ?W" for h
    using configure_shards [OF assms(1)] assms(2) by (simp add: init_shard_def)
  have "(\<forall>h :: u32. unat h mod ?n mod ?S mod ?W = unat h mod ?S mod ?W) \<longleftrightarrow> (\<forall>h<2 ^ 32. h mod ?n mod ?S mod ?W = h mod ?S mod ?W)"
  proof
    assume a: "\<forall>h :: u32. unat h mod ?n mod ?S mod ?W = unat h mod ?S mod ?W"
    show "\<forall>h<2 ^ 32. h mod ?n mod ?S mod ?W = h mod ?S mod ?W"
    proof (intro allI impI)
      fix h :: nat assume "h < 2 ^ 32"
      then have "unat (of_nat h :: u32) = h" by (simp add: unat_of_nat take_bit_eq_mod)
      then show "h mod ?n mod ?S mod ?W = h mod ?S mod ?W" using a by metis
    qed
  next
    assume a: "\<forall>h<2 ^ 32. h mod ?n mod ?S mod ?W = h mod ?S mod ?W"
    have "unat h < 2 ^ 32" for h :: u32 using unsigned_less [where ?'a = nat, of h] by simp
    then show "\<forall>h :: u32. unat h mod ?n mod ?S mod ?W = unat h mod ?S mod ?W" using a by blast
  qed
  then show ?thesis using dispatch_arith [OF assms(2,4) W n assms(3)] by (simp only: get own)
qed

theorem dispatch_right_iff_witness:
  "\<exists>c sh. ex_configure 4 3 2 1 = Inr (c, sh) \<and>
     (\<exists>h :: u32. reta_get (hd (reta_updates c)) (unat h mod 4) \<noteq> owner (shards sh ! (unat h mod 3)))"
proof -
  obtain c sh where conf: "ex_configure 4 3 2 1 = Inr (c, sh)" using ex_configure_ok [of 4 2 3 1] by auto
  show ?thesis using dispatch_right_iff [OF conf] conf by (auto simp: ex_config_def ex_env_def)
qed

end
