(* ===== verification/Epoch.thy ===== *)
theory Epoch
  imports Controller_Init
begin

text \<open>
  The controller's periodic work (\<open>dyssectcontroller.cc\<close>): the swap of the two flow tables of
  each shard and the counters (\<open>swap_shards\<close>), the shard volumes (\<open>volume_shards\<close>), the order of a
  shard's flows by their share of its bytes with the cumulative shares (\<open>order_shards\<close>), the ratio
  of a shard that is offloaded (\<open>update_ratio\<close>) and the clearing of the tables (\<open>clear_flows\<close>).

  Each shard has two flow tables; workers insert into the one \<open>use_2\<close> selects, the controller
  reads and clears the other. A loop that waits for the reference counter of a table to become
  zero is the fault \<open>Spinning\<close> when the counter is not zero.
\<close>

definition table_of :: "bool \<Rightarrow> ('t, 'r) ShardInfo \<Rightarrow> 't" where
  "table_of b i = (if b then flows3_2 i else flows3 i)"

definition ref_of :: "bool \<Rightarrow> ('t, 'r) ShardInfo \<Rightarrow> u32" where
  "ref_of b i = (if b then ref_count_2 i else ref_count_1 i)"

definition active_table :: "('t, 'r) ShardInfo \<Rightarrow> 't" where
  "active_table i = table_of (use_2 i) i"

definition idle_table :: "('t, 'r) ShardInfo \<Rightarrow> 't" where
  "idle_table i = table_of (\<not> use_2 i) i"

text \<open>\<open>while (rte_atomic32_read(&ref_count) != 0) {}\<close>\<close>

definition wait_idle :: "('t, 'r) ShardInfo \<Rightarrow> 'a outcome \<Rightarrow> 'a outcome" where
  "wait_idle i k = (if ref_of (\<not> use_2 i) i \<noteq> 0 then Inl Spinning else k)"

subsection \<open>Counters and volumes\<close>

definition swap_shard :: "('t, 'r) ShardInfo \<Rightarrow> ('t, 'r) ShardInfo" where
  "swap_shard i = i\<lparr>old_bytes := shard_bytes i, old_packets := shard_packets i, shard_bytes := 0, shard_packets := 0\<rparr>"

definition swap_shards :: "controller \<Rightarrow> ('t, 'r) shared \<Rightarrow> controller \<times> ('t, 'r) shared" where
  "swap_shards c sh =
     (let sh1 = fold (\<lambda>s. upd_shard s (\<lambda>i. i\<lparr>use_2 := \<not> use_2 i\<rparr>)) [0..<total_shards sh] sh;
          c1 = c\<lparr>last_totalpackets := total_packets c, total_bytes := 0, total_packets := 0\<rparr>
      in fold (\<lambda>s (c, sh). let sh' = upd_shard s swap_shard sh; i = shards sh' ! s
            in (c\<lparr>total_bytes := total_bytes c + old_bytes i, total_packets := total_packets c + old_packets i\<rparr>, sh'))
          [0..<total_shards sh] (c1, sh1))"

definition SHORT_TIME :: nat where "SHORT_TIME = 100000"

definition processingtime_r :: "u32 \<Rightarrow> nat \<Rightarrow> double" where
  "processingtime_r flows W = dmul 1 (rnd (1 / 10 ^ 6))"

definition processingtime_p :: "u32 \<Rightarrow> nat \<Rightarrow> double" where
  "processingtime_p flows W = dmul 1 (rnd (1 / 10 ^ 6))"

definition shard_volume :: "double \<Rightarrow> u32 \<Rightarrow> double" where
  "shard_volume tp packets = ddiv (dmul (dmul (of_nat (unat packets)) tp) (10 ^ 6)) (of_nat SHORT_TIME)"

definition volume_shards :: "controller \<Rightarrow> ('t, 'r) shared \<Rightarrow> controller \<times> ('t, 'r) shared" where
  "volume_shards c sh =
     (if last_totalpackets c = 0 then (c, sh)
      else if total_packets c \<noteq> 0
      then let c' = c\<lparr>Tr := processingtime_r (total_flows c) (num_W c), Tp := processingtime_p (total_flows c) (num_W c)\<rparr>
           in (c', fold (\<lambda>s. upd_shard s (\<lambda>i. i\<lparr>shard_V := shard_volume (Tp c') (old_packets i)\<rparr>)) [0..<total_shards sh] sh)
      else (c, fold (\<lambda>s. upd_shard s (\<lambda>i. i\<lparr>shard_V := 0\<rparr>)) [0..<total_shards sh] sh))"

subsection \<open>The ratio of a shard to offload\<close>

text \<open>The inner loop of \<open>update_ratio\<close> over the shares of the ordered flows, with its \<open>break\<close>.\<close>

fun snap_ratio :: "double \<Rightarrow> double \<Rightarrow> double list \<Rightarrow> double" where
  "snap_ratio r accum [] = r"
| "snap_ratio r accum (p # ps) = (let accum' = dadd accum p in
     if accum' \<ge> r then (if accum' < dmul r SCALE then dadd accum' EPSILON else r) else snap_ratio r accum' ps)"

definition new_ratio :: "('t, 'r) shared \<Rightarrow> ('t, 'r) ShardInfo \<Rightarrow> double" where
  "new_ratio sh i = (if is_equal_than (r_new i) 0 then r_new i
     else snap_ratio (r_new i) 0 (map (\<lambda>a. prob2 (state_at sh a)) (ordered_flows i)))"

definition update_ratio :: "('t, 'r) shared \<Rightarrow> (bool \<times> ('t, 'r) shared) outcome" where
  "update_ratio sh = outcome_fold (\<lambda>s (changed, sh). check_index s (shards sh) (
     let sh' = upd_shard s (\<lambda>i. i\<lparr>r_new := new_ratio sh i\<rparr>) sh; i = shards sh' ! s
     in if is_equal_than (shard_r i) (r_new i) then Inr (changed, sh')
        else check_index (owner i) (transfer_r sh') (Inr (True, sh'\<lparr>transfer_r := (transfer_r sh')[owner i := 1]\<rparr>))))
     [0..<total_shards sh] (False, sh)"

text \<open>The same without checks.\<close>

definition ratio_step :: "nat \<Rightarrow> bool \<times> ('t, 'r) shared \<Rightarrow> bool \<times> ('t, 'r) shared" where
  "ratio_step s = (\<lambda>(changed, sh).
     let sh' = upd_shard s (\<lambda>i. i\<lparr>r_new := new_ratio sh i\<rparr>) sh; i = shards sh' ! s
     in if is_equal_than (shard_r i) (r_new i) then (changed, sh')
        else (True, sh'\<lparr>transfer_r := (transfer_r sh')[owner i := 1]\<rparr>))"

definition ratio_updated :: "('t, 'r) shared \<Rightarrow> bool \<times> ('t, 'r) shared" where
  "ratio_updated sh = fold ratio_step [0..<total_shards sh] (False, sh)"

lemma update_ratio_pure: "update_ratio sh = Inr x \<Longrightarrow> x = ratio_updated sh"
  unfolding update_ratio_def ratio_updated_def
  by (erule outcome_fold_pure [rotated]) (auto simp: ratio_step_def check_index_Inr Let_def split: prod.splits if_splits)

lemma update_ratio_ok:
  assumes "length (shards sh) = total_shards sh" and "\<forall>s<total_shards sh. owner (shards sh ! s) < length (transfer_r sh)"
  shows "update_ratio sh = Inr (ratio_updated sh)"
proof -
  let ?ok = "\<lambda>(b :: bool, x). length (shards x) = total_shards sh \<and> length (transfer_r x) = length (transfer_r sh)
    \<and> (\<forall>s<total_shards sh. owner (shards x ! s) = owner (shards sh ! s))"
  show ?thesis unfolding update_ratio_def ratio_updated_def
    by (rule conjunct1 [OF outcome_fold_total [where P = ?ok]])
      (use assms in \<open>auto simp: ratio_step_def upd_shard_def nth_list_update Let_def split: prod.splits\<close>)
qed

subsection \<open>The order of the flows\<close>

text \<open>
  \<open>std::sort\<close> with \<open>sortByVal\<close>: it permutes the vector so that no later element compares before
  an earlier one; the order of flows with equal shares is not specified, so it is a parameter.
\<close>

definition sort_ok :: "((addr \<Rightarrow> double) \<Rightarrow> addr list \<Rightarrow> addr list) \<Rightarrow> bool" where
  "sort_ok srt \<longleftrightarrow> (\<forall>key xs. mset (srt key xs) = mset xs \<and> sorted_wrt (\<lambda>a b. \<not> key b > key a) (srt key xs))"

definition snapshot_prob :: "addr list \<Rightarrow> (addr \<Rightarrow> DyssectState) \<Rightarrow> addr \<Rightarrow> DyssectState" where
  "snapshot_prob = fold (\<lambda>a st. st(a := (st a)\<lparr>prob2 := prob (st a)\<rparr>))"

definition set_cdf :: "addr list \<Rightarrow> double \<times> (addr \<Rightarrow> DyssectState) \<Rightarrow> double \<times> (addr \<Rightarrow> DyssectState)" where
  "set_cdf = fold (\<lambda>a (accum, st). let accum' = dadd accum (prob2 (st a)) in (accum', st(a := (st a)\<lparr>cdf := accum'\<rparr>)))"

definition order_shard :: "'t table_ops \<Rightarrow> ((addr \<Rightarrow> double) \<Rightarrow> addr list \<Rightarrow> addr list) \<Rightarrow> nat
    \<Rightarrow> u32 \<times> ('t, 'r) shared \<Rightarrow> (u32 \<times> ('t, 'r) shared) outcome" where
  "order_shard T srt s = (\<lambda>(flows, sh). let i = shards sh ! s in check_index s (shards sh) (wait_idle i (
     let vec = map snd (table_entries T (idle_table i));
         st = snapshot_prob vec (state_at sh);
         ord = srt (\<lambda>a. prob2 (st a)) vec;
         st' = snd (set_cdf ord (0, st))
     in Inr (flows + of_nat (length vec), upd_shard s (\<lambda>i. i\<lparr>ordered_flows := ord\<rparr>) (sh\<lparr>state_at := st'\<rparr>)))))"

definition order_shards :: "'t table_ops \<Rightarrow> ((addr \<Rightarrow> double) \<Rightarrow> addr list \<Rightarrow> addr list)
    \<Rightarrow> controller \<Rightarrow> ('t, 'r) shared \<Rightarrow> (controller \<times> ('t, 'r) shared) outcome" where
  "order_shards T srt c sh = outcome_bind (outcome_fold (order_shard T srt) [0..<total_shards sh] (0, sh))
     (\<lambda>(flows, sh'). Inr (c\<lparr>total_flows := flows\<rparr>, sh'))"

text \<open>\<open>clear_flows\<close>\<close>

definition clear_idle :: "'t table_ops \<Rightarrow> ('t, 'r) ShardInfo \<Rightarrow> ('t, 'r) ShardInfo" where
  "clear_idle T i = (if use_2 i then i\<lparr>flows3 := table_clear T (flows3 i)\<rparr> else i\<lparr>flows3_2 := table_clear T (flows3_2 i)\<rparr>)"

definition clear_flows :: "'t table_ops \<Rightarrow> ('t, 'r) shared \<Rightarrow> ('t, 'r) shared outcome" where
  "clear_flows T sh = outcome_fold (\<lambda>s sh. check_index s (shards sh) (wait_idle (shards sh ! s) (Inr (upd_shard s (clear_idle T) sh))))
     [0..<total_shards sh] sh"

subsection \<open>The loops over the shards\<close>

lemma fold_upd_shard:
  assumes "n \<le> length (shards sh)"
  shows "fold (\<lambda>s. upd_shard s (f s)) [0..<n] sh
    = sh\<lparr>shards := map (\<lambda>s. if s < n then f s (shards sh ! s) else shards sh ! s) [0..<length (shards sh)]\<rparr>"
  using assms
proof (induction n)
  case 0
  then show ?case by (simp add: map_nth)
next
  case (Suc n)
  then show ?case by (auto simp: upd_shard_def nth_update intro!: arg_cong [where f = "\<lambda>x. sh\<lparr>shards := x\<rparr>"] nth_equalityI)
qed

lemma fold_upd_all:
  assumes "length (shards sh) = n"
  shows "fold (\<lambda>s. upd_shard s f) [0..<n] sh = sh\<lparr>shards := map f (shards sh)\<rparr>"
  using fold_upd_shard [of n sh "\<lambda>_. f"] assms by (auto intro!: arg_cong [where f = "\<lambda>x. sh\<lparr>shards := x\<rparr>"] nth_equalityI)

text \<open>\<open>swap_shards\<close> as one expression: the tables change roles and the counters move.\<close>

lemma swap_shards_eq:
  assumes "length (shards sh) = total_shards sh"
  shows "swap_shards c sh =
    (c\<lparr>last_totalpackets := total_packets c, total_bytes := sum_list (map shard_bytes (shards sh)),
       total_packets := sum_list (map shard_packets (shards sh))\<rparr>,
     sh\<lparr>shards := map (\<lambda>i. swap_shard (i\<lparr>use_2 := \<not> use_2 i\<rparr>)) (shards sh)\<rparr>)"
proof -
  let ?n = "total_shards sh"
  define c1 where "c1 = c\<lparr>last_totalpackets := total_packets c, total_bytes := 0, total_packets := 0\<rparr>"
  define sh1 where "sh1 = sh\<lparr>shards := map (\<lambda>i. i\<lparr>use_2 := \<not> use_2 i\<rparr>) (shards sh)\<rparr>"
  let ?f = "\<lambda>s (c, sh). let sh' = upd_shard s swap_shard sh; i = shards sh' ! s
            in (c\<lparr>total_bytes := total_bytes c + old_bytes i, total_packets := total_packets c + old_packets i\<rparr>, sh')"
  have loop: "fold ?f [0..<m] (c1, sh1) = (c1\<lparr>total_bytes := sum_list (map shard_bytes (take m (shards sh))),
       total_packets := sum_list (map shard_packets (take m (shards sh)))\<rparr>,
     fold (\<lambda>s. upd_shard s swap_shard) [0..<m] sh1)" if "m \<le> ?n" for m
    using that
  proof (induction m)
    case 0
    then show ?case by (simp add: c1_def)
  next
    case (Suc m)
    have m: "m < length (shards sh)" using Suc.prems assms by simp
    have "shards (fold (\<lambda>s. upd_shard s swap_shard) [0..<m] sh1) ! m = (shards sh ! m)\<lparr>use_2 := \<not> use_2 (shards sh ! m)\<rparr>"
      using m fold_upd_shard [of m sh1 "\<lambda>_. swap_shard"] by (simp add: sh1_def)
    moreover have "length (shards (fold (\<lambda>s. upd_shard s swap_shard) [0..<m] sh1)) = length (shards sh)"
      using m fold_upd_shard [of m sh1 "\<lambda>_. swap_shard"] by (simp add: sh1_def)
    ultimately have "old_bytes (shards (upd_shard m swap_shard (fold (\<lambda>s. upd_shard s swap_shard) [0..<m] sh1)) ! m) = shard_bytes (shards sh ! m)"
      "old_packets (shards (upd_shard m swap_shard (fold (\<lambda>s. upd_shard s swap_shard) [0..<m] sh1)) ! m) = shard_packets (shards sh ! m)"
      using m by (simp_all add: upd_shard_def swap_shard_def)
    then show ?case using Suc m by (simp add: Let_def take_Suc_conv_app_nth)
  qed
  have "fold (\<lambda>s. upd_shard s (\<lambda>i. i\<lparr>use_2 := \<not> use_2 i\<rparr>)) [0..<?n] sh = sh1"
    using fold_upd_all [OF assms] by (simp add: sh1_def)
  moreover have "fold (\<lambda>s. upd_shard s swap_shard) [0..<?n] sh1
      = sh\<lparr>shards := map (\<lambda>i. swap_shard (i\<lparr>use_2 := \<not> use_2 i\<rparr>)) (shards sh)\<rparr>"
    using fold_upd_all [of sh1 ?n swap_shard] assms by (simp add: sh1_def)
  ultimately show ?thesis using loop [of ?n] assms by (simp add: swap_shards_def Let_def c1_def)
qed

lemma clear_flows_eq:
  assumes "length (shards sh) = total_shards sh" and "\<forall>i\<in>set (shards sh). ref_of (\<not> use_2 i) i = 0"
  shows "clear_flows T sh = Inr (sh\<lparr>shards := map (clear_idle T) (shards sh)\<rparr>)"
proof -
  have "outcome_fold (\<lambda>s sh. check_index s (shards sh) (wait_idle (shards sh ! s) (Inr (upd_shard s (clear_idle T) sh)))) [0..<n] sh
      = Inr (fold (\<lambda>s. upd_shard s (clear_idle T)) [0..<n] sh)" if "n \<le> total_shards sh" for n
    using that
  proof (induction n)
    case (Suc n)
    then have "n < length (shards sh)" using assms(1) by simp
    then have "shards (fold (\<lambda>s. upd_shard s (clear_idle T)) [0..<n] sh) ! n = shards sh ! n" "shards sh ! n \<in> set (shards sh)"
      "n < length (shards (fold (\<lambda>s. upd_shard s (clear_idle T)) [0..<n] sh))"
      using fold_upd_shard [of n sh "\<lambda>_. clear_idle T"] by simp_all
    then show ?case using Suc assms(2) by (simp add: outcome_fold_append wait_idle_def)
  qed simp
  from this [of "total_shards sh"] show ?thesis using fold_upd_all [OF assms(1)] by (simp add: clear_flows_def)
qed

subsection \<open>The order of a shard's flows\<close>

lemma snapshot_prob_eq:
  "snapshot_prob vec st a = (if a \<in> set vec then (st a)\<lparr>prob2 := prob (st a)\<rparr> else st a)"
  by (induction vec rule: rev_induct) (auto simp: snapshot_prob_def)

text \<open>The cumulative share at position \<open>j\<close>: sums of doubles from left to right.\<close>

definition cum_share :: "double \<Rightarrow> double list \<Rightarrow> nat \<Rightarrow> double" where
  "cum_share acc ps j = foldl dadd acc (take (Suc j) ps)"

lemma cum_share_Cons [simp]: "cum_share acc (p # ps) 0 = dadd acc p" "cum_share acc (p # ps) (Suc j) = cum_share (dadd acc p) ps j"
  by (simp_all add: cum_share_def)

lemma set_cdf_eq:
  "distinct v \<Longrightarrow> (\<forall>j<length v. snd (set_cdf v (acc, st)) (v ! j)
       = (st (v ! j))\<lparr>cdf := cum_share acc (map (\<lambda>a. prob2 (st a)) v) j\<rparr>)
     \<and> (\<forall>a. a \<notin> set v \<longrightarrow> snd (set_cdf v (acc, st)) a = st a)"
proof (induction v arbitrary: acc st)
  case Nil
  then show ?case by (simp add: set_cdf_def)
next
  case (Cons a v)
  define st2 where "st2 = st(a := (st a)\<lparr>cdf := dadd acc (prob2 (st a))\<rparr>)"
  have st2: "st2 a = (st a)\<lparr>cdf := dadd acc (prob2 (st a))\<rparr>" "b \<noteq> a \<Longrightarrow> st2 b = st b" for b
    by (simp_all add: st2_def)
  have step: "set_cdf (a # v) (acc, st) = set_cdf v (dadd acc (prob2 (st a)), st2)"
    by (simp add: set_cdf_def Let_def st2_def)
  have "distinct v" using Cons.prems by simp
  note IH = conjunct1 [OF Cons.IH [OF this, of "dadd acc (prob2 (st a))" st2]]
    conjunct2 [OF Cons.IH [OF this, of "dadd acc (prob2 (st a))" st2]]
  have probs: "map (\<lambda>a. prob2 (st2 a)) v = map (\<lambda>a. prob2 (st a)) v" by (simp add: st2_def)
  have "st2 (v ! j) = st (v ! j)" if "j < length v" for j using Cons.prems that by (intro st2) auto
  then have "snd (set_cdf (a # v) (acc, st)) ((a # v) ! j)
       = (st ((a # v) ! j))\<lparr>cdf := cum_share acc (map (\<lambda>a. prob2 (st a)) (a # v)) j\<rparr>" if "j < length (a # v)" for j
    using IH Cons.prems that st2(1) by (cases j) (simp_all add: step probs)
  moreover have "snd (set_cdf (a # v) (acc, st)) b = st b" if "b \<notin> set (a # v)" for b
    using IH(2) that st2(2) by (simp add: step)
  ultimately show ?case by blast
qed

definition share_of :: "('t, 'r) shared \<Rightarrow> addr \<Rightarrow> double" where
  "share_of sh a = prob (state_at sh a)"

text \<open>
  The flows of shard \<open>s\<close> in decreasing order of their shares, and in the memory \<open>st'\<close> the share and
  the cumulative share stored with each.
\<close>

definition shard_ordered :: "'t table_ops \<Rightarrow> ('t, 'r) shared \<Rightarrow> nat \<Rightarrow> (addr \<Rightarrow> DyssectState) \<Rightarrow> addr list \<Rightarrow> bool" where
  "shard_ordered T sh s st' v \<longleftrightarrow> distinct v
     \<and> set v = snd ` set (table_entries T (idle_table (shards sh ! s)))
     \<and> sorted_wrt (\<lambda>a b. share_of sh b \<le> share_of sh a) v
     \<and> (\<forall>j<length v. st' (v ! j) = (state_at sh (v ! j))\<lparr>prob2 := share_of sh (v ! j),
          cdf := cum_share 0 (map (share_of sh) v) j\<rparr>)"

lemma sorted_wrt_key: "sorted_wrt P xs \<Longrightarrow> (\<And>a b. a \<in> set xs \<Longrightarrow> b \<in> set xs \<Longrightarrow> P a b \<Longrightarrow> Q a b) \<Longrightarrow> sorted_wrt Q xs"
  by (induction xs) auto

lemma order_shard_ok:
  assumes "sort_ok srt" and "ref_of (\<not> use_2 (shards sh ! s)) (shards sh ! s) = 0"
    and "distinct (map snd (table_entries T (idle_table (shards sh ! s))))" and "s < length (shards sh)"
  shows "\<exists>v st'. order_shard T srt s (n, sh) = Inr (n + of_nat (length v), upd_shard s (\<lambda>i. i\<lparr>ordered_flows := v\<rparr>) (sh\<lparr>state_at := st'\<rparr>))
    \<and> shard_ordered T sh s st' v \<and> (\<forall>a. a \<notin> set v \<longrightarrow> st' a = state_at sh a)"
proof -
  let ?vec = "map snd (table_entries T (idle_table (shards sh ! s)))"
  let ?st = "snapshot_prob ?vec (state_at sh)"
  define v where "v = srt (\<lambda>a. prob2 (?st a)) ?vec"
  define st' where "st' = snd (set_cdf v (0, ?st))"
  have m: "mset v = mset ?vec" and sorted: "sorted_wrt (\<lambda>a b. \<not> prob2 (?st b) > prob2 (?st a)) v"
    using assms(1) by (auto simp: sort_ok_def v_def)
  have d: "distinct v" using m assms(3) mset_eq_imp_distinct_iff by blast
  have set_v: "set v = set ?vec" using m mset_eq_setD by blast
  have "order_shard T srt s (n, sh) = Inr (n + of_nat (length ?vec), upd_shard s (\<lambda>i. i\<lparr>ordered_flows := v\<rparr>) (sh\<lparr>state_at := st'\<rparr>))"
    using assms(2,4) by (simp add: order_shard_def wait_idle_def Let_def v_def st'_def)
  moreover have "length ?vec = length v" using m by (metis size_mset)
  moreover have st: "?st a = (if a \<in> set v then (state_at sh a)\<lparr>prob2 := share_of sh a\<rparr> else state_at sh a)" for a
    using set_v by (simp add: snapshot_prob_eq share_of_def)
  have st_v: "j < length v \<Longrightarrow> ?st (v ! j) = (state_at sh (v ! j))\<lparr>prob2 := share_of sh (v ! j)\<rparr>" for j
    by (simp add: st)
  have shares: "map (\<lambda>a. prob2 (?st a)) v = map (share_of sh) v" by (auto simp: st)
  have "sorted_wrt (\<lambda>a b. share_of sh b \<le> share_of sh a) v"
    using sorted by (rule sorted_wrt_key) (simp add: st not_less)
  then have "shard_ordered T sh s st' v"
    using d set_v conjunct1 [OF set_cdf_eq [OF d, of 0 ?st]] unfolding shares st'_def [symmetric]
    by (simp add: shard_ordered_def st_v)
  moreover have "\<forall>a. a \<notin> set v \<longrightarrow> st' a = state_at sh a"
    using conjunct2 [OF set_cdf_eq [OF d, of 0 ?st]] by (simp add: st'_def [symmetric] st)
  ultimately show ?thesis by auto
qed

text \<open>
  The tables refer to states that know their flow and their shard, so that no state is referred
  to from two entries of a table, nor from the tables of two shards.
\<close>

definition tables_ok :: "'t table_ops \<Rightarrow> ('t, 'r) shared \<Rightarrow> bool" where
  "tables_ok T sh \<longleftrightarrow> (\<forall>s<total_shards sh. \<forall>b k a. (k, a) \<in> set (table_entries T (table_of b (shards sh ! s))) \<longrightarrow>
     flow (state_at sh a) = k \<and> state_shard (state_at sh a) = s)"

lemma tables_ok_distinct:
  assumes "tables_ok T sh" and "table_ok T K ent" and "s < total_shards sh"
  shows "distinct (map snd (table_entries T (table_of b (shards sh ! s))))"
proof -
  let ?e = "table_entries T (table_of b (shards sh ! s))"
  have d: "distinct (map fst ?e)" using assms(2) by (simp add: table_ok_def)
  have "fst x = flow (state_at sh (snd x))" if "x \<in> set ?e" for x
    using assms(1,3) that unfolding tables_ok_def by (metis prod.collapse)
  then have "map fst ?e = map (\<lambda>a. flow (state_at sh a)) (map snd ?e)" by simp
  with d show ?thesis by (metis distinct_map)
qed

definition idle_addrs :: "'t table_ops \<Rightarrow> ('t, 'r) shared \<Rightarrow> nat \<Rightarrow> addr set" where
  "idle_addrs T sh s = snd ` set (table_entries T (idle_table (shards sh ! s)))"

lemma idle_addrs_disjoint:
  assumes "tables_ok T sh" and "s < total_shards sh" and "s' < total_shards sh"
    and "a \<in> idle_addrs T sh s" and "a \<in> idle_addrs T sh s'"
  shows "s = s'"
proof -
  have shard: "state_shard (state_at sh a) = s" if "s < total_shards sh" "a \<in> idle_addrs T sh s" for s
    using assms(1) that unfolding tables_ok_def idle_addrs_def idle_table_def by auto
  show ?thesis using shard [OF assms(2,4)] shard [OF assms(3,5)] by simp
qed

text \<open>What the loop has done after the first \<open>n\<close> shards.\<close>

definition ordered_upto :: "'t table_ops \<Rightarrow> ('t, 'r) shared \<Rightarrow> nat \<Rightarrow> u32 \<times> ('t, 'r) shared \<Rightarrow> bool" where
  "ordered_upto T sh n = (\<lambda>(flows, sh'). \<exists>vs st'.
     sh' = sh\<lparr>shards := map (\<lambda>s. if s < n then (shards sh ! s)\<lparr>ordered_flows := vs s\<rparr> else shards sh ! s) [0..<length (shards sh)],
              state_at := st'\<rparr>
     \<and> (\<forall>s<n. shard_ordered T sh s st' (vs s)) \<and> (\<forall>a. (\<forall>s<n. a \<notin> set (vs s)) \<longrightarrow> st' a = state_at sh a)
     \<and> flows = of_nat (\<Sum>s<n. length (vs s)))"

lemma shard_ordered_cong:
  assumes "shard_ordered T sh s st v" and "\<And>a. a \<in> set v \<Longrightarrow> st' a = st a"
    and "shards sh' ! s = shards sh ! s" and "\<And>a. a \<in> set v \<Longrightarrow> state_at sh' a = state_at sh a"
  shows "shard_ordered T sh' s st' v"
proof -
  have m: "map (share_of sh') v = map (share_of sh) v" using assms(4) by (simp add: share_of_def)
  have "sorted_wrt (\<lambda>a b. share_of sh' b \<le> share_of sh' a) v"
    using assms(1,4) by (auto simp: shard_ordered_def share_of_def elim!: sorted_wrt_key)
  moreover have "st' (v ! j) = (state_at sh' (v ! j))\<lparr>prob2 := share_of sh' (v ! j), cdf := cum_share 0 (map (share_of sh') v) j\<rparr>"
    if "j < length v" for j
    using assms(1,2,4) nth_mem [OF that] that unfolding m by (simp add: shard_ordered_def share_of_def)
  ultimately show ?thesis using assms(1,3) unfolding shard_ordered_def by simp
qed

lemma order_shard_upto:
  assumes "sort_ok srt" and "table_ok T K ent" and "tables_ok T sh" and "length (shards sh) = total_shards sh"
    and "\<forall>i\<in>set (shards sh). ref_of (\<not> use_2 i) i = 0" and "n < total_shards sh" and "ordered_upto T sh n x"
  shows "\<exists>x'. order_shard T srt n x = Inr x' \<and> ordered_upto T sh (Suc n) x'"
proof -
  obtain flows sh' where x: "x = (flows, sh')" by (cases x)
  from assms(7) x obtain vs st' where sh': "sh' = sh\<lparr>shards := map (\<lambda>s. if s < n then (shards sh ! s)\<lparr>ordered_flows := vs s\<rparr> else shards sh ! s) [0..<length (shards sh)],
              state_at := st'\<rparr>"
    and ord: "\<forall>s<n. shard_ordered T sh s st' (vs s)" and rest: "\<forall>a. (\<forall>s<n. a \<notin> set (vs s)) \<longrightarrow> st' a = state_at sh a"
    and flows: "flows = of_nat (\<Sum>s<n. length (vs s))" by (auto simp: ordered_upto_def)
  have n: "shards sh' ! n = shards sh ! n" "n < length (shards sh)" "shards sh ! n \<in> set (shards sh)"
      "n < length (shards sh')"
    using assms(4,6) by (simp_all add: sh')
  have "distinct (map snd (table_entries T (idle_table (shards sh' ! n))))"
    using tables_ok_distinct [OF assms(3,2,6)] n by (simp add: idle_table_def)
  then obtain v st'' where v: "order_shard T srt n (flows, sh') = Inr (flows + of_nat (length v), upd_shard n (\<lambda>i. i\<lparr>ordered_flows := v\<rparr>) (sh'\<lparr>state_at := st''\<rparr>))"
    "shard_ordered T sh' n st'' v" "\<forall>a. a \<notin> set v \<longrightarrow> st'' a = state_at sh' a"
    using order_shard_ok [OF assms(1), of sh' n T flows] assms(5) n by auto
  have set_v: "set v = idle_addrs T sh n" using v(2) n by (simp add: shard_ordered_def idle_addrs_def)
  have set_vs: "s < n \<Longrightarrow> set (vs s) = idle_addrs T sh s" for s using ord by (simp add: shard_ordered_def idle_addrs_def)
  have disj: "s < n \<Longrightarrow> a \<in> set (vs s) \<Longrightarrow> a \<notin> set v" for s a
    using idle_addrs_disjoint [OF assms(3), of s n a] assms(6) set_v set_vs by auto
  have "shard_ordered T sh n st'' v"
    using v(2) refl
  proof (rule shard_ordered_cong)
    show "state_at sh a = state_at sh' a" if "a \<in> set v" for a using rest disj that by (simp add: sh') metis
  qed (use n in simp)
  moreover have "shard_ordered T sh s st'' (vs s)" if "s < n" for s
  proof (rule shard_ordered_cong)
    show "shard_ordered T sh s st' (vs s)" using ord that by simp
    show "st'' a = st' a" if "a \<in> set (vs s)" for a
      using v(3) disj [OF \<open>s < n\<close> that] by (simp add: sh')
  qed simp_all
  ultimately have 1: "\<forall>s<Suc n. shard_ordered T sh s st'' ((vs(n := v)) s)" by (simp add: less_Suc_eq)
  have 2: "\<forall>a. (\<forall>s<Suc n. a \<notin> set ((vs(n := v)) s)) \<longrightarrow> st'' a = state_at sh a"
    using v(3) rest by (auto simp: less_Suc_eq sh')
  have list: "(map (\<lambda>s. if s < n then (shards sh ! s)\<lparr>ordered_flows := vs s\<rparr> else shards sh ! s) [0..<length (shards sh)])
        [n := (shards sh ! n)\<lparr>ordered_flows := v\<rparr>]
      = map (\<lambda>s. if s < Suc n then (shards sh ! s)\<lparr>ordered_flows := (vs(n := v)) s\<rparr> else shards sh ! s) [0..<length (shards sh)]"
    by (rule nth_equalityI) (auto simp: nth_update)
  have 3: "upd_shard n (\<lambda>i. i\<lparr>ordered_flows := v\<rparr>) (sh'\<lparr>state_at := st''\<rparr>)
      = sh\<lparr>shards := map (\<lambda>s. if s < Suc n then (shards sh ! s)\<lparr>ordered_flows := (vs(n := v)) s\<rparr> else shards sh ! s) [0..<length (shards sh)],
              state_at := st''\<rparr>"
    using n(2) unfolding list [symmetric] by (simp add: upd_shard_def sh')
  have 4: "flows + of_nat (length v) = (of_nat (\<Sum>s<Suc n. length ((vs(n := v)) s)) :: u32)"
    by (simp add: flows)
  show ?thesis unfolding x using v(1) 1 2 3 4
    by (intro exI [of _ "(flows + of_nat (length v), upd_shard n (\<lambda>i. i\<lparr>ordered_flows := v\<rparr>) (sh'\<lparr>state_at := st''\<rparr>))"] conjI)
      (simp, unfold ordered_upto_def, blast)
qed

lemma order_shards_ok:
  assumes "sort_ok srt" and "table_ok T K ent" and "tables_ok T sh" and "length (shards sh) = total_shards sh"
    and "\<forall>i\<in>set (shards sh). ref_of (\<not> use_2 i) i = 0"
  shows "\<exists>vs st'. order_shards T srt c sh = Inr (c\<lparr>total_flows := of_nat (\<Sum>s<total_shards sh. length (vs s))\<rparr>,
      sh\<lparr>shards := map (\<lambda>s. (shards sh ! s)\<lparr>ordered_flows := vs s\<rparr>) [0..<total_shards sh], state_at := st'\<rparr>)
    \<and> (\<forall>s<total_shards sh. shard_ordered T sh s st' (vs s))
    \<and> (\<forall>a. (\<forall>s<total_shards sh. a \<notin> set (vs s)) \<longrightarrow> st' a = state_at sh a)"
proof -
  have "\<exists>x. outcome_fold (order_shard T srt) [0..<n] (0, sh) = Inr x \<and> ordered_upto T sh n x" if "n \<le> total_shards sh" for n
    using that
  proof (induction n)
    case 0
    have "sh = sh\<lparr>shards := map (\<lambda>s. shards sh ! s) [0..<length (shards sh)], state_at := state_at sh\<rparr>" by (simp add: map_nth)
    then show ?case unfolding ordered_upto_def by (auto intro!: exI [of _ "state_at sh"])
  next
    case (Suc n)
    then obtain x where "outcome_fold (order_shard T srt) [0..<n] (0, sh) = Inr x" "ordered_upto T sh n x" by auto
    with order_shard_upto [OF assms _ this(2)] Suc.prems show ?case by (auto simp: outcome_fold_append)
  qed
  from this [of "total_shards sh"] obtain vs st' where
    "outcome_fold (order_shard T srt) [0..<total_shards sh] (0, sh) = Inr (of_nat (\<Sum>s<total_shards sh. length (vs s)),
      sh\<lparr>shards := map (\<lambda>s. if s < total_shards sh then (shards sh ! s)\<lparr>ordered_flows := vs s\<rparr> else shards sh ! s) [0..<length (shards sh)],
              state_at := st'\<rparr>)"
    "\<forall>s<total_shards sh. shard_ordered T sh s st' (vs s)" "\<forall>a. (\<forall>s<total_shards sh. a \<notin> set (vs s)) \<longrightarrow> st' a = state_at sh a"
    by (auto simp: ordered_upto_def)
  then show ?thesis using assms(4) by (intro exI [of _ vs] exI [of _ st']) (simp add: order_shards_def cong: map_cong)
qed

subsection \<open>What \<open>update_ratio\<close> does\<close>

definition with_new_ratio :: "('t, 'r) shared \<Rightarrow> ('t, 'r) ShardInfo \<Rightarrow> ('t, 'r) ShardInfo" where
  "with_new_ratio sh i = i\<lparr>r_new := new_ratio sh i\<rparr>"

definition ratio_changes :: "('t, 'r) shared \<Rightarrow> nat \<Rightarrow> bool" where
  "ratio_changes sh s \<longleftrightarrow> \<not> is_equal_than (shard_r (shards sh ! s)) (new_ratio sh (shards sh ! s))"

definition flagged :: "('t, 'r) shared \<Rightarrow> nat \<Rightarrow> nat list" where
  "flagged sh n = map (\<lambda>w. if \<exists>s<n. ratio_changes sh s \<and> owner (shards sh ! s) = w then 1 else transfer_r sh ! w)
     [0..<length (transfer_r sh)]"

lemma ratio_updated_eq:
  assumes "length (shards sh) = total_shards sh"
  shows "ratio_updated sh = (\<exists>s<total_shards sh. ratio_changes sh s,
    sh\<lparr>shards := map (with_new_ratio sh) (shards sh), transfer_r := flagged sh (total_shards sh)\<rparr>)"
proof -
  let ?f = "ratio_step :: nat \<Rightarrow> bool \<times> ('a, 'b) shared \<Rightarrow> bool \<times> ('a, 'b) shared"
  have "fold ?f [0..<n] (False, sh) = (\<exists>s<n. ratio_changes sh s,
     sh\<lparr>shards := map (\<lambda>s. if s < n then with_new_ratio sh (shards sh ! s) else shards sh ! s) [0..<length (shards sh)],
        transfer_r := flagged sh n\<rparr>)" if "n \<le> total_shards sh" for n
    using that
  proof (induction n)
    case 0
    then show ?case by (simp add: flagged_def map_nth)
  next
    case (Suc n)
    let ?l = "\<lambda>n. map (\<lambda>s. if s < n then with_new_ratio sh (shards sh ! s) else shards sh ! s) [0..<length (shards sh)]"
    let ?sh = "sh\<lparr>shards := ?l n, transfer_r := flagged sh n\<rparr>"
    have n: "n < length (shards sh)" using Suc.prems assms by simp
    have nr: "new_ratio ?sh i = new_ratio sh i" for i by (simp add: new_ratio_def)
    have l: "(?l n)[n := with_new_ratio sh (shards sh ! n)] = ?l (Suc n)"
      by (rule nth_equalityI) (auto simp: nth_update)
    then have up: "upd_shard n (\<lambda>i. i\<lparr>r_new := new_ratio ?sh i\<rparr>) ?sh = sh\<lparr>shards := ?l (Suc n), transfer_r := flagged sh n\<rparr>"
      using n by (simp add: upd_shard_def nr with_new_ratio_def)
    have at_n: "?l (Suc n) ! n = with_new_ratio sh (shards sh ! n)" using n by simp
    have fl: "flagged sh (Suc n) = (if ratio_changes sh n then (flagged sh n)[owner (shards sh ! n) := 1] else flagged sh n)"
      by (rule nth_equalityI) (auto simp: flagged_def nth_update less_Suc_eq)
    have "?f n (\<exists>s<n. ratio_changes sh s, ?sh) = (\<exists>s<Suc n. ratio_changes sh s, sh\<lparr>shards := ?l (Suc n), transfer_r := flagged sh (Suc n)\<rparr>)"
    proof (cases "ratio_changes sh n")
      case True
      then have "\<not> is_equal_than (shard_r (?l (Suc n) ! n)) (r_new (?l (Suc n) ! n))"
        unfolding at_n by (simp add: with_new_ratio_def ratio_changes_def)
      moreover have "owner (?l (Suc n) ! n) = owner (shards sh ! n)" unfolding at_n by (simp add: with_new_ratio_def)
      ultimately show ?thesis using True up fl by (auto simp: ratio_step_def Let_def simp del: upt_Suc)
    next
      case False
      then have "is_equal_than (shard_r (?l (Suc n) ! n)) (r_new (?l (Suc n) ! n))"
        unfolding at_n by (simp add: with_new_ratio_def ratio_changes_def)
      then show ?thesis using False up fl by (auto simp: ratio_step_def Let_def less_Suc_eq simp del: upt_Suc)
    qed
    then show ?case using Suc by simp
  qed
  from this [of "total_shards sh"] show ?thesis
    using assms map_nth [of "shards sh"] unfolding ratio_updated_def by (auto intro!: nth_equalityI arg_cong [where f = "\<lambda>x. sh\<lparr>shards := x, transfer_r := flagged sh (total_shards sh)\<rparr>"])
qed

subsection \<open>Where the ratio snaps\<close>

lemma dadd_mono: "a \<le> b \<Longrightarrow> dadd c a \<le> dadd c b"
  by (simp add: dadd_def rnd_mono)

lemma dadd_ge: "rnd a = a \<Longrightarrow> 0 \<le> p \<Longrightarrow> a \<le> dadd a p"
  using rnd_mono [of a "a + p"] by (simp add: dadd_def)

lemma cum_share_rnd: "rnd acc = acc \<Longrightarrow> rnd (cum_share acc ps j) = cum_share acc ps j"
proof (induction ps arbitrary: acc j)
  case (Cons p ps)
  then show ?case by (cases j) (simp_all add: dadd_def)
qed (simp add: cum_share_def)

lemma cum_share_ge: "rnd acc = acc \<Longrightarrow> \<forall>p\<in>set ps. 0 \<le> p \<Longrightarrow> acc \<le> cum_share acc ps j"
proof (induction ps arbitrary: acc j)
  case (Cons p ps)
  have "acc \<le> dadd acc p" using Cons.prems by (intro dadd_ge) auto
  moreover have "rnd (dadd acc p) = dadd acc p" by (simp add: dadd_def)
  ultimately show ?case using Cons.IH [of "dadd acc p"] Cons.prems by (cases j) (auto intro: order_trans)
qed (simp add: cum_share_def)

lemma cum_share_mono:
  "rnd acc = acc \<Longrightarrow> \<forall>p\<in>set ps. 0 \<le> p \<Longrightarrow> i \<le> j \<Longrightarrow> cum_share acc ps i \<le> cum_share acc ps j"
proof (induction ps arbitrary: acc i j)
  case (Cons p ps)
  have r: "rnd (dadd acc p) = dadd acc p" by (simp add: dadd_def)
  show ?case
  proof (cases i)
    case 0
    then show ?thesis using cum_share_ge [OF r, of ps] Cons.prems by (cases j) auto
  next
    case (Suc i')
    then obtain j' where "j = Suc j'" "i' \<le> j'" using Cons.prems(3) by (cases j) auto
    then show ?thesis using Suc Cons.IH [OF r, of i' j'] Cons.prems by simp
  qed
qed (simp add: cum_share_def)

text \<open>
  The loop either keeps the ratio or moves it just above the cumulative share of the first flow
  that reaches it, when that share is below \<open>SCALE\<close> times the ratio.
\<close>

lemma snap_ratio_cases:
  obtains (keep) "snap_ratio r acc ps = r"
  | (snap) j where "j < length ps" "r \<le> cum_share acc ps j" "cum_share acc ps j < dmul r SCALE"
      "\<forall>i<j. cum_share acc ps i < r" "snap_ratio r acc ps = dadd (cum_share acc ps j) EPSILON"
proof -
  have "snap_ratio r acc ps = r \<or> (\<exists>j<length ps. r \<le> cum_share acc ps j \<and> cum_share acc ps j < dmul r SCALE
      \<and> (\<forall>i<j. cum_share acc ps i < r) \<and> snap_ratio r acc ps = dadd (cum_share acc ps j) EPSILON)"
  proof (induction ps arbitrary: acc)
    case (Cons p ps)
    show ?case
    proof (cases "r \<le> dadd acc p")
      case True
      then show ?thesis by (auto simp: Let_def intro!: exI [of _ 0])
    next
      case False
      have "\<forall>i<Suc j. cum_share acc (p # ps) i < r" if "\<forall>i<j. cum_share (dadd acc p) ps i < r" for j
        using that False by (auto simp: less_Suc_eq_0_disj)
      note below = this
      from Cons.IH [of "dadd acc p"] show ?thesis
      proof
        assume "\<exists>j<length ps. r \<le> cum_share (dadd acc p) ps j \<and> cum_share (dadd acc p) ps j < dmul r SCALE
          \<and> (\<forall>i<j. cum_share (dadd acc p) ps i < r) \<and> snap_ratio r (dadd acc p) ps = dadd (cum_share (dadd acc p) ps j) EPSILON"
        then obtain j where "j < length ps" "r \<le> cum_share (dadd acc p) ps j" "cum_share (dadd acc p) ps j < dmul r SCALE"
          "\<forall>i<j. cum_share (dadd acc p) ps i < r" "snap_ratio r (dadd acc p) ps = dadd (cum_share (dadd acc p) ps j) EPSILON"
          by blast
        then show ?thesis using False below by (intro disjI2 exI [of _ "Suc j"]) (simp add: Let_def)
      qed (use False in \<open>simp add: Let_def\<close>)
    qed
  qed simp
  then show thesis using keep snap by blast
qed

lemma rnd_error_simple: "\<bar>rnd x - x\<bar> \<le> \<bar>x\<bar> / 2 ^ 53 + 1 / 2 ^ 100"
proof -
  have "1 / 2 ^ 1075 \<le> (1 / 2 ^ 100 :: rat)" by (rule divide_left_mono) (simp_all add: power_increasing)
  with rnd_error_rel [of x] show ?thesis by linarith
qed

lemma bump_arith:
  "t \<le> e - e / 2 ^ 11 \<Longrightarrow> r \<le> t + t / 2 ^ 53 + 1 / 2 ^ 100 \<Longrightarrow> e = 14411519 / 2 ^ 57 \<Longrightarrow> r \<le> e - e / 2 ^ 12"
  for r t e :: rat
  by simp

lemma bump_arith':
  "e - 1 / 2 ^ 52 \<le> d \<Longrightarrow> d - d / 2 ^ 53 - 1 / 2 ^ 100 \<le> r \<Longrightarrow> e = 14411519 / 2 ^ 57 \<Longrightarrow> e - e / 2 ^ 13 \<le> r"
  for r d e :: rat
  by simp

text \<open>A flow whose cumulative share is just below the new ratio is counted as below it.\<close>

lemma is_less_than_bump:
  assumes "0 \<le> a" and "a + EPSILON \<le> 1 - 1 / 2 ^ 10"
  shows "is_less_than a (dadd a EPSILON)"
proof -
  define b where "b = dadd a EPSILON"
  have E: "EPSILON = 14411519 / 2 ^ 57" by (simp add: EPSILON_def)
  have "\<bar>a + EPSILON\<bar> \<le> 1" using assms EPSILON_bounds by simp
  then have "\<bar>b - (a + EPSILON)\<bar> \<le> 1 / 2 ^ 53 + 1 / 2 ^ 100"
    using rnd_error_simple [of "a + EPSILON"] unfolding b_def dadd_def by simp
  moreover have "1 / 2 ^ 53 + 1 / 2 ^ 100 \<le> (1 / 2 ^ 52 :: rat)" by simp
  ultimately have "\<bar>b - (a + EPSILON)\<bar> \<le> 1 / 2 ^ 52" by (rule order_trans)
  then have b: "a + EPSILON - 1 / 2 ^ 52 \<le> b" "b \<le> a + EPSILON + 1 / 2 ^ 52" unfolding abs_le_iff by linarith+
  have ab: "a < b" using b unfolding E by simp
  have lo: "(b - a) - (b - a) / 2 ^ 53 - 1 / 2 ^ 100 \<le> rnd (b - a)" using ab rnd_error_simple [of "b - a"] by (simp add: abs_le_iff)
  have nonneg: "0 \<le> b * EPSILON" using ab assms(1) EPSILON_bounds by simp
  have hi: "rnd (b * EPSILON) \<le> b * EPSILON + b * EPSILON / 2 ^ 53 + 1 / 2 ^ 100"
    using rnd_error_simple [of "b * EPSILON"] unfolding abs_of_nonneg [OF nonneg] abs_le_iff by linarith
  have "b \<le> 1 - 1 / 2 ^ 11" using b(2) assms(2) by simp
  then have "b * EPSILON \<le> (1 - 1 / 2 ^ 11) * EPSILON" using EPSILON_bounds by (intro mult_right_mono) auto
  also have "\<dots> = EPSILON - EPSILON / 2 ^ 11" by (simp add: algebra_simps)
  finally have t: "b * EPSILON \<le> EPSILON - EPSILON / 2 ^ 11" .
  note bump_arith [OF t hi E]
  moreover have d: "EPSILON - 1 / 2 ^ 52 \<le> b - a" using b(1) by simp
  note bump_arith' [OF d lo E]
  moreover have "EPSILON - EPSILON / 2 ^ 12 < EPSILON - EPSILON / 2 ^ 13" using EPSILON_bounds by simp
  ultimately have "rnd (b * EPSILON) < rnd (b - a)" by linarith
  then show ?thesis using ab assms(1) by (simp add: is_less_than_def dsub_def dmul_def b_def [symmetric])
qed

end
