(* ===== verification/Flow_Extract.thy ===== *)
theory Flow_Extract
  imports Epoch
begin

text \<open>
  \<open>DyssectWorkingCore::extract_state\<close> (\<open>dyssectworkingcore.cc\<close>): from the frame of a packet to the
  state of its flow. The flow's key is read from the IP and TCP headers, its shard is the RSS hash
  modulo the number of shards, and the state is found in the shard's table or allocated and
  inserted. The packet leaves with the address of the flow's \<open>global_state\<close> array in its
  annotation, which is what the network functions use (\<open>Flow_Element\<close>).

  \<open>rte_hash_crc\<close>, used with a single receive queue, is the parameter \<open>crc\<close>. \<open>rte_zmalloc\<close> hands out
  the addresses from \<open>heap_top\<close> on; it does not fail here, as the code does not check it.
\<close>

subsection \<open>Headers\<close>

text \<open>\<open>sizeof(click_ether)\<close>; \<open>ip_hl\<close> is the low half of the first byte of the IP header.\<close>

definition ETHER :: nat where "ETHER = 14"

definition ip_hl :: "u8 list \<Rightarrow> nat" where
  "ip_hl fr = unat (fr ! ETHER) mod 16"

definition tcp_offset :: "u8 list \<Rightarrow> nat" where
  "tcp_offset fr = ETHER + ip_hl fr * 4"

text \<open>The bytes the code reads: the fixed part of the IP header and the two ports.\<close>

definition headers_readable :: "u8 list \<Rightarrow> bool" where
  "headers_readable fr \<longleftrightarrow> ETHER + 20 \<le> length fr \<and> tcp_offset fr + 4 \<le> length fr"

definition is_priority :: "u8 list \<Rightarrow> bool" where
  "is_priority fr \<longleftrightarrow> le16 fr (ETHER + 4) = htons 1"

definition ip_len :: "u8 list \<Rightarrow> u32" where
  "ip_len fr = ucast (htons (le16 fr (ETHER + 2)))"

definition header_flow :: "u8 list \<Rightarrow> u32 \<Rightarrow> DyssectFlow" where
  "header_flow fr h = \<lparr>src_port = le16 fr (tcp_offset fr), dst_port = le16 fr (tcp_offset fr + 2),
     src_addr = le32 fr (ETHER + 12), dst_addr = le32 fr (ETHER + 16), hash_value = h\<rparr>"

definition packet_flow :: "(DyssectFlow \<Rightarrow> u32) \<Rightarrow> nat \<Rightarrow> mbuf \<Rightarrow> DyssectFlow" where
  "packet_flow crc nqueues m = (let f = header_flow (frame m) (rss m)
     in if nqueues = 1 then f\<lparr>hash_value := crc f\<rparr> else f)"

subsection \<open>The flow's state\<close>

text \<open>The branch for a flow that is in the table: a new epoch closes the state's byte count.\<close>

definition roll_epoch :: "u32 \<Rightarrow> u32 \<Rightarrow> DyssectState \<Rightarrow> DyssectState" where
  "roll_epoch old_b local_epoch st = (if state_epoch st \<noteq> local_epoch
     then st\<lparr>prob := if old_b \<noteq> 0 \<and> state_epoch st = local_epoch - 1
                     then ddiv (rnd (of_nat (unat (state_bytes st)))) (of_nat (unat old_b)) else 0,
             state_bytes := 0, state_epoch := local_epoch\<rparr>
     else st)"

text \<open>The state is recorded in the shard's active table.\<close>

definition record_flow :: "'t table_ops \<Rightarrow> DyssectFlow \<Rightarrow> addr \<Rightarrow> ('t, 'r) ShardInfo \<Rightarrow> ('t, 'r) ShardInfo" where
  "record_flow T k a i = (if use_2 i then i\<lparr>flows3_2 := table_put T k a (flows3_2 i)\<rparr>
     else i\<lparr>flows3 := table_put T k a (flows3 i)\<rparr>)"

definition touch_known :: "'t table_ops \<Rightarrow> nat \<Rightarrow> addr \<Rightarrow> ('t, 'r) shared \<Rightarrow> ('t, 'r) shared" where
  "touch_known T s a sh = (let st = roll_epoch (old_bytes (shards sh ! s)) (epoch sh) (state_at sh a)
     in upd_shard s (record_flow T (flow st) a) (sh\<lparr>state_at := (state_at sh)(a := st)\<rparr>))"

text \<open>The branch for a new flow.\<close>

definition new_state :: "bool \<Rightarrow> u32 \<Rightarrow> nat \<Rightarrow> bool \<Rightarrow> DyssectFlow \<Rightarrow> addr \<Rightarrow> DyssectState" where
  "new_state solver ep s pr f gs = zero_state\<lparr>global_state := gs, prob := 0, state_shard := s, priority := pr,
     state_epoch := if solver then ep else 0, flow := f\<rparr>"

definition add_flow :: "'t table_ops \<Rightarrow> bool \<Rightarrow> nat \<Rightarrow> bool \<Rightarrow> DyssectFlow \<Rightarrow> ('t, 'r) shared \<Rightarrow> addr \<times> ('t, 'r) shared" where
  "add_flow T solver s pr f sh = (let a = heap_top sh; gs = Suc a in
     (a, upd_shard s (\<lambda>i. i\<lparr>table := table_put T f a (table i)\<rparr>)
        (sh\<lparr>heap_top := Suc gs, slots_at := (slots_at sh)(gs := replicate (sfc_length sh) NoState),
            state_at := (state_at sh)(a := new_state solver (epoch sh) s pr f gs)\<rparr>)))"

text \<open>The counters of the flow and of the shard.\<close>

definition count_packet :: "bool \<Rightarrow> nat \<Rightarrow> u32 \<Rightarrow> addr \<Rightarrow> ('t, 'r) shared \<Rightarrow> ('t, 'r) shared" where
  "count_packet solver s iplen a sh = (let sh' = sh\<lparr>state_at := (state_at sh)(a := (state_at sh a)
       \<lparr>state_bytes := state_bytes (state_at sh a) + ucast iplen\<rparr>)\<rparr>
     in if solver then upd_shard s (\<lambda>i. i\<lparr>shard_bytes := shard_bytes i + iplen, shard_packets := shard_packets i + 1\<rparr>) sh' else sh')"

definition lookup_flow :: "'t table_ops \<Rightarrow> bool \<Rightarrow> nat \<Rightarrow> bool \<Rightarrow> DyssectFlow \<Rightarrow> ('t, 'r) shared \<Rightarrow> addr \<times> ('t, 'r) shared" where
  "lookup_flow T solver s pr f sh = (case table_find T f (table (shards sh ! s)) of
     Some a \<Rightarrow> (a, if \<not> pr \<and> solver then touch_known T s a sh else sh)
   | None \<Rightarrow> add_flow T solver s pr f sh)"

definition extract_state :: "(DyssectFlow \<Rightarrow> u32) \<Rightarrow> 't table_ops \<Rightarrow> bool \<Rightarrow> mbuf \<Rightarrow> ('t, 'r) shared
    \<Rightarrow> (addr \<times> packet \<times> ('t, 'r) shared) outcome" where
  "extract_state crc T solver m sh =
     (if \<not> headers_readable (frame m) then Inl OutOfBounds
      else if total_shards sh = 0 then Inl DivisionByZero
      else let f = packet_flow crc (iqueues sh) m; s = shard_of (total_shards sh) f
           in check_index s (shards sh) (
             let (a, sh1) = lookup_flow T solver s (is_priority (frame m)) f sh;
                 sh2 = count_packet solver s (ip_len (frame m)) a sh1
             in Inr (a, \<lparr>PERFCTR_ANNO = Some (global_state (state_at sh2 a)),
                         tcp_mem = drop (tcp_offset (frame m)) (frame m)\<rparr>, sh2)))"

subsection \<open>The invariant of the flow tables\<close>

text \<open>
  Every entry of a shard's table is a flow of that shard with a state that knows its key and its
  shard, and its own \<open>global_state\<close> array; the flows recorded in this or the last round are among
  them.
\<close>

definition state_ok :: "('t, 'r) shared \<Rightarrow> nat \<Rightarrow> DyssectFlow \<Rightarrow> addr \<Rightarrow> bool" where
  "state_ok sh s k a \<longleftrightarrow> a < heap_top sh \<and> flow (state_at sh a) = k \<and> state_shard (state_at sh a) = s
     \<and> shard_of (total_shards sh) k = s \<and> global_state (state_at sh a) = Suc a \<and> Suc a < heap_top sh
     \<and> length (slots_at sh (Suc a)) = sfc_length sh \<and> 0 \<le> prob (state_at sh a)"

definition flows_ok :: "('t \<Rightarrow> (DyssectFlow \<times> addr) set) \<Rightarrow> DyssectFlow set \<Rightarrow> ('t, 'r) shared \<Rightarrow> bool" where
  "flows_ok ent K sh \<longleftrightarrow> length (shards sh) = total_shards sh \<and> (\<forall>s<total_shards sh.
     fst ` ent (table (shards sh ! s)) \<subseteq> K
     \<and> (\<forall>k a. (k, a) \<in> ent (table (shards sh ! s)) \<longrightarrow> state_ok sh s k a)
     \<and> ent (flows3 (shards sh ! s)) \<subseteq> ent (table (shards sh ! s))
     \<and> ent (flows3_2 (shards sh ! s)) \<subseteq> ent (table (shards sh ! s)))"

lemma flows_okD:
  assumes "flows_ok ent K sh" and "s < total_shards sh"
  shows "fst ` ent (table (shards sh ! s)) \<subseteq> K" "(k, a) \<in> ent (table (shards sh ! s)) \<Longrightarrow> state_ok sh s k a"
    "ent (flows3 (shards sh ! s)) \<subseteq> ent (table (shards sh ! s))" "ent (flows3_2 (shards sh ! s)) \<subseteq> ent (table (shards sh ! s))"
    "length (shards sh) = total_shards sh"
  using assms by (auto simp: flows_ok_def)

lemma flows_ok_tables_ok:
  assumes "flows_ok ent K sh" and "table_ok T K ent"
  shows "tables_ok T sh"
proof -
  have "set (table_entries T t) = ent t" for t using assms(2) by (simp add: table_ok_def)
  moreover have "state_ok sh s k a" if "s < total_shards sh" "(k, a) \<in> ent (table_of b (shards sh ! s))" for s b k a
    using flows_okD(2-4) [OF assms(1) that(1)] that(2) by (cases b) (auto simp: table_of_def)
  ultimately show ?thesis by (auto simp: tables_ok_def state_ok_def)
qed

lemma table_ok_put: "table_ok T K ent \<Longrightarrow> k \<in> K \<Longrightarrow> fst ` ent t \<subseteq> K \<Longrightarrow> ent (table_put T k v t) = {e \<in> ent t. fst e \<noteq> k} \<union> {(k, v)}"
  by (simp add: table_ok_def)

lemma table_ok_find: "table_ok T K ent \<Longrightarrow> k \<in> K \<Longrightarrow> fst ` ent t \<subseteq> K \<Longrightarrow> table_find T k t = Some v \<longleftrightarrow> (k, v) \<in> ent t"
  by (simp add: table_ok_def)

lemma table_ok_fun: "table_ok T K ent \<Longrightarrow> (k, v) \<in> ent t \<Longrightarrow> (k, v') \<in> ent t \<Longrightarrow> v = v'"
proof -
  assume T: "table_ok T K ent" and v: "(k, v) \<in> ent t" "(k, v') \<in> ent t"
  have "set (table_entries T t) = ent t" "distinct (map fst (table_entries T t))" using T by (simp_all add: table_ok_def)
  then show "v = v'" using v eq_key_imp_eq_value [of "table_entries T t" k v v'] by simp
qed

lemma share_nonneg: "0 \<le> ddiv (rnd (of_nat m)) (of_nat n)"
  by (simp add: ddiv_def rnd_nonneg)

text \<open>The entries of the main tables.\<close>

definition known :: "('t \<Rightarrow> (DyssectFlow \<times> addr) set) \<Rightarrow> ('t, 'r) shared \<Rightarrow> nat \<Rightarrow> (DyssectFlow \<times> addr) set" where
  "known ent sh s = ent (table (shards sh ! s))"

lemma touch_known_ok:
  assumes "flows_ok ent K sh" and T: "table_ok T K ent" and s: "s < total_shards sh" and a: "(k, a) \<in> known ent sh s"
  shows "flows_ok ent K (touch_known T s a sh)" and "known ent (touch_known T s a sh) = known ent sh"
proof -
  let ?st = "roll_epoch (old_bytes (shards sh ! s)) (epoch sh) (state_at sh a)"
  let ?sh = "touch_known T s a sh"
  have i: "fst ` ent (table (shards sh ! s)) \<subseteq> K" "state_ok sh s k a" "ent (flows3 (shards sh ! s)) \<subseteq> ent (table (shards sh ! s))"
    "ent (flows3_2 (shards sh ! s)) \<subseteq> ent (table (shards sh ! s))" "length (shards sh) = total_shards sh"
    using assms(1) s a by (auto simp: flows_ok_def known_def)
  have prob: "0 \<le> prob ?st" using i(2) share_nonneg [of "unat (state_bytes (state_at sh a))" "unat (old_bytes (shards sh ! s))"]
    by (auto simp: roll_epoch_def state_ok_def simp del: of_nat_unat)
  have st: "flow ?st = k" "state_shard ?st = s" "global_state ?st = Suc a"
    using i(2) by (simp_all add: roll_epoch_def state_ok_def)
  have at: "shards ?sh ! t = (if t = s then record_flow T k a (shards sh ! s) else shards sh ! t)" for t
    using s i(5) by (simp add: touch_known_def Let_def upd_shard_def nth_list_update st)
  have frame: "heap_top ?sh = heap_top sh" "slots_at ?sh = slots_at sh" "sfc_length ?sh = sfc_length sh" "total_shards ?sh = total_shards sh"
    "length (shards ?sh) = length (shards sh)" "state_at ?sh = (state_at sh)(a := ?st)"
    by (simp_all add: touch_known_def Let_def upd_shard_def)
  have tab: "table (record_flow T k a i) = table i" for i by (simp add: record_flow_def)
  show "known ent ?sh = known ent sh" by (rule ext) (simp add: known_def at tab)
  have ok: "state_ok ?sh t k' a' = state_ok sh t k' a'" for t k' a'
    using st prob i(2) by (auto simp: state_ok_def frame)
  have kK: "k \<in> K" using i(1) a by (force simp: known_def)
  have "fst ` ent (flows3 (shards sh ! s)) \<subseteq> K" "fst ` ent (flows3_2 (shards sh ! s)) \<subseteq> K" using i by blast+
  then have sub: "ent (flows3 (record_flow T k a (shards sh ! s))) \<subseteq> ent (table (shards sh ! s))"
    "ent (flows3_2 (record_flow T k a (shards sh ! s))) \<subseteq> ent (table (shards sh ! s))"
    using i a by (auto simp: record_flow_def table_ok_put [OF T kK] known_def)
  show "flows_ok ent K ?sh"
    using assms(1) sub unfolding flows_ok_def by (auto simp: frame at ok tab)
qed

lemma add_flow_ok:
  assumes "flows_ok ent K sh" and T: "table_ok T K ent" and s: "s < total_shards sh" and kK: "k \<in> K"
    and sk: "shard_of (total_shards sh) k = s" and new: "\<nexists>a. (k, a) \<in> known ent sh s"
    and add: "add_flow T solver s pr k sh = (a, sh')"
  shows "flows_ok ent K sh'" and "known ent sh' t = (if t = s then insert (k, a) (known ent sh s) else known ent sh t)"
proof -
  note i = flows_okD [OF assms(1) s]
  have a: "a = heap_top sh" and at: "shards sh' ! t = (if t = s then (shards sh ! s)\<lparr>table := table_put T k a (table (shards sh ! s))\<rparr> else shards sh ! t)"
    and frame: "heap_top sh' = Suc (Suc a)" "sfc_length sh' = sfc_length sh" "total_shards sh' = total_shards sh"
    "length (shards sh') = length (shards sh)" "slots_at sh' = (slots_at sh)(Suc a := replicate (sfc_length sh) NoState)"
    "state_at sh' = (state_at sh)(a := new_state solver (epoch sh) s pr k (Suc a))" for t
    using add s i(5) by (auto simp: add_flow_def Let_def upd_shard_def nth_list_update)
  have "\<forall>e\<in>ent (table (shards sh ! s)). fst e \<noteq> k" using new by (auto simp: known_def)
  then have ins: "ent (table_put T k a (table (shards sh ! s))) = insert (k, a) (ent (table (shards sh ! s)))"
    by (auto simp: table_ok_put [OF T kK i(1)])
  show "known ent sh' t = (if t = s then insert (k, a) (known ent sh s) else known ent sh t)"
    by (simp add: known_def at ins)
  have new_ok: "state_ok sh' s k a" using sk by (simp add: state_ok_def frame new_state_def zero_state_def)
  have old_ok: "state_ok sh' t k' a'" if "state_ok sh t k' a'" for t k' a'
    using that by (auto simp: state_ok_def frame a)
  show "flows_ok ent K sh'"
    unfolding flows_ok_def frame
  proof (intro conjI allI impI)
    fix t assume t: "t < total_shards sh"
    note it = flows_okD [OF assms(1) t]
    show "fst ` ent (table (shards sh' ! t)) \<subseteq> K" using it(1) kK ins by (auto simp: at)
    show "ent (flows3 (shards sh' ! t)) \<subseteq> ent (table (shards sh' ! t))" "ent (flows3_2 (shards sh' ! t)) \<subseteq> ent (table (shards sh' ! t))"
      using it(3,4) ins by (auto simp: at)
    show "state_ok sh' t k' a'" if "(k', a') \<in> ent (table (shards sh' ! t))" for k' a'
      using that it(2) new_ok old_ok ins by (auto simp: at split: if_splits)
  qed (rule i(5))
qed

lemma count_packet_ok:
  assumes "flows_ok ent K sh" and "s < total_shards sh"
  shows "flows_ok ent K (count_packet solver s n a sh)" and "known ent (count_packet solver s n a sh) = known ent sh"
    and "global_state (state_at (count_packet solver s n a sh) a') = global_state (state_at sh a')"
    and "total_shards (count_packet solver s n a sh) = total_shards sh" "iqueues (count_packet solver s n a sh) = iqueues sh"
proof -
  let ?sh = "count_packet solver s n a sh"
  have at: "table (shards ?sh ! t) = table (shards sh ! t)" "flows3 (shards ?sh ! t) = flows3 (shards sh ! t)"
    "flows3_2 (shards ?sh ! t) = flows3_2 (shards sh ! t)" for t
    using flows_okD(5) [OF assms] assms(2) by (auto simp: count_packet_def Let_def upd_shard_def nth_list_update)
  show frame: "total_shards ?sh = total_shards sh" "iqueues ?sh = iqueues sh" "global_state (state_at ?sh a') = global_state (state_at sh a')" for a'
    by (simp_all add: count_packet_def Let_def upd_shard_def)
  have "length (shards ?sh) = length (shards sh)" "state_ok ?sh t k b \<longleftrightarrow> state_ok sh t k b" for t k b
    by (auto simp: count_packet_def Let_def upd_shard_def state_ok_def)
  then show "flows_ok ent K ?sh" "known ent ?sh = known ent sh"
    using assms(1) by (auto simp: flows_ok_def at frame known_def)
qed

text \<open>
  The effect of one packet of flow \<open>f\<close>: its state is the one known for the flow, or a new one that
  is known from now on; nothing else becomes known or is forgotten.
\<close>

definition flow_of :: "(DyssectFlow \<Rightarrow> u32) \<Rightarrow> ('t, 'r) shared \<Rightarrow> mbuf \<Rightarrow> DyssectFlow" where
  "flow_of crc sh m = packet_flow crc (iqueues sh) m"

definition extractable :: "(DyssectFlow \<Rightarrow> u32) \<Rightarrow> DyssectFlow set \<Rightarrow> ('t, 'r) shared \<Rightarrow> mbuf \<Rightarrow> bool" where
  "extractable crc K sh m \<longleftrightarrow> headers_readable (frame m) \<and> flow_of crc sh m \<in> K"

lemma lookup_flow_ok:
  assumes "flows_ok ent K sh" and T: "table_ok T K ent" and s: "s < total_shards sh" and kK: "k \<in> K"
    and sk: "shard_of (total_shards sh) k = s" and look: "lookup_flow T solver s pr k sh = (a, sh')"
  shows "flows_ok ent K sh' \<and> known ent sh' t = (if t = s then insert (k, a) (known ent sh s) else known ent sh t)
    \<and> total_shards sh' = total_shards sh \<and> iqueues sh' = iqueues sh \<and> sfc_length sh' = sfc_length sh"
proof (cases "table_find T k (table (shards sh ! s))")
  case None
  note i = flows_okD [OF assms(1) s]
  have "\<nexists>a. (k, a) \<in> known ent sh s" using None table_ok_find [OF T kK i(1)] by (auto simp: known_def)
  moreover have add: "add_flow T solver s pr k sh = (a, sh')" using look None by (simp add: lookup_flow_def)
  moreover have "total_shards sh' = total_shards sh" "iqueues sh' = iqueues sh" "sfc_length sh' = sfc_length sh"
    using add by (auto simp: add_flow_def Let_def upd_shard_def)
  ultimately show ?thesis using add_flow_ok [OF assms(1) T s kK sk, of solver pr a sh'] by simp
next
  case (Some b)
  note i = flows_okD [OF assms(1) s]
  have b: "(k, b) \<in> known ent sh s" using Some table_ok_find [OF T kK i(1)] by (simp add: known_def)
  then have ins: "insert (k, b) (known ent sh s) = known ent sh s" by auto
  show ?thesis
  proof (cases "\<not> pr \<and> solver")
    case True
    then have "a = b" "sh' = touch_known T s b sh" using look Some by (auto simp: lookup_flow_def)
    moreover have "total_shards (touch_known T s b sh) = total_shards sh" "iqueues (touch_known T s b sh) = iqueues sh"
      "sfc_length (touch_known T s b sh) = sfc_length sh"
      by (simp_all add: touch_known_def Let_def upd_shard_def)
    ultimately show ?thesis using touch_known_ok [OF assms(1) T s b] ins by simp
  next
    case False
    then have "a = b" "sh' = sh" using look Some by (auto simp: lookup_flow_def)
    then show ?thesis using ins assms(1) by simp
  qed
qed

lemma extract_state_ok:
  assumes "flows_ok ent K sh" and T: "table_ok T K ent" and "0 < total_shards sh" and "extractable crc K sh m"
  shows "\<exists>a p sh'. extract_state crc T solver m sh = Inr (a, p, sh') \<and> flows_ok ent K sh'
    \<and> (\<forall>t. known ent sh' t = (if t = shard_of (total_shards sh) (flow_of crc sh m)
         then insert (flow_of crc sh m, a) (known ent sh t) else known ent sh t))
    \<and> PERFCTR_ANNO p = Some (Suc a) \<and> total_shards sh' = total_shards sh \<and> iqueues sh' = iqueues sh"
proof -
  let ?f = "flow_of crc sh m" and ?s = "shard_of (total_shards sh) (flow_of crc sh m)"
  have s: "?s < total_shards sh" using assms(3) by (simp add: shard_of_def)
  have f: "headers_readable (frame m)" "?f \<in> K" using assms(4) by (auto simp: extractable_def)
  obtain a sh1 where look: "lookup_flow T solver ?s (is_priority (frame m)) ?f sh = (a, sh1)"
    by (cases "lookup_flow T solver ?s (is_priority (frame m)) ?f sh")
  have 1: "flows_ok ent K sh1" "known ent sh1 t = (if t = ?s then insert (?f, a) (known ent sh ?s) else known ent sh t)"
     "total_shards sh1 = total_shards sh" "iqueues sh1 = iqueues sh" for t
    using lookup_flow_ok [OF assms(1) T s f(2) refl look, of t] by simp_all
  have s1: "?s < total_shards sh1" using s 1(3) by simp
  have "(?f, a) \<in> ent (table (shards sh1 ! ?s))" using 1(2) [of ?s] by (simp add: known_def)
  then have "state_ok sh1 ?s ?f a" using flows_okD(2) [OF 1(1) s1] by simp
  then have gs: "global_state (state_at sh1 a) = Suc a" by (simp add: state_ok_def)
  note 2 = count_packet_ok [OF 1(1) s1, of solver "ip_len (frame m)" a]
  have "?s < length (shards sh)" using s flows_okD(5) [OF assms(1) s] by simp
  then have "extract_state crc T solver m sh = Inr (a, \<lparr>PERFCTR_ANNO = Some (Suc a), tcp_mem = drop (tcp_offset (frame m)) (frame m)\<rparr>,
      count_packet solver ?s (ip_len (frame m)) a sh1)"
    using f(1) assms(3) look 2(3) gs by (simp add: extract_state_def Let_def flow_of_def)
  then show ?thesis using 1 2 by auto
qed

subsection \<open>A sequence of packets\<close>

text \<open>
  Packets one after the other, from any workers: each comes with the \<open>_solver\<close> setting of the worker
  that handles it.
\<close>

fun extract_all :: "(DyssectFlow \<Rightarrow> u32) \<Rightarrow> 't table_ops \<Rightarrow> (bool \<times> mbuf) list \<Rightarrow> ('t, 'r) shared
    \<Rightarrow> (packet list \<times> ('t, 'r) shared) outcome" where
  "extract_all crc T [] sh = Inr ([], sh)"
| "extract_all crc T ((b, m) # ms) sh = outcome_bind (extract_state crc T b m sh) (\<lambda>(a, p, sh').
     outcome_bind (extract_all crc T ms sh') (\<lambda>(ps, sh''). Inr (p # ps, sh'')))"

definition flow_tag :: "('t \<Rightarrow> (DyssectFlow \<times> addr) set) \<Rightarrow> ('t, 'r) shared \<Rightarrow> DyssectFlow \<Rightarrow> nat option \<Rightarrow> bool" where
  "flow_tag ent sh f t \<longleftrightarrow> (\<exists>a. t = Some (Suc a) \<and> (f, a) \<in> known ent sh (shard_of (total_shards sh) f))"

lemma extractable_cong: "iqueues sh' = iqueues sh \<Longrightarrow> extractable crc K sh' m = extractable crc K sh m"
  by (simp add: extractable_def flow_of_def)

lemma extract_all_ok:
  assumes "flows_ok ent K sh" and T: "table_ok T K ent" and "0 < total_shards sh" and "\<forall>x\<in>set ms. extractable crc K sh (snd x)"
  shows "\<exists>ps sh'. extract_all crc T ms sh = Inr (ps, sh') \<and> flows_ok ent K sh' \<and> length ps = length ms
    \<and> total_shards sh' = total_shards sh \<and> iqueues sh' = iqueues sh \<and> (\<forall>t. known ent sh t \<subseteq> known ent sh' t)
    \<and> (\<forall>i<length ms. flow_tag ent sh' (flow_of crc sh (snd (ms ! i))) (PERFCTR_ANNO (ps ! i)))"
  using assms(1,3,4)
proof (induction ms arbitrary: sh)
  case (Cons x ms)
  obtain b m where x: "x = (b, m)" by (cases x)
  from extract_state_ok [OF Cons.prems(1) T Cons.prems(2), of crc m b] Cons.prems(3) x
  obtain a p sh1 where 1: "extract_state crc T b m sh = Inr (a, p, sh1)" "flows_ok ent K sh1"
    "\<forall>t. known ent sh1 t = (if t = shard_of (total_shards sh) (flow_of crc sh m)
         then insert (flow_of crc sh m, a) (known ent sh t) else known ent sh t)"
    "PERFCTR_ANNO p = Some (Suc a)" "total_shards sh1 = total_shards sh" "iqueues sh1 = iqueues sh" by auto
  have "\<forall>x\<in>set ms. extractable crc K sh1 (snd x)" using Cons.prems(3) extractable_cong [OF 1(6)] by auto
  with Cons.IH [OF 1(2)] 1(5) Cons.prems(2) obtain ps sh' where 2: "extract_all crc T ms sh1 = Inr (ps, sh')" "flows_ok ent K sh'"
    "length ps = length ms" "total_shards sh' = total_shards sh1" "iqueues sh' = iqueues sh1" "\<forall>t. known ent sh1 t \<subseteq> known ent sh' t"
    "\<forall>i<length ms. flow_tag ent sh' (flow_of crc sh1 (snd (ms ! i))) (PERFCTR_ANNO (ps ! i))" by auto
  have fo: "flow_of crc sh1 = flow_of crc sh" using 1(6) by (intro ext) (simp add: flow_of_def)
  have "(flow_of crc sh m, a) \<in> known ent sh1 (shard_of (total_shards sh) (flow_of crc sh m))" using 1(3) by simp
  then have "(flow_of crc sh m, a) \<in> known ent sh' (shard_of (total_shards sh') (flow_of crc sh m))"
    using 1(5) 2(4,6) by auto
  then have tag: "flow_tag ent sh' (flow_of crc sh m) (PERFCTR_ANNO p)" using 1(4) by (simp add: flow_tag_def)
  have tags: "flow_tag ent sh' (flow_of crc sh (snd ((x # ms) ! i))) (PERFCTR_ANNO ((p # ps) ! i))" if "i < length (x # ms)" for i
    using tag 2(7) that fo x by (cases i) auto
  have sub: "known ent sh t \<subseteq> known ent sh' t" for t
  proof -
    have "known ent sh t \<subseteq> known ent sh1 t" using 1(3) by auto
    then show ?thesis using 2(6) by blast
  qed
  show ?case using 1(1,5,6) 2(1-5) tags sub x by (intro exI [of _ "p # ps"] exI [of _ sh']) simp
qed simp

lemma flow_tag_inj:
  assumes "flows_ok ent K sh" and "table_ok T K ent" and "0 < total_shards sh" and "flow_tag ent sh f t" and "flow_tag ent sh f' t'"
  shows "t = t' \<longleftrightarrow> f = f'"
proof -
  obtain a a' where a: "t = Some (Suc a)" "(f, a) \<in> known ent sh (shard_of (total_shards sh) f)"
    "t' = Some (Suc a')" "(f', a') \<in> known ent sh (shard_of (total_shards sh) f')"
    using assms(4,5) by (auto simp: flow_tag_def)
  have "shard_of (total_shards sh) f < total_shards sh" for f using assms(3) by (simp add: shard_of_def)
  then have "flow (state_at sh a) = f" "flow (state_at sh a') = f'"
    using flows_okD(2) [OF assms(1)] a(2,4) by (auto simp: state_ok_def known_def)
  moreover have "f = f' \<Longrightarrow> a = a'" using table_ok_fun [OF assms(2)] a(2,4) by (simp add: known_def)
  ultimately show ?thesis using a(1,3) by auto
qed

text \<open>
  C13: whatever packets arrive in whatever order, packets of one flow carry the address of one
  \<open>global_state\<close> array and packets of different flows carry different ones, so that the network
  functions keep the flows apart; and no packet with readable headers makes \<open>extract_state\<close> fail.
\<close>

theorem flows_keep_their_state:
  assumes "flows_ok ent K sh" and "table_ok T K ent" and "0 < total_shards sh" and "\<forall>x\<in>set ms. extractable crc K sh (snd x)"
  shows "\<exists>ps sh'. extract_all crc T ms sh = Inr (ps, sh') \<and> length ps = length ms \<and> flows_ok ent K sh'
    \<and> (\<forall>i<length ms. \<forall>j<length ms. PERFCTR_ANNO (ps ! i) = PERFCTR_ANNO (ps ! j)
         \<longleftrightarrow> flow_of crc sh (snd (ms ! i)) = flow_of crc sh (snd (ms ! j)))"
proof -
  from extract_all_ok [OF assms] obtain ps sh' where *: "extract_all crc T ms sh = Inr (ps, sh')" "flows_ok ent K sh'"
    "length ps = length ms" "total_shards sh' = total_shards sh"
    "\<forall>i<length ms. flow_tag ent sh' (flow_of crc sh (snd (ms ! i))) (PERFCTR_ANNO (ps ! i))" by blast
  have "0 < total_shards sh'" using *(4) assms(3) by simp
  from flow_tag_inj [OF *(2) assms(2) this] * show ?thesis by blast
qed

subsection \<open>The shard counters\<close>

definition shard_lens :: "(DyssectFlow \<Rightarrow> u32) \<Rightarrow> ('t, 'r) shared \<Rightarrow> nat \<Rightarrow> (bool \<times> mbuf) list \<Rightarrow> u32 list" where
  "shard_lens crc sh s ms = map (\<lambda>x. ip_len (frame (snd x)))
     (filter (\<lambda>x. fst x \<and> shard_of (total_shards sh) (flow_of crc sh (snd x)) = s) ms)"

lemma extract_state_counters:
  assumes "extract_state crc T b m sh = Inr (a, p, sh')" and "s < total_shards sh"
  shows "shard_bytes (shards sh' ! s) = shard_bytes (shards sh ! s) + sum_list (shard_lens crc sh s [(b, m)])"
    and "shard_packets (shards sh' ! s) = shard_packets (shards sh ! s) + of_nat (length (shard_lens crc sh s [(b, m)]))"
    and "total_shards sh' = total_shards sh" and "iqueues sh' = iqueues sh"
proof -
  let ?f = "flow_of crc sh m"
  let ?s = "shard_of (total_shards sh) ?f"
  obtain sh1 where look: "lookup_flow T b ?s (is_priority (frame m)) ?f sh = (a, sh1)" and s: "?s < length (shards sh)"
    and sh': "sh' = count_packet b ?s (ip_len (frame m)) a sh1"
    using assms(1) by (auto simp: extract_state_def Let_def flow_of_def check_index_Inr split: if_splits prod.splits)
  have 1: "shard_bytes (shards sh1 ! t) = shard_bytes (shards sh ! t) \<and> shard_packets (shards sh1 ! t) = shard_packets (shards sh ! t)
      \<and> length (shards sh1) = length (shards sh) \<and> total_shards sh1 = total_shards sh \<and> iqueues sh1 = iqueues sh" for t
    using look s by (auto simp: lookup_flow_def touch_known_def add_flow_def record_flow_def upd_shard_def Let_def nth_list_update
        split: option.splits if_splits)
  then show "shard_bytes (shards sh' ! s) = shard_bytes (shards sh ! s) + sum_list (shard_lens crc sh s [(b, m)])"
    "shard_packets (shards sh' ! s) = shard_packets (shards sh ! s) + of_nat (length (shard_lens crc sh s [(b, m)]))"
    "total_shards sh' = total_shards sh" "iqueues sh' = iqueues sh"
    using s by (auto simp: sh' count_packet_def Let_def upd_shard_def shard_lens_def nth_list_update)
qed

text \<open>
  C29: the counters of a shard grow by the number and by the sum of the IP lengths of exactly the
  packets of its flows (handled with the solver enabled), modulo 2^32.
\<close>

theorem shard_counters_count:
  assumes "extract_all crc T ms sh = Inr (ps, sh')" and "s < total_shards sh"
  shows "shard_bytes (shards sh' ! s) = shard_bytes (shards sh ! s) + sum_list (shard_lens crc sh s ms)
    \<and> shard_packets (shards sh' ! s) = shard_packets (shards sh ! s) + of_nat (length (shard_lens crc sh s ms))"
  using assms
proof (induction ms arbitrary: sh ps)
  case (Cons x ms)
  obtain b m where x: "x = (b, m)" by (cases x)
  from Cons.prems(1) x obtain a p sh1 ps' where 1: "extract_state crc T b m sh = Inr (a, p, sh1)"
    and 2: "extract_all crc T ms sh1 = Inr (ps', sh')" by (auto simp: outcome_bind_Inr)
  note c = extract_state_counters [OF 1 Cons.prems(2)]
  have "flow_of crc sh1 = flow_of crc sh" using c(4) by (intro ext) (simp add: flow_of_def)
  then have lens: "shard_lens crc sh1 s ms = shard_lens crc sh s ms" using c(3) by (simp add: shard_lens_def)
  have split: "shard_lens crc sh s (x # ms) = shard_lens crc sh s [(b, m)] @ shard_lens crc sh s ms" by (simp add: shard_lens_def x)
  show ?case using Cons.IH [OF 2] Cons.prems(2) c unfolding split by (simp add: lens)
qed (simp add: shard_lens_def)

subsection \<open>Start-up and an example\<close>

lemma configure_flows_ok:
  assumes "configure T R env cfg mem st = Inr (c, sh)" and "table_ok T K ent"
  shows "flows_ok ent K sh"
proof -
  have "ent (table_new T) = {}" using assms(2) by (simp add: table_ok_def)
  then show ?thesis using configure_shards [OF assms(1)] configure_shared_ok [OF assms(1)]
    by (auto simp: flows_ok_def init_shard_def)
qed

lemma configure_iqueues:
  assumes "configure T R env cfg mem st = Inr (c, sh)"
  shows "iqueues sh = arg_W cfg"
proof -
  from assms obtain off new where
    sh: "sh = init_queues R (arg_W cfg) (arg_E cfg) (init_shards T R (arg_W cfg)
       ((configured_shared cfg mem st)\<lparr>offloading_from_working := off, new_offloading_from_working := new\<rparr>))"
    by (rule configure_success)
  show ?thesis
    using init_queues_frame [where E = "arg_E cfg" and W = "arg_W cfg" and R = R and sh = "init_shards T R (arg_W cfg)
       ((configured_shared cfg mem st)\<lparr>offloading_from_working := off, new_offloading_from_working := new\<rparr>)"]
    by (auto simp: sh init_shards_def configured_shared_def Let_def elim!: same_but_ringsE)
qed

text \<open>A frame with a 20-byte IP header of length 40, identification \<open>idn\<close>, and a TCP header from port \<open>sp\<close>.\<close>

definition ex_frame :: "u8 \<Rightarrow> u8 \<Rightarrow> u8 list" where
  "ex_frame idn sp = replicate 12 0 @ [8, 0] @ [0x45, 0, 0, 40, 0, idn, 0, 0, 64, 6, 0, 0, 10, 0, 0, 1, 10, 0, 0, 2]
     @ [0, sp, 0, 80] @ replicate 8 0 @ [0x50] @ replicate 7 0"

definition ex_mbuf :: "nat \<Rightarrow> u32 \<Rightarrow> u8 \<Rightarrow> mbuf" where
  "ex_mbuf n h sp = \<lparr>mbuf_id = n, rss = h, frame = ex_frame 0 sp\<rparr>"

definition ex_crc :: "DyssectFlow \<Rightarrow> u32" where "ex_crc f = 0"

definition ex_packet_flow :: "u16 \<Rightarrow> u32 \<Rightarrow> DyssectFlow" where
  "ex_packet_flow sp h = \<lparr>src_port = sp, dst_port = 20480, src_addr = 16777226, dst_addr = 33554442, hash_value = h\<rparr>"

lemma ex_packet_flow:
  "packet_flow ex_crc 2 (ex_mbuf 0 5 7) = ex_packet_flow 1792 5" "packet_flow ex_crc 2 (ex_mbuf 1 6 8) = ex_packet_flow 2048 6"
  "packet_flow ex_crc 2 (ex_mbuf 2 5 7) = ex_packet_flow 1792 5"
  by (code_simp, code_simp, code_simp)

lemma ex_headers: "headers_readable (frame (ex_mbuf n h sp))"
  by (simp add: headers_readable_def ex_mbuf_def ex_frame_def ETHER_def tcp_offset_def ip_hl_def nth_append)

definition ex_packet_keys :: "DyssectFlow set" where "ex_packet_keys = {ex_packet_flow 1792 5, ex_packet_flow 2048 6}"

lemma ex_packet_keys_ok: "key_set ex_packet_keys"
  by (auto simp: key_set_def ex_packet_keys_def ex_packet_flow_def flow_equal_def zero_flow_def)

definition ex_trace :: "(bool \<times> mbuf) list" where
  "ex_trace = [(True, ex_mbuf 0 5 7), (False, ex_mbuf 1 6 8), (True, ex_mbuf 2 5 7)]"

lemma ex_trace_ok:
  assumes "ex_configure 8 4 2 2 = Inr (c, sh)"
  shows "flows_ok (\<lambda>t. set (AList.clearjunk t)) ex_packet_keys sh" "total_shards sh = 4" "iqueues sh = 2"
    "\<forall>x\<in>set ex_trace. extractable ex_crc ex_packet_keys sh (snd x)"
proof -
  show "flows_ok (\<lambda>t. set (AList.clearjunk t)) ex_packet_keys sh"
    by (rule configure_flows_ok [OF assms list_table_ok [OF ex_packet_keys_ok]])
  show "total_shards sh = 4" using configure_shared_ok [OF assms] by (simp add: ex_config_def)
  show iq: "iqueues sh = 2" using configure_iqueues [OF assms] by (simp add: ex_config_def)
  show "\<forall>x\<in>set ex_trace. extractable ex_crc ex_packet_keys sh (snd x)"
    using iq by (auto simp: ex_trace_def extractable_def flow_of_def ex_headers ex_packet_flow ex_packet_keys_def simp del: One_nat_def)
qed

theorem flows_keep_their_state_witness:
  "\<exists>c sh ps sh'. ex_configure 8 4 2 2 = Inr (c, sh) \<and> extract_all ex_crc list_table_ops ex_trace sh = Inr (ps, sh')
     \<and> PERFCTR_ANNO (ps ! 0) = PERFCTR_ANNO (ps ! 2) \<and> PERFCTR_ANNO (ps ! 0) \<noteq> PERFCTR_ANNO (ps ! 1)"
proof -
  obtain c sh where conf: "ex_configure 8 4 2 2 = Inr (c, sh)" using ex_configure_ok [of 8 2 4 2] by auto
  note ok = ex_trace_ok [OF conf]
  from flows_keep_their_state [OF ok(1) list_table_ok [OF ex_packet_keys_ok] _ ok(4)] ok(2) obtain ps sh' where
    run: "extract_all ex_crc list_table_ops ex_trace sh = Inr (ps, sh')"
    and tags: "\<forall>i<length ex_trace. \<forall>j<length ex_trace. PERFCTR_ANNO (ps ! i) = PERFCTR_ANNO (ps ! j)
         \<longleftrightarrow> flow_of ex_crc sh (snd (ex_trace ! i)) = flow_of ex_crc sh (snd (ex_trace ! j))" by auto
  have "flow_of ex_crc sh (snd (ex_trace ! 0)) = ex_packet_flow 1792 5" "flow_of ex_crc sh (snd (ex_trace ! 1)) = ex_packet_flow 2048 6"
    "flow_of ex_crc sh (snd (ex_trace ! 2)) = ex_packet_flow 1792 5"
    using ok(3) ex_packet_flow by (simp_all add: flow_of_def ex_trace_def del: One_nat_def)
  moreover have "length ex_trace = 3" by (simp add: ex_trace_def)
  ultimately have "PERFCTR_ANNO (ps ! 0) = PERFCTR_ANNO (ps ! 2)" "PERFCTR_ANNO (ps ! 0) \<noteq> PERFCTR_ANNO (ps ! 1)"
    using tags [rule_format, of 0 2] tags [rule_format, of 0 1] by (simp_all add: ex_packet_flow_def)
  then show ?thesis using conf run by blast
qed

theorem shard_counters_count_witness:
  "\<exists>c sh ps sh'. ex_configure 8 4 2 2 = Inr (c, sh) \<and> extract_all ex_crc list_table_ops ex_trace sh = Inr (ps, sh')
     \<and> shard_packets (shards sh' ! 1) = 2 \<and> shard_packets (shards sh' ! 2) = 0"
proof -
  obtain c sh where conf: "ex_configure 8 4 2 2 = Inr (c, sh)" using ex_configure_ok [of 8 2 4 2] by auto
  note ok = ex_trace_ok [OF conf]
  obtain ps sh' where run: "extract_all ex_crc list_table_ops ex_trace sh = Inr (ps, sh')"
    using extract_all_ok [OF ok(1) list_table_ok [OF ex_packet_keys_ok] _ ok(4)] ok(2) by auto
  have "shard_packets (shards sh ! s) = 0" if "s < 4" for s
    using configure_shards [OF conf] that by (simp add: ex_config_def init_shard_def)
  moreover have "length (shard_lens ex_crc sh 1 ex_trace) = 2" "length (shard_lens ex_crc sh 2 ex_trace) = 0"
    using ok(2,3) ex_packet_flow by (simp_all add: shard_lens_def ex_trace_def flow_of_def shard_of_def ex_packet_flow_def del: One_nat_def)
  ultimately show ?thesis
    using shard_counters_count [OF run, of 1] shard_counters_count [OF run, of 2] ok(2) conf run by auto
qed

end
