(* ===== verification/Relationship.thy ===== *)
theory Relationship
  imports Controller_Init
begin

text \<open>
  \<open>update_relationship\<close>: which offloading core serves which working core. The controller keeps
  the relation as a 0/1 matrix \<open>O\<close> with one column per working core; for a new matrix \<open>newO\<close> it
  tells the working core its new offloading core (\<open>new_offloading_from_working\<close>,
  \<open>transfer_offloading\<close>) and the old offloading core to drop the worker's queue
  (\<open>toRemoveQueue\<close>).
\<close>

text \<open>The body of the two nested loops, for worker \<open>w\<close> and offloading core \<open>e\<close>.\<close>

definition relationship_cell :: "'r ring_ops \<Rightarrow> controller \<Rightarrow> nat \<times> nat \<Rightarrow> ('t, 'r) shared \<Rightarrow> ('t, 'r) shared outcome" where
  "relationship_cell R c = (\<lambda>(w, e) sh. let k = e * total_cores c + w in check_index k (mat_O c)
     (if mat_O c ! k = 0 then check_index k (new_O c)
        (if new_O c ! k = 1 then check_index w (offloading_from_working sh) (let off = offloading_from_working sh ! w in
           if off \<noteq> UINT32_MAX \<and> off \<noteq> e
           then check_index w (new_offloading_from_working sh) (check_index w (transfer_offloading sh)
             (Inr (sh\<lparr>new_offloading_from_working := (new_offloading_from_working sh)[w := e],
                     transfer_offloading := (transfer_offloading sh)[w := 1]\<rparr>)))
           else Inr sh)
         else Inr sh)
      else if mat_O c ! k = 1 then check_index k (new_O c)
        (if new_O c ! k = 0 then check_index w (queues sh) (check_index e (toRemoveQueue sh)
             (Inr (enqueue_at R (toRemoveQueue sh ! e) (PRing (queues sh ! w)) sh)))
         else Inr sh)
      else Inr sh))"

definition update_relationship :: "'r ring_ops \<Rightarrow> controller \<Rightarrow> ('t, 'r) shared
    \<Rightarrow> (bool \<times> controller \<times> ('t, 'r) shared) outcome" where
  "update_relationship R c sh =
     (if new_O c = mat_O c then Inr (False, c, sh)
      else outcome_bind (outcome_fold (relationship_cell R c)
             (List.product [0..<total_cores c] [0..<total_cores c]) sh)
        (\<lambda>sh'. Inr (True, c\<lparr>mat_O := new_O c\<rparr>, sh')))"

subsection \<open>What a new relation announces\<close>

definition relates :: "nat list \<Rightarrow> nat \<Rightarrow> nat \<Rightarrow> nat \<Rightarrow> bool" where
  "relates m tc w e \<longleftrightarrow> m ! (e * tc + w) = 1"

text \<open>A relation of \<open>W\<close> working with \<open>E\<close> offloading cores: at most one 1 per column.\<close>

definition relation_ok :: "nat \<Rightarrow> nat \<Rightarrow> nat \<Rightarrow> nat list \<Rightarrow> bool" where
  "relation_ok W E tc m \<longleftrightarrow> length m = tc * tc
     \<and> (\<forall>w<tc. \<forall>e<tc. m ! (e * tc + w) \<le> 1 \<and> (relates m tc w e \<longrightarrow> w < W \<and> e < E)
          \<and> (\<forall>e'<tc. relates m tc w e \<longrightarrow> relates m tc w e' \<longrightarrow> e' = e))"

definition gained :: "controller \<Rightarrow> nat \<Rightarrow> nat \<Rightarrow> bool" where
  "gained c w e \<longleftrightarrow> \<not> relates (mat_O c) (total_cores c) w e \<and> relates (new_O c) (total_cores c) w e"

definition lost :: "controller \<Rightarrow> nat \<Rightarrow> nat \<Rightarrow> bool" where
  "lost c w e \<longleftrightarrow> relates (mat_O c) (total_cores c) w e \<and> \<not> relates (new_O c) (total_cores c) w e"

text \<open>The worker is told only when it is known to have an offloading core, and another one.\<close>

definition announced :: "controller \<Rightarrow> ('t, 'r) shared \<Rightarrow> nat \<Rightarrow> nat \<Rightarrow> bool" where
  "announced c sh w e \<longleftrightarrow> gained c w e \<and> offloading_from_working sh ! w \<noteq> UINT32_MAX
     \<and> offloading_from_working sh ! w \<noteq> e"

definition announce_offloading :: "nat \<Rightarrow> nat \<Rightarrow> ('t, 'r) shared \<Rightarrow> ('t, 'r) shared" where
  "announce_offloading w e sh = sh\<lparr>new_offloading_from_working := (new_offloading_from_working sh)[w := e],
     transfer_offloading := (transfer_offloading sh)[w := 1]\<rparr>"

lemma relationship_cell_ok:
  assumes "relation_ok W E (total_cores c) (mat_O c)" and "relation_ok W E (total_cores c) (new_O c)"
    and "w < total_cores c" and "e < total_cores c" and "length (queues sh) = W" and "length (toRemoveQueue sh) = E"
    and "w < length (offloading_from_working sh)" and "w < length (new_offloading_from_working sh)" and "w < length (transfer_offloading sh)"
  shows "relationship_cell R c (w, e) sh = Inr (
     if announced c sh w e then announce_offloading w e sh
     else if lost c w e then enqueue_at R (toRemoveQueue sh ! e) (PRing (queues sh ! w)) sh else sh)"
proof -
  have "mat_O c ! (e * total_cores c + w) \<le> 1" "new_O c ! (e * total_cores c + w) \<le> 1"
    using assms(1-4) by (auto simp: relation_ok_def)
  then have v: "mat_O c ! (e * total_cores c + w) = 0 \<longleftrightarrow> \<not> relates (mat_O c) (total_cores c) w e"
    "new_O c ! (e * total_cores c + w) = 0 \<longleftrightarrow> \<not> relates (new_O c) (total_cores c) w e"
    by (auto simp: relates_def)
  have k: "e * total_cores c + w < length (mat_O c)" "e * total_cores c + w < length (new_O c)"
    using assms(1-4) flat_index_less [OF assms(4,3)] by (simp_all add: relation_ok_def)
  have "lost c w e \<Longrightarrow> w < W \<and> e < E" using assms(1,3,4) by (auto simp: lost_def relation_ok_def)
  then show ?thesis
    using assms(5-9) k
    by (auto simp: relationship_cell_def Let_def v gained_def lost_def announced_def announce_offloading_def relates_def)
qed

lemma ring_enqueue_ok:
  "ring_ok R cont cap \<Longrightarrow> length (cont q) < cap q \<Longrightarrow>
     cont (snd (ring_enqueue R x q)) = cont q @ [x] \<and> cap (snd (ring_enqueue R x q)) = cap q"
  by (simp add: ring_ok_def)

text \<open>The workers that lose offloading core \<open>e\<close>, in the order the loops visit them.\<close>

definition losers :: "controller \<Rightarrow> nat \<Rightarrow> (nat \<times> nat) list \<Rightarrow> nat list" where
  "losers c e ps = map fst (filter (\<lambda>(w, e'). e' = e \<and> lost c w e) ps)"

lemma losers_append: "losers c e (ps @ [(w, e')]) = losers c e ps @ (if e' = e \<and> lost c w e then [w] else [])"
  by (simp add: losers_def)

lemma losers_product: "e < n \<Longrightarrow> losers c e (List.product ws [0..<n]) = filter (\<lambda>w. lost c w e) ws"
proof (induction ws)
  case (Cons w ws)
  have "filter (\<lambda>(w, e'). e' = e \<and> lost c w e) (map (Pair w) [0..<n]) = (if lost c w e then [(w, e)] else [])"
  proof -
    have "filter (\<lambda>(w, e'). e' = e \<and> lost c w e) (map (Pair w) [0..<n])
      = map (Pair w) (filter (\<lambda>e'. e' = e \<and> lost c w e) [0..<n])" by (simp add: filter_map comp_def)
    moreover have "filter (\<lambda>e'. e' = e \<and> lost c w e) [0..<n] = (if lost c w e then [e] else [])"
      using Cons.prems by (induction n) (auto simp: less_Suc_eq)
    ultimately show ?thesis by simp
  qed
  then show ?case using Cons by (simp add: losers_def)
qed (simp add: losers_def)

definition relation_step :: "'r ring_ops \<Rightarrow> controller \<Rightarrow> nat \<times> nat \<Rightarrow> ('t, 'r) shared \<Rightarrow> ('t, 'r) shared" where
  "relation_step R c = (\<lambda>(w, e) sh. if announced c sh w e then announce_offloading w e sh
     else if lost c w e then enqueue_at R (toRemoveQueue sh ! e) (PRing (queues sh ! w)) sh else sh)"

text \<open>What the loops have done after the pairs \<open>ps\<close>: to the workers' entries, and to the rings.\<close>

definition told :: "controller \<Rightarrow> ('t, 'r) shared \<Rightarrow> (nat \<times> nat) list \<Rightarrow> ('t, 'r) shared \<Rightarrow> bool" where
  "told c sh ps sh' \<longleftrightarrow> length (new_offloading_from_working sh') = length (new_offloading_from_working sh)
     \<and> length (transfer_offloading sh') = length (transfer_offloading sh)
     \<and> (\<forall>w<total_cores c. (\<forall>e. (w, e) \<in> set ps \<longrightarrow> \<not> announced c sh w e) \<longrightarrow>
          new_offloading_from_working sh' ! w = new_offloading_from_working sh ! w
          \<and> transfer_offloading sh' ! w = transfer_offloading sh ! w)
     \<and> (\<forall>w e. (w, e) \<in> set ps \<longrightarrow> announced c sh w e \<longrightarrow>
          new_offloading_from_working sh' ! w = e \<and> transfer_offloading sh' ! w = 1)"

definition dropped :: "('r \<Rightarrow> void_ptr list) \<Rightarrow> ('r \<Rightarrow> nat) \<Rightarrow> controller \<Rightarrow> ('t, 'r) shared \<Rightarrow> (nat \<times> nat) list
    \<Rightarrow> ('t, 'r) shared \<Rightarrow> bool" where
  "dropped cont cap c sh ps sh' \<longleftrightarrow>
     (\<forall>e<length (toRemoveQueue sh).
          cont (ring_at sh' (toRemoveQueue sh ! e))
            = cont (ring_at sh (toRemoveQueue sh ! e)) @ map (\<lambda>w. PRing (queues sh ! w)) (losers c e ps)
          \<and> cap (ring_at sh' (toRemoveQueue sh ! e)) = cap (ring_at sh (toRemoveQueue sh ! e)))
     \<and> (\<forall>p. p \<notin> set (toRemoveQueue sh) \<longrightarrow> ring_at sh' p = ring_at sh p)"

definition only_relation :: "('t, 'r) shared \<Rightarrow> ('t, 'r) shared \<Rightarrow> bool" where
  "only_relation sh sh' \<longleftrightarrow> (\<exists>n t q. sh' = sh\<lparr>new_offloading_from_working := n, transfer_offloading := t, ring_at := q\<rparr>)"

lemma only_relationD:
  assumes "only_relation sh sh'"
  shows "offloading_from_working sh' = offloading_from_working sh" "toRemoveQueue sh' = toRemoveQueue sh"
    "queues sh' = queues sh" "announced c sh' w e = announced c sh w e"
  using assms by (auto simp: only_relation_def announced_def)

lemma announced_not_lost: "announced c sh w e \<Longrightarrow> \<not> lost c w e"
  by (auto simp: announced_def gained_def lost_def)

lemma relation_step_frame: "only_relation sh sh' \<Longrightarrow> only_relation sh (relation_step R c (w, e) sh')"
  unfolding only_relation_def
  by (elim exE, cases sh) (simp add: relation_step_def announce_offloading_def enqueue_at_def set_ring_def)

lemma relation_step_told:
  assumes "only_relation sh sh'" and "told c sh ps sh'"
    and "w < length (new_offloading_from_working sh)" "w < length (transfer_offloading sh)"
    and "\<forall>e'. (w, e') \<in> set ps \<longrightarrow> announced c sh w e \<longrightarrow> \<not> announced c sh w e'"
  shows "told c sh (ps @ [(w, e)]) (relation_step R c (w, e) sh')"
proof (cases "announced c sh w e")
  case True
  then have "relation_step R c (w, e) sh' = announce_offloading w e sh'"
    using only_relationD [OF assms(1)] by (simp add: relation_step_def)
  moreover have "told c sh (ps @ [(w, e)]) (announce_offloading w e sh')"
    using assms True by (auto simp: told_def announce_offloading_def nth_list_update)
  ultimately show ?thesis by simp
next
  case False
  then have "new_offloading_from_working (relation_step R c (w, e) sh') = new_offloading_from_working sh'"
    "transfer_offloading (relation_step R c (w, e) sh') = transfer_offloading sh'"
    using only_relationD [OF assms(1)] by (simp_all add: relation_step_def enqueue_at_def)
  then show ?thesis using assms(2) False by (auto simp: told_def)
qed

lemma relation_step_dropped:
  assumes R: "ring_ok R cont cap" and d: "distinct (toRemoveQueue sh)"
    and "only_relation sh sh'" and dr: "dropped cont cap c sh ps sh'"
    and room: "lost c w e \<Longrightarrow> e < length (toRemoveQueue sh) \<and>
       length (cont (ring_at sh (toRemoveQueue sh ! e))) + length (losers c e ps) < cap (ring_at sh (toRemoveQueue sh ! e))"
  shows "dropped cont cap c sh (ps @ [(w, e)]) (relation_step R c (w, e) sh')"
proof (cases "lost c w e")
  case False
  then have "ring_at (relation_step R c (w, e) sh') = ring_at sh'"
    by (simp add: relation_step_def announce_offloading_def)
  then show ?thesis using dr False by (auto simp: dropped_def losers_append)
next
  case True
  let ?p = "toRemoveQueue sh ! e"
  have step: "ring_at (relation_step R c (w, e) sh')
      = (ring_at sh')(?p := snd (ring_enqueue R (PRing (queues sh ! w)) (ring_at sh' ?p)))"
    using True announced_not_lost only_relationD [OF assms(3)] by (auto simp: relation_step_def enqueue_at_def)
  have "length (cont (ring_at sh' ?p)) < cap (ring_at sh' ?p)"
    using dr room [OF True] by (simp add: dropped_def)
  note enq = ring_enqueue_ok [OF R this, of "PRing (queues sh ! w)"]
  have "toRemoveQueue sh ! i \<noteq> ?p" if "i < length (toRemoveQueue sh)" "i \<noteq> e" for i
    using d room [OF True] that by (simp add: nth_eq_iff_index_eq)
  then show ?thesis using dr enq room [OF True] True by (auto simp: dropped_def losers_append step)
qed

text \<open>The loops as a whole, from the pairs visited one by one.\<close>

lemma losers_bound:
  assumes "distinct ps" and "\<And>w. lost c w e \<Longrightarrow> (w, e) \<in> set ps \<Longrightarrow> w < W"
  shows "length (losers c e ps) \<le> W"
proof -
  have "distinct (losers c e ps)" using assms(1) by (auto simp: losers_def distinct_map inj_on_def)
  moreover have "set (losers c e ps) \<subseteq> {..<W}" using assms(2) by (auto simp: losers_def)
  ultimately show ?thesis by (metis card_lessThan card_mono distinct_card finite_lessThan)
qed

definition relation_pre :: "('r \<Rightarrow> void_ptr list) \<Rightarrow> ('r \<Rightarrow> nat) \<Rightarrow> controller \<Rightarrow> ('t, 'r) shared \<Rightarrow> bool" where
  "relation_pre cont cap c sh \<longleftrightarrow> shared_ok (num_W c) (num_E c) sh \<and> total_cores c = num_W c + num_E c
     \<and> relation_ok (num_W c) (num_E c) (total_cores c) (mat_O c) \<and> relation_ok (num_W c) (num_E c) (total_cores c) (new_O c)
     \<and> distinct (toRemoveQueue sh)
     \<and> (\<forall>e<num_E c. length (cont (ring_at sh (toRemoveQueue sh ! e))) + num_W c \<le> cap (ring_at sh (toRemoveQueue sh ! e)))"

lemma relation_loop:
  assumes R: "ring_ok R cont cap" and pre: "relation_pre cont cap c sh"
    and "distinct ps" and "set ps \<subseteq> {..<total_cores c} \<times> {..<total_cores c}"
  shows "\<exists>sh'. outcome_fold (relationship_cell R c) ps sh = Inr sh' \<and> only_relation sh sh'
    \<and> told c sh ps sh' \<and> dropped cont cap c sh ps sh'"
  using assms(3,4)
proof (induction ps rule: rev_induct)
  case Nil
  have "only_relation sh sh" unfolding only_relation_def by (intro exI [of _ "new_offloading_from_working sh"]
    exI [of _ "transfer_offloading sh"] exI [of _ "ring_at sh"]) simp
  then show ?case by (auto simp: told_def dropped_def losers_def)
next
  case (snoc p ps)
  obtain w e where p: "p = (w, e)" by (cases p)
  from snoc obtain sh' where IH: "outcome_fold (relationship_cell R c) ps sh = Inr sh'" "only_relation sh sh'"
    "told c sh ps sh'" "dropped cont cap c sh ps sh'" by auto
  have we: "w < total_cores c" "e < total_cores c" using snoc.prems(2) p by auto
  have O: "relation_ok (num_W c) (num_E c) (total_cores c) (mat_O c)"
    "relation_ok (num_W c) (num_E c) (total_cores c) (new_O c)" using pre by (auto simp: relation_pre_def)
  have len: "length (queues sh) = num_W c" "length (toRemoveQueue sh) = num_E c"
    "w < length (new_offloading_from_working sh)" "w < length (transfer_offloading sh)"
    using pre we by (auto simp: relation_pre_def shared_ok_def)
  have "w < length (offloading_from_working sh')" "w < length (new_offloading_from_working sh')" "w < length (transfer_offloading sh')"
    using pre we IH(2,3) only_relationD [OF IH(2)] by (auto simp: relation_pre_def shared_ok_def told_def)
  then have cell: "relationship_cell R c (w, e) sh' = Inr (relation_step R c (w, e) sh')"
    using len by (simp add: relationship_cell_ok [OF O we] relation_step_def only_relationD [OF IH(2)])
  have once: "(w, e') \<in> set ps \<Longrightarrow> announced c sh w e \<Longrightarrow> \<not> announced c sh w e'" for e'
  proof -
    assume "(w, e') \<in> set ps" "announced c sh w e"
    moreover have "e' < total_cores c" "e' \<noteq> e" using snoc.prems p \<open>(w, e') \<in> set ps\<close> by auto
    ultimately show ?thesis using O(2) we by (auto simp: announced_def gained_def relation_ok_def)
  qed
  have room: "e < length (toRemoveQueue sh) \<and> length (cont (ring_at sh (toRemoveQueue sh ! e))) + length (losers c e ps)
      < cap (ring_at sh (toRemoveQueue sh ! e))" if l: "lost c w e"
  proof -
    have W: "w' < num_W c \<and> e < num_E c" if "lost c w' e" "w' < total_cores c" for w'
      using O(1) we that by (auto simp: lost_def relation_ok_def)
    have "length (losers c e (ps @ [(w, e)])) \<le> num_W c"
      using snoc.prems p W by (intro losers_bound) auto
    then have "length (losers c e ps) < num_W c" using l by (simp add: losers_append)
    moreover have e: "e < num_E c" using W [OF l] we by simp
    moreover have "length (cont (ring_at sh (toRemoveQueue sh ! e))) + num_W c \<le> cap (ring_at sh (toRemoveQueue sh ! e))"
      using pre e unfolding relation_pre_def by blast
    ultimately show ?thesis using len by linarith
  qed
  have d: "distinct (toRemoveQueue sh)" using pre by (simp add: relation_pre_def)
  have "told c sh (ps @ [(w, e)]) (relation_step R c (w, e) sh')"
    using relation_step_told [OF IH(2,3) len(3,4)] once by blast
  moreover note relation_step_dropped [OF R d IH(2,4) room] relation_step_frame [OF IH(2), of R c w e]
  ultimately show ?case using IH(1) cell by (simp add: outcome_fold_append p)
qed

lemma update_relationship_effect:
  assumes "ring_ok R cont cap" and "relation_pre cont cap c sh"
  shows "\<exists>sh'. update_relationship R c sh = Inr (new_O c \<noteq> mat_O c, c\<lparr>mat_O := new_O c\<rparr>, sh') \<and> only_relation sh sh'
    \<and> (\<forall>w<total_cores c. \<forall>e<total_cores c. announced c sh w e \<longrightarrow>
         new_offloading_from_working sh' ! w = e \<and> transfer_offloading sh' ! w = 1)
    \<and> (\<forall>w<total_cores c. (\<forall>e<total_cores c. \<not> announced c sh w e) \<longrightarrow>
         new_offloading_from_working sh' ! w = new_offloading_from_working sh ! w
         \<and> transfer_offloading sh' ! w = transfer_offloading sh ! w)
    \<and> (\<forall>e<num_E c. cont (ring_at sh' (toRemoveQueue sh ! e)) = cont (ring_at sh (toRemoveQueue sh ! e))
         @ map (\<lambda>w. PRing (queues sh ! w)) (filter (\<lambda>w. lost c w e) [0..<total_cores c]))
    \<and> (\<forall>p. p \<notin> set (toRemoveQueue sh) \<longrightarrow> ring_at sh' p = ring_at sh p)"
proof (cases "new_O c = mat_O c")
  case True
  have "only_relation sh sh" unfolding only_relation_def by (intro exI [of _ "new_offloading_from_working sh"]
    exI [of _ "transfer_offloading sh"] exI [of _ "ring_at sh"]) simp
  then show ?thesis using True
    by (intro exI [of _ sh]) (simp add: update_relationship_def announced_def gained_def lost_def filter_empty_conv)
next
  case False
  let ?ps = "List.product [0..<total_cores c] [0..<total_cores c]"
  have "distinct ?ps" "set ?ps \<subseteq> {..<total_cores c} \<times> {..<total_cores c}" by (auto simp: distinct_product)
  from relation_loop [OF assms this] obtain sh' where sh': "outcome_fold (relationship_cell R c) ?ps sh = Inr sh'"
    "only_relation sh sh'" "told c sh ?ps sh'" "dropped cont cap c sh ?ps sh'" by blast
  have E: "length (toRemoveQueue sh) = num_E c" "num_E c \<le> total_cores c"
    using assms(2) by (auto simp: relation_pre_def shared_ok_def)
  show ?thesis
  proof (intro exI [of _ sh'] conjI)
    show "update_relationship R c sh = Inr (new_O c \<noteq> mat_O c, c\<lparr>mat_O := new_O c\<rparr>, sh')"
      using sh'(1) False by (simp add: update_relationship_def)
    show "\<forall>e<num_E c. cont (ring_at sh' (toRemoveQueue sh ! e)) = cont (ring_at sh (toRemoveQueue sh ! e))
         @ map (\<lambda>w. PRing (queues sh ! w)) (filter (\<lambda>w. lost c w e) [0..<total_cores c])"
      using sh'(4) E by (simp add: dropped_def losers_product)
  qed (use sh' in \<open>auto simp: told_def dropped_def\<close>)
qed


subsection \<open>The relation after start-up\<close>

lemma init_queues_rings:
  assumes R: "ring_ok R cont cap" and "0 < E" and "W \<le> 4095"
  shows "(\<forall>e<E. cont (ring_at (init_queues R W E sh) (ToAdd e)) = map (\<lambda>w. PRing (QueueOf w)) (filter (\<lambda>w. w mod E = e) [0..<W])
       \<and> ring_at (init_queues R W E sh) (ToRemove e) = ring_create R 4096)
    \<and> (\<forall>w<W. ring_at (init_queues R W E sh) (RingOf w) = ring_create R 4096
         \<and> ring_at (init_queues R W E sh) (QueueOf w) = ring_create R 4096)"
proof -
  let ?c = "ring_create R 4096"
  have c: "cont ?c = []" "cap ?c = 4095" using R by (auto simp: ring_ok_def)
  define sh1 where "sh1 = fold (\<lambda>i sh. set_ring (ToRemove i) ?c (set_ring (ToAdd i) ?c sh)) [0..<E]
                (sh\<lparr>toAddQueue := map ToAdd [0..<E], toRemoveQueue := map ToRemove [0..<E]\<rparr>)"
  have 1: "\<forall>e<E. ring_at sh1 (ToAdd e) = ?c \<and> ring_at sh1 (ToRemove e) = ?c"
    unfolding sh1_def by (rule fold_upt_inv [where P = "\<lambda>i sh. \<forall>e<i. ring_at sh (ToAdd e) = ?c \<and> ring_at sh (ToRemove e) = ?c"])
      (auto simp: less_Suc_eq)
  let ?P = "\<lambda>i sh. (\<forall>e<E. cont (ring_at sh (ToAdd e)) = map (\<lambda>w. PRing (QueueOf w)) (filter (\<lambda>w. w mod E = e) [0..<i])
       \<and> cap (ring_at sh (ToAdd e)) = 4095 \<and> ring_at sh (ToRemove e) = ?c)
     \<and> (\<forall>w<i. ring_at sh (RingOf w) = ?c \<and> ring_at sh (QueueOf w) = ?c)"
  let ?f = "\<lambda>i sh. let sh' = set_ring (QueueOf i) ?c (set_ring (RingOf i) ?c sh)
           in if E \<noteq> 0 then enqueue_at R (ToAdd (i mod E)) (PRing (QueueOf i)) sh' else sh'"
  have "?P W (fold ?f [0..<W] (sh1\<lparr>rings := map RingOf [0..<W], queues := map QueueOf [0..<W]\<rparr>))"
  proof (rule fold_upt_inv [where P = ?P])
    show "?P 0 (sh1\<lparr>rings := map RingOf [0..<W], queues := map QueueOf [0..<W]\<rparr>)" using 1 c by simp
  next
    fix i and s :: "('b, 'a) shared" assume i: "i < W" and P: "?P i s"
    have e: "i mod E < E" using assms(2) by simp
    have "length (filter (\<lambda>w. w mod E = i mod E) [0..<i]) \<le> i"
      using length_filter_le [of "\<lambda>w. w mod E = i mod E" "[0..<i]"] by simp
    then have "length (cont (ring_at s (ToAdd (i mod E)))) < cap (ring_at s (ToAdd (i mod E)))"
      using P e i assms(3) by simp
    note enq = ring_enqueue_ok [OF R this, of "PRing (QueueOf i)"]
    show "?P (Suc i) (?f i s)" using P e enq assms(2) by (auto simp: Let_def enqueue_at_def less_Suc_eq)
  qed
  then show ?thesis by (simp add: init_queues_def Let_def sh1_def)
qed

lemma configure_relationship:
  assumes "configure T R env cfg mem st = Inr (c, sh)" and "0 < arg_E cfg"
  shows "relation_ok (arg_W cfg) (arg_E cfg) (total_cores c) (mat_O c)
    \<and> (\<forall>w<total_cores c. \<forall>e<total_cores c. relates (mat_O c) (total_cores c) w e \<longleftrightarrow> w < arg_W cfg \<and> e = w mod arg_E cfg)
    \<and> (\<forall>w<arg_W cfg. offloading_from_working sh ! w = w mod arg_E cfg \<and> new_offloading_from_working sh ! w = UINT32_MAX)
    \<and> toRemoveQueue sh = map ToRemove [0..<arg_E cfg] \<and> toAddQueue sh = map ToAdd [0..<arg_E cfg]
    \<and> queues sh = map QueueOf [0..<arg_W cfg] \<and> rings sh = map RingOf [0..<arg_W cfg]
    \<and> total_cores c = arg_W cfg + arg_E cfg \<and> num_W c = arg_W cfg \<and> num_E c = arg_E cfg"
proof -
  from assms(1) obtain A conf O' off new where
    rel: "first_relationship (arg_W cfg) (arg_E cfg) (arg_W cfg + arg_E cfg)
       (replicate ((arg_W cfg + arg_E cfg) * (arg_W cfg + arg_E cfg)) 0,
        replicate (arg_W cfg + arg_E cfg) 0, replicate (arg_W cfg + arg_E cfg) 0) = (O', off, new)"
    and c: "c = (configured_controller cfg)\<lparr>reta_size := dev_reta_size env, reta_conf := conf, mat_A := A,
      mat_O := O', new_A := A, new_O := O', reta_updates := [conf]\<rparr>"
    and sh: "sh = init_queues R (arg_W cfg) (arg_E cfg) (init_shards T R (arg_W cfg)
       ((configured_shared cfg mem st)\<lparr>offloading_from_working := off, new_offloading_from_working := new\<rparr>))"
    by (rule configure_success)
  note frame = first_relationship_frame [OF assms(2) _ rel refl]
  have "relates O' (arg_W cfg + arg_E cfg) w e \<longleftrightarrow> w < arg_W cfg \<and> e = w mod arg_E cfg"
    if "w < arg_W cfg + arg_E cfg" "e < arg_W cfg + arg_E cfg" for w e
    using frame that by (auto simp: relates_def)
  then show ?thesis
    using frame assms(2) init_queues_frame [where E = "arg_E cfg" and W = "arg_W cfg" and R = R and sh = "init_shards T R (arg_W cfg)
       ((configured_shared cfg mem st)\<lparr>offloading_from_working := off, new_offloading_from_working := new\<rparr>)"]
    by (auto simp: c sh configured_controller_def relation_ok_def init_shards_def configured_shared_def Let_def
        elim!: same_but_ringsE)
qed

lemma configure_rings:
  assumes "configure T R env cfg mem st = Inr (c, sh)" and "ring_ok R cont cap" and "0 < arg_E cfg" and "arg_W cfg \<le> 4095"
  shows "(\<forall>e<arg_E cfg. cont (ring_at sh (ToAdd e)) = map (\<lambda>w. PRing (QueueOf w)) (filter (\<lambda>w. w mod arg_E cfg = e) [0..<arg_W cfg])
       \<and> cont (ring_at sh (ToRemove e)) = [] \<and> cap (ring_at sh (ToRemove e)) = 4095)
    \<and> (\<forall>w<arg_W cfg. cont (ring_at sh (RingOf w)) = [] \<and> cont (ring_at sh (QueueOf w)) = []
       \<and> cap (ring_at sh (RingOf w)) = 4095 \<and> cap (ring_at sh (QueueOf w)) = 4095)"
proof -
  from assms(1) obtain off new where
    sh: "sh = init_queues R (arg_W cfg) (arg_E cfg) (init_shards T R (arg_W cfg)
       ((configured_shared cfg mem st)\<lparr>offloading_from_working := off, new_offloading_from_working := new\<rparr>))"
    by (rule configure_success)
  have "cont (ring_create R 4096) = []" "cap (ring_create R 4096) = 4095" using assms(2) by (auto simp: ring_ok_def)
  then show ?thesis
    using init_queues_rings [OF assms(2,3,4), of "init_shards T R (arg_W cfg)
       ((configured_shared cfg mem st)\<lparr>offloading_from_working := off, new_offloading_from_working := new\<rparr>)"] sh by auto
qed

text \<open>
  After \<open>configure\<close> with offloading cores the three representations of the relation agree: the
  matrix \<open>O\<close>, the array \<open>offloading_from_working\<close> and the queues waiting in each offloading core's
  add ring all say that working core \<open>w\<close> is served by offloading core \<open>w % E\<close>; all packet rings are
  empty.
\<close>

theorem initial_relationship:
  assumes "configure T R env cfg mem st = Inr (c, sh)" and "ring_ok R cont cap" and "0 < arg_E cfg" and "arg_W cfg \<le> 4095"
  shows "\<forall>w<arg_W cfg. \<forall>e<arg_E cfg.
      (relates (mat_O c) (total_cores c) w e \<longleftrightarrow> e = w mod arg_E cfg)
    \<and> (offloading_from_working sh ! w = e \<longleftrightarrow> e = w mod arg_E cfg)
    \<and> (PRing (queues sh ! w) \<in> set (cont (ring_at sh (toAddQueue sh ! e))) \<longleftrightarrow> e = w mod arg_E cfg)
    \<and> cont (ring_at sh (queues sh ! w)) = [] \<and> cont (ring_at sh (rings sh ! w)) = []"
  using configure_relationship [OF assms(1,3)] configure_rings [OF assms] by auto

theorem initial_relationship_witness:
  "\<exists>c sh. ex_configure 8 4 2 2 = Inr (c, sh) \<and> relates (mat_O c) (total_cores c) 1 1
     \<and> PRing (queues sh ! 1) \<in> set (fst (ring_at sh (toAddQueue sh ! 1)))"
proof -
  obtain c sh where conf: "ex_configure 8 4 2 2 = Inr (c, sh)" using ex_configure_ok [of 8 2 4 2] by auto
  then show ?thesis using initial_relationship [OF conf list_ring_ok] by (auto simp: ex_config_def)
qed

text \<open>The example: two working and two offloading cores; worker 0 moves from core 0 to core 1.\<close>

definition ex_relation :: "nat list" where
  "ex_relation = [0, 0, 0, 0, 1, 1, 0, 0, 0, 0, 0, 0, 0, 0, 0, 0]"

lemma less_4: "(w::nat) < 4 \<longleftrightarrow> w = 0 \<or> w = 1 \<or> w = 2 \<or> w = 3"
  by auto

lemma ex_relation_ok: "relation_ok 2 2 4 ex_relation"
  by (auto simp: relation_ok_def relates_def ex_relation_def less_4)

lemma ex_relation_pre:
  assumes "ex_configure 8 4 2 2 = Inr (c, sh)"
  shows "relation_pre fst snd (c\<lparr>new_O := ex_relation\<rparr>) sh \<and> announced (c\<lparr>new_O := ex_relation\<rparr>) sh 0 1"
proof -
  have "\<not> relates (mat_O c) 4 0 1"
    using configure_relationship [OF assms] by (auto simp: ex_config_def)
  then show ?thesis
  using configure_relationship [OF assms] configure_rings [OF assms list_ring_ok] configure_shared_ok [OF assms] ex_relation_ok
  by (auto simp: relation_pre_def ex_config_def announced_def gained_def relates_def ex_relation_def UINT32_MAX_def distinct_map inj_on_def)
qed


end
