(* ===== verification/Short_Epoch.thy ===== *)
theory Short_Epoch
  imports Epoch Relationship
begin

text \<open>
  One round of the controller: \<open>update_short_epoch\<close> and the task that runs it every
  \<open>SHORT_TIME\<close> microseconds. What \<open>run_short_solver\<close> brings back is the parameter \<open>answer\<close>:
  \<open>None\<close> when it returns false, else the new ratios and the new matrices it has read.
\<close>

type_synonym solver_answer = "(double list \<times> nat list \<times> nat list) option"

text \<open>
  What the answer's reads leave in \<open>r_new\<close>, \<open>newA\<close> and \<open>newO\<close>: a ratio that was not read leaves
  \<open>r_new\<close> as it was.
\<close>

definition accept_answer :: "double list \<times> nat list \<times> nat list \<Rightarrow> controller \<Rightarrow> ('t, 'r) shared \<Rightarrow> controller \<times> ('t, 'r) shared" where
  "accept_answer = (\<lambda>(r, A, O') c sh. (c\<lparr>new_A := A, new_O := O'\<rparr>,
     fold (\<lambda>s. upd_shard s (\<lambda>i. if s < length r then i\<lparr>r_new := r ! s\<rparr> else i)) [0..<total_shards sh] sh))"

text \<open>\<open>for(uint32_t i = 0; i < W; i++) rte_atomic32_set(controller_signal[i], 1);\<close>\<close>

definition signal_workers :: "nat \<Rightarrow> ('t, 'r) shared \<Rightarrow> ('t, 'r) shared outcome" where
  "signal_workers W = outcome_fold (\<lambda>i sh. check_index i (controller_signal sh)
     (Inr (sh\<lparr>controller_signal := (controller_signal sh)[i := 1]\<rparr>))) [0..<W]"

text \<open>The part of \<open>update_short_epoch\<close> under \<open>if(ret)\<close>.\<close>

definition apply_solution :: "'r ring_ops \<Rightarrow> controller \<Rightarrow> ('t, 'r) shared \<Rightarrow> (controller \<times> ('t, 'r) shared) outcome" where
  "apply_solution R c sh =
     outcome_bind (update_ratio sh) (\<lambda>(changed_r, sh1).
     outcome_bind (update_relationship R c sh1) (\<lambda>(changed_relationship, c2, sh2).
     outcome_bind (update_shards c2 sh2) (\<lambda>(changed_shards, c3, sh3).
     outcome_bind (if changed_r \<or> changed_relationship \<or> changed_shards then signal_workers (num_W c3) sh3 else Inr sh3)
       (\<lambda>sh4. Inr (c3, sh4)))))"

definition update_short_epoch :: "'r ring_ops \<Rightarrow> 't table_ops \<Rightarrow> ((addr \<Rightarrow> double) \<Rightarrow> addr list \<Rightarrow> addr list)
    \<Rightarrow> bool \<Rightarrow> solver_answer \<Rightarrow> controller \<Rightarrow> ('t, 'r) shared \<Rightarrow> (controller \<times> ('t, 'r) shared) outcome" where
  "update_short_epoch R T srt solver answer c sh =
     (let (c1, sh1) = swap_shards c sh; (c2, sh2) = volume_shards c1 sh1
      in outcome_bind
        (case (if solver then answer else None) of None \<Rightarrow> Inr (c2, sh2)
         | Some a \<Rightarrow> let (c3, sh3) = accept_answer a c2 sh2 in apply_solution R c3 sh3)
        (\<lambda>(c4, sh4). outcome_bind (order_shards T srt c4 (sh4\<lparr>epoch := epoch sh4 + 1\<rparr>))
          (\<lambda>(c5, sh5). outcome_bind (clear_flows T sh5) (\<lambda>sh6. Inr (c5, sh6)))))"

subsection \<open>The task\<close>

text \<open>
  \<open>tsc_to_us\<close>: the cycle counter becomes a double, is scaled and truncated. \<open>run_task\<close> returns
  whether it ran an epoch; the microseconds wrap at \<open>2^64\<close>.
\<close>

definition tsc_to_us :: "nat \<Rightarrow> u64 \<Rightarrow> u64" where
  "tsc_to_us tsc_hz cycles = of_int \<lfloor>ddiv (dmul (rnd (of_nat (unat cycles))) (10 ^ 6)) (rnd (of_nat tsc_hz))\<rfloor>"

definition due :: "u64 \<Rightarrow> controller \<Rightarrow> bool" where
  "due now c \<longleftrightarrow> next_short c < now"

definition controller_run_task :: "'r ring_ops \<Rightarrow> 't table_ops \<Rightarrow> ((addr \<Rightarrow> double) \<Rightarrow> addr list \<Rightarrow> addr list)
    \<Rightarrow> nat \<Rightarrow> u64 \<Rightarrow> solver_answer \<Rightarrow> controller \<Rightarrow> ('t, 'r) shared \<Rightarrow> (bool \<times> controller \<times> ('t, 'r) shared) outcome" where
  "controller_run_task R T srt tsc_hz rdtsc answer c sh =
     (let now = tsc_to_us tsc_hz rdtsc
      in if due now c
         then outcome_bind (update_short_epoch R T srt (use_solver c) answer c sh)
           (\<lambda>(c', sh'). Inr (True, c'\<lparr>next_short := now + of_nat SHORT_TIME\<rparr>, sh'))
         else Inr (False, c, sh))"

subsection \<open>The flows of a shard and what is offloaded\<close>

text \<open>
  C27: \<open>update_ratio\<close>, if every owner has a flag, sets every shard's new ratio from its ordered flows, asks exactly the owners of
  the shards whose new ratio differs from the current one to transfer it, and reports whether there
  is such a shard; the ratios in use change only when the owner takes the new one over.
\<close>

theorem update_ratio_flags_owners:
  assumes "length (shards sh) = total_shards sh" and "\<forall>s<total_shards sh. owner (shards sh ! s) < length (transfer_r sh)"
  shows "\<exists>changed sh'. update_ratio sh = Inr (changed, sh')
    \<and> (changed \<longleftrightarrow> (\<exists>s<total_shards sh. ratio_changes sh s))
    \<and> (\<forall>s<total_shards sh. r_new (shards sh' ! s) = new_ratio sh (shards sh ! s) \<and> shard_r (shards sh' ! s) = shard_r (shards sh ! s))
    \<and> (\<forall>w<length (transfer_r sh). transfer_r sh' ! w =
         (if \<exists>s<total_shards sh. ratio_changes sh s \<and> owner (shards sh ! s) = w then 1 else transfer_r sh ! w))"
  using assms(1) by (auto simp: update_ratio_ok [OF assms] ratio_updated_eq with_new_ratio_def flagged_def)

text \<open>A worker offloads a flow when its stored cumulative share is below the shard's ratio.\<close>

definition below_ratio :: "(addr \<Rightarrow> DyssectState) \<Rightarrow> double \<Rightarrow> addr \<Rightarrow> bool" where
  "below_ratio st r a \<longleftrightarrow> is_less_than (cdf (st a)) r"

lemma ordered_cdf:
  assumes "shard_ordered T sh s st' v" and "j < length v"
  shows "cdf (st' (v ! j)) = cum_share 0 (map (share_of sh) v) j" and "prob2 (st' (v ! j)) = share_of sh (v ! j)"
  using assms by (simp_all add: shard_ordered_def)

lemma offloaded_prefix:
  assumes "\<forall>a\<in>set v. 0 \<le> share_of sh a" and "shard_ordered T sh s st' v"
  shows "i \<le> j \<Longrightarrow> j < length v \<Longrightarrow> below_ratio st' r (v ! j) \<Longrightarrow> below_ratio st' r (v ! i)"
proof -
  assume ij: "i \<le> j" "j < length v" and b: "below_ratio st' r (v ! j)"
  have n: "\<forall>p\<in>set (map (share_of sh) v). 0 \<le> p" using assms(1) by simp
  show ?thesis
    using b is_less_than_antimono [OF _ cum_share_ge [OF rnd_0 n] cum_share_mono [OF rnd_0 n ij(1)]]
      ordered_cdf(1) [OF assms(2)] ij by (auto simp: below_ratio_def)
qed

lemma new_ratio_bound:
  assumes "0 \<le> r"
  shows "snap_ratio r acc ps \<le> max r (dadd (dmul r SCALE) EPSILON)"
proof (cases rule: snap_ratio_cases [where r = r and acc = acc and ps = ps])
  case (snap j)
  then have "dadd (cum_share acc ps j) EPSILON \<le> dadd (dmul r SCALE) EPSILON" by (simp add: dadd_def rnd_mono)
  then show ?thesis using snap by simp
qed simp

lemma snap_ratio_snaps:
  assumes "j < length ps" and "\<forall>i<j. cum_share acc ps i < r" and "r \<le> cum_share acc ps j" and "cum_share acc ps j < dmul r SCALE"
  shows "snap_ratio r acc ps = dadd (cum_share acc ps j) EPSILON"
  using assms
proof (induction ps arbitrary: acc j)
  case (Cons p ps)
  show ?case
  proof (cases j)
    case 0
    then show ?thesis using Cons.prems by (simp add: Let_def)
  next
    case (Suc j')
    then have "dadd acc p < r" "\<forall>i<j'. cum_share (dadd acc p) ps i < r" using Cons.prems(2) by auto
    then show ?thesis using Suc Cons.prems Cons.IH [of j' "dadd acc p"] by (simp add: Let_def)
  qed
qed simp

text \<open>
  C14: the flows of a shard that a ratio offloads are the first ones in decreasing order of their
  shares of the traffic. For a ratio \<open>q\<close> asked by the solver, the ratio \<open>update_ratio\<close> derives
  offloads only flows whose cumulative share is below \<open>q\<close> or \<open>SCALE * q + EPSILON\<close>, and when the
  first flow to reach \<open>q\<close> stays below \<open>SCALE * q\<close> (and below all but a thousandth of the traffic)
  that flow and all before it are offloaded: the share offloaded is not less than asked.
\<close>

theorem ratio_offloads_largest_flows:
  assumes "sort_ok srt" and "table_ok T K ent" and "tables_ok T sh" and "length (shards sh) = total_shards sh"
    and "\<forall>i\<in>set (shards sh). ref_of (\<not> use_2 i) i = 0" and "\<forall>a. 0 \<le> share_of sh a"
    and "order_shards T srt c sh = Inr (c', sh')" and "s < total_shards sh"
    and "0 \<le> q" and "\<not> is_equal_than q 0"
  shows "\<exists>v. v = ordered_flows (shards sh' ! s) \<and> set v = idle_addrs T sh s \<and> distinct v
    \<and> (\<forall>i j r. i \<le> j \<longrightarrow> j < length v \<longrightarrow> share_of sh (v ! j) \<le> share_of sh (v ! i)
         \<and> (below_ratio (state_at sh') r (v ! j) \<longrightarrow> below_ratio (state_at sh') r (v ! i)))
    \<and> (\<forall>j<length v. let r = new_ratio sh' ((shards sh' ! s)\<lparr>r_new := q\<rparr>); cs = (\<lambda>i. cdf (state_at sh' (v ! i)))
       in (below_ratio (state_at sh') r (v ! j) \<longrightarrow> cs j < max q (dadd (dmul q SCALE) EPSILON))
        \<and> ((\<forall>i<j. cs i < q) \<and> q \<le> cs j \<and> cs j < dmul q SCALE \<and> cs j + EPSILON \<le> 1 - 1 / 2 ^ 10
             \<longrightarrow> (\<forall>i\<le>j. below_ratio (state_at sh') r (v ! i))))"
proof -
  from order_shards_ok [OF assms(1-5), of c] assms(7) obtain vs st' where
    sh': "sh' = sh\<lparr>shards := map (\<lambda>s. (shards sh ! s)\<lparr>ordered_flows := vs s\<rparr>) [0..<total_shards sh], state_at := st'\<rparr>"
    and ord: "\<forall>s<total_shards sh. shard_ordered T sh s st' (vs s)" by auto
  let ?v = "vs s"
  let ?ps = "map (share_of sh) ?v"
  let ?r = "new_ratio sh' ((shards sh' ! s)\<lparr>r_new := q\<rparr>)"
  have o: "shard_ordered T sh s st' ?v" using ord assms(8) by simp
  have v: "?v = ordered_flows (shards sh' ! s)" and st: "state_at sh' = st'" using assms(8) by (simp_all add: sh')
  have pos: "\<forall>a\<in>set ?v. 0 \<le> share_of sh a" using assms(6) by simp
  have cs: "cdf (st' (?v ! j)) = cum_share 0 ?ps j" if "j < length ?v" for j using ordered_cdf [OF o that] by simp
  have ps: "map (\<lambda>a. prob2 (st' a)) ?v = ?ps" using ordered_cdf(2) [OF o] by (intro nth_equalityI) auto
  have r: "?r = snap_ratio q 0 ?ps" using assms(10) by (simp add: new_ratio_def v [symmetric] st ps)
  have sorted: "share_of sh (?v ! j) \<le> share_of sh (?v ! i)" if "i \<le> j" "j < length ?v" for i j
    using o that by (cases "i = j") (auto simp: shard_ordered_def sorted_wrt_iff_nth_less)
  note prefix = offloaded_prefix [OF pos o]
  have le: "cdf (st' (?v ! j)) < max q (dadd (dmul q SCALE) EPSILON)" if "below_ratio st' ?r (?v ! j)" for j
    using is_less_than_less [OF that [unfolded below_ratio_def]] new_ratio_bound [OF assms(9), of 0 ?ps] r by linarith
  have reach: "below_ratio st' ?r (?v ! j)"
    if j: "j < length ?v" and below: "\<forall>i<j. cum_share 0 ?ps i < q" "q \<le> cum_share 0 ?ps j" "cum_share 0 ?ps j < dmul q SCALE"
      and small: "cum_share 0 ?ps j + EPSILON \<le> 1 - 1 / 2 ^ 10" for j
  proof -
    have "?r = dadd (cum_share 0 ?ps j) EPSILON" unfolding r using j below by (intro snap_ratio_snaps) auto
    moreover have "0 \<le> cum_share 0 ?ps j" using pos by (intro cum_share_ge) auto
    ultimately show ?thesis using is_less_than_bump [OF _ small] cs [OF j] by (simp add: below_ratio_def)
  qed
  have reach': "below_ratio st' ?r (?v ! i)" if "j < length ?v" "\<forall>i<j. cdf (st' (?v ! i)) < q" "q \<le> cdf (st' (?v ! j))"
    "cdf (st' (?v ! j)) < dmul q SCALE" "cdf (st' (?v ! j)) + EPSILON \<le> 1 - 1 / 2 ^ 10" "i \<le> j" for i j
    using reach [of j] that prefix [OF that(6,1)] cs by simp
  show ?thesis unfolding st Let_def
  proof (intro exI [of _ ?v] conjI allI impI)
    show "set ?v = idle_addrs T sh s" "distinct ?v" using o by (auto simp: shard_ordered_def idle_addrs_def)
  qed (use v sorted prefix le reach' in blast)+
qed

subsection \<open>What the solver's answer leaves alone\<close>

text \<open>The flow tables, the counters and the states: what workers and \<open>order_shards\<close> use.\<close>

definition info_view :: "('t, 'r) ShardInfo \<Rightarrow> bool \<times> 't \<times> 't \<times> 't \<times> u32 \<times> u32 \<times> u32 \<times> u32 \<times> u32 \<times> u32" where
  "info_view i = (use_2 i, flows3 i, flows3_2 i, table i, ref_count_1 i, ref_count_2 i, old_bytes i, old_packets i,
     shard_bytes i, shard_packets i)"

definition flow_view where
  "flow_view sh = (total_shards sh, map info_view (shards sh), state_at sh, epoch sh)"

lemma flow_view_upd:
  "(\<And>i. info_view (f i) = info_view i) \<Longrightarrow> flow_view (upd_shard s f sh) = flow_view sh"
  by (simp add: flow_view_def upd_shard_def map_update list_update_unchanged)
     (metis list_update_id map_update)

lemma flow_view_shards: "flow_view sh' = flow_view sh \<Longrightarrow> s < length (shards sh) \<Longrightarrow> info_view (shards sh' ! s) = info_view (shards sh ! s)"
  by (auto simp: flow_view_def) (metis length_map nth_map)

lemma flow_view_migration: "flow_view (migrated_shard s w b sh) = flow_view sh"
  by (simp add: migrated_shard_def flow_view_upd info_view_def) (simp add: flow_view_def)

lemma flow_view_migrate_cells: "flow_view (migrated_cells b c sh) = flow_view sh"
  unfolding migrated_cells_def by (intro fold_frame) (simp add: flow_view_migration)

lemma flow_view_update_shards: "shards_updated c sh = (r, c', sh') \<Longrightarrow> flow_view sh' = flow_view sh"
  by (auto simp: shards_updated_def Let_def flow_view_migrate_cells split: if_splits)

lemma flow_view_only_relation: "only_relation sh sh' \<Longrightarrow> flow_view sh' = flow_view sh"
  by (auto simp: only_relation_def flow_view_def)

lemma flow_view_update_ratio: "length (shards sh) = total_shards sh \<Longrightarrow> flow_view (snd (ratio_updated sh)) = flow_view sh"
  by (simp add: ratio_updated_eq flow_view_def comp_def info_view_def with_new_ratio_def)

lemma accept_answer_eq:
  assumes "length (shards sh) = total_shards sh"
  shows "accept_answer (r, A, O') c sh = (c\<lparr>new_A := A, new_O := O'\<rparr>,
    sh\<lparr>shards := map (\<lambda>s. (shards sh ! s)\<lparr>r_new := if s < length r then r ! s else r_new (shards sh ! s)\<rparr>) [0..<total_shards sh]\<rparr>)"
  using fold_upd_shard [of "total_shards sh" sh "\<lambda>s i. if s < length r then i\<lparr>r_new := r ! s\<rparr> else i"] assms
  by (auto simp: accept_answer_def intro!: arg_cong [where f = "\<lambda>x. sh\<lparr>shards := x\<rparr>"])

lemma flow_view_accept: "length (shards sh) = total_shards sh \<Longrightarrow> flow_view (snd (accept_answer a c sh)) = flow_view sh"
proof (cases a)
  case (fields r A O')
  assume l: "length (shards sh) = total_shards sh"
  have "map (\<lambda>s. info_view (shards sh ! s)) [0..<total_shards sh] = map info_view (shards sh)"
    by (rule nth_equalityI) (auto simp: l)
  then show ?thesis by (simp add: fields accept_answer_eq l flow_view_def comp_def info_view_def)
qed

subsection \<open>The invariant of the rounds\<close>

definition epoch_inv :: "nat \<Rightarrow> nat \<Rightarrow> controller \<Rightarrow> ('t, 'r) shared \<Rightarrow> bool" where
  "epoch_inv W E c sh \<longleftrightarrow> controller_inv c (total_shards sh) \<and> shared_ok W E sh
     \<and> num_W c = W \<and> num_E c = E \<and> total_cores c = W + E \<and> relation_ok W E (W + E) (mat_O c)"

definition answer_ok :: "nat \<Rightarrow> nat \<Rightarrow> nat \<Rightarrow> double list \<times> nat list \<times> nat list \<Rightarrow> bool" where
  "answer_ok W E ts = (\<lambda>(r, A, O'). assign_ok W (W + E) ts A \<and> relation_ok W E (W + E) O')"

definition offloading_rows :: "nat \<Rightarrow> ('t, 'r) shared \<Rightarrow> bool" where
  "offloading_rows tc sh \<longleftrightarrow> tc \<le> length (offloading_from_working sh) \<and> tc \<le> length (new_offloading_from_working sh)
     \<and> tc \<le> length (transfer_offloading sh)"

lemma relation_cells_total:
  assumes "relation_ok W E (total_cores c) (mat_O c)" and "relation_ok W E (total_cores c) (new_O c)"
    and "length (queues sh) = W" and "length (toRemoveQueue sh) = E" and "offloading_rows (total_cores c) sh"
    and "set ps \<subseteq> {..<total_cores c} \<times> {..<total_cores c}" and "only_relation sh sh1"
    and "length (new_offloading_from_working sh1) = length (new_offloading_from_working sh)"
    and "length (transfer_offloading sh1) = length (transfer_offloading sh)"
  shows "\<exists>sh'. outcome_fold (relationship_cell R c) ps sh1 = Inr sh' \<and> only_relation sh sh'
    \<and> length (new_offloading_from_working sh') = length (new_offloading_from_working sh)
    \<and> length (transfer_offloading sh') = length (transfer_offloading sh)"
proof (rule outcome_fold_keep [where P = "\<lambda>sh'. only_relation sh sh'
    \<and> length (new_offloading_from_working sh') = length (new_offloading_from_working sh)
    \<and> length (transfer_offloading sh') = length (transfer_offloading sh)"])
  fix p sh' assume p: "p \<in> set ps" and sh': "only_relation sh sh'
    \<and> length (new_offloading_from_working sh') = length (new_offloading_from_working sh)
    \<and> length (transfer_offloading sh') = length (transfer_offloading sh)"
  obtain w e where we: "p = (w, e)" "w < total_cores c" "e < total_cores c" using p assms(6) by (cases p) auto
  have "w < length (offloading_from_working sh')" "w < length (new_offloading_from_working sh')" "w < length (transfer_offloading sh')"
    using assms(5) we sh' by (auto simp: offloading_rows_def only_relationD [OF conjunct1 [OF sh']])
  then have "relationship_cell R c (w, e) sh' = Inr (relation_step R c (w, e) sh')"
    using assms(3,4) by (simp add: relationship_cell_ok [OF assms(1,2) we(2,3)] relation_step_def only_relationD [OF conjunct1 [OF sh']])
  moreover have "length (new_offloading_from_working (relation_step R c (w, e) sh')) = length (new_offloading_from_working sh')"
    "length (transfer_offloading (relation_step R c (w, e) sh')) = length (transfer_offloading sh')"
    by (simp_all add: relation_step_def announce_offloading_def enqueue_at_def)
  ultimately show "\<exists>s'. relationship_cell R c p sh' = Inr s' \<and> only_relation sh s'
    \<and> length (new_offloading_from_working s') = length (new_offloading_from_working sh)
    \<and> length (transfer_offloading s') = length (transfer_offloading sh)"
    using sh' relation_step_frame [of sh sh' R c w e] by (simp add: we(1))
qed (use assms(7-9) in simp)

lemma only_relation_refl: "only_relation sh sh"
  unfolding only_relation_def by (intro exI [of _ "new_offloading_from_working sh"]
    exI [of _ "transfer_offloading sh"] exI [of _ "ring_at sh"]) simp

lemma update_relationship_total:
  assumes "relation_ok W E (total_cores c) (mat_O c)" and "relation_ok W E (total_cores c) (new_O c)"
    and "length (queues sh) = W" and "length (toRemoveQueue sh) = E" and "offloading_rows (total_cores c) sh"
  shows "\<exists>b sh'. update_relationship R c sh = Inr (b, c\<lparr>mat_O := new_O c\<rparr>, sh') \<and> only_relation sh sh'
    \<and> length (new_offloading_from_working sh') = length (new_offloading_from_working sh)
    \<and> length (transfer_offloading sh') = length (transfer_offloading sh)"
proof (cases "new_O c = mat_O c")
  case True
  then show ?thesis using only_relation_refl by (auto simp: update_relationship_def)
next
  case False
  have "set (List.product [0..<total_cores c] [0..<total_cores c]) \<subseteq> {..<total_cores c} \<times> {..<total_cores c}" by auto
  from relation_cells_total [OF assms this only_relation_refl refl refl, of R] False show ?thesis
    by (auto simp: update_relationship_def)
qed

lemma shared_ok_relation:
  "only_relation sh sh' \<Longrightarrow> length (new_offloading_from_working sh') = length (new_offloading_from_working sh) \<Longrightarrow>
   length (transfer_offloading sh') = length (transfer_offloading sh) \<Longrightarrow> shared_ok W E sh' \<longleftrightarrow> shared_ok W E sh"
  by (auto simp: only_relation_def shared_ok_def)

lemma signal_workers_ok:
  assumes "W \<le> length (controller_signal sh)"
  shows "\<exists>cs. signal_workers W sh = Inr (sh\<lparr>controller_signal := cs\<rparr>) \<and> length cs = length (controller_signal sh)
    \<and> (\<forall>i<length (controller_signal sh). cs ! i = (if i < W then 1 else controller_signal sh ! i))"
  unfolding signal_workers_def using assms
proof (induction W)
  case 0
  then show ?case by (simp add: exI [of _ "controller_signal sh"])
next
  case (Suc n)
  then obtain cs where "outcome_fold (\<lambda>i sh. check_index i (controller_signal sh)
     (Inr (sh\<lparr>controller_signal := (controller_signal sh)[i := 1]\<rparr>))) [0..<n] sh = Inr (sh\<lparr>controller_signal := cs\<rparr>)"
    "length cs = length (controller_signal sh)" "\<forall>i<length (controller_signal sh). cs ! i = (if i < n then 1 else controller_signal sh ! i)"
    by auto
  then show ?case using Suc.prems by (intro exI [of _ "cs[n := 1]"]) (auto simp: outcome_fold_append nth_list_update)
qed

lemma apply_solution_ok:
  assumes "epoch_inv W E c0 sh" and "c = c0\<lparr>new_A := A, new_O := O'\<rparr>" and "answer_ok W E (total_shards sh) (r, A, O')"
  shows "\<exists>c' sh'. apply_solution R c sh = Inr (c', sh') \<and> epoch_inv W E c' sh' \<and> flow_view sh' = flow_view sh
    \<and> mat_A c' = A \<and> mat_O c' = O'"
proof -
  have len: "length (shards sh) = total_shards sh" and so: "shared_ok W E sh" and inv: "controller_inv c (total_shards sh)"
    and dims: "num_W c = W" "num_E c = E" "total_cores c = W + E" and O: "relation_ok W E (W + E) (mat_O c)"
    and newO: "relation_ok W E (W + E) (new_O c)" and newA: "assign_ok W (W + E) (total_shards sh) (new_A c)"
    using assms by (auto simp: epoch_inv_def answer_ok_def shared_ok_def controller_inv_def)
  obtain ch sh1 where rs: "ratio_updated sh = (ch, sh1)" by (cases "ratio_updated sh")
  have ur: "update_ratio sh = Inr (ch, sh1)" using update_ratio_ok [OF len] so rs by (force simp: shared_ok_def)
  have so1: "shared_ok W E sh1" using rs so ratio_updated_eq [OF len]
    by (auto simp: shared_ok_def with_new_ratio_def flagged_def)
  have v1: "flow_view sh1 = flow_view sh" using flow_view_update_ratio [OF len] rs by simp
  then have ts1: "total_shards sh1 = total_shards sh" by (simp add: flow_view_def)
  have "length (queues sh1) = W" "length (toRemoveQueue sh1) = E" "offloading_rows (total_cores c) sh1"
    using so1 dims by (auto simp: shared_ok_def offloading_rows_def)
  with update_relationship_total [of W E c sh1 R] O newO dims obtain b sh2 where
    rel: "update_relationship R c sh1 = Inr (b, c\<lparr>mat_O := new_O c\<rparr>, sh2)" and 2: "only_relation sh1 sh2"
    "length (new_offloading_from_working sh2) = length (new_offloading_from_working sh1)"
    "length (transfer_offloading sh2) = length (transfer_offloading sh1)" by auto
  have so2: "shared_ok W E sh2" using shared_ok_relation [OF 2] so1 by simp
  have v2: "flow_view sh2 = flow_view sh" using flow_view_only_relation [OF 2(1)] v1 by simp
  then have ts2: "total_shards sh2 = total_shards sh" by (simp add: flow_view_def)
  let ?c2 = "c\<lparr>mat_O := new_O c\<rparr>"
  have inv2: "controller_inv ?c2 (total_shards sh2)" using inv ts2 by (simp add: controller_inv_def)
  have len2: "length (new_A ?c2) = total_shards sh2 * total_cores ?c2" using newA dims ts2 by (simp add: assign_ok_def)
  obtain b3 c3 sh3 where up: "shards_updated ?c2 sh2 = (b3, c3, sh3)" by (cases "shards_updated ?c2 sh2")
  then have us: "update_shards ?c2 sh2 = Inr (b3, c3, sh3)"
    using update_shards_ok [OF inv2 len2 shared_ok_flagged [OF so2]] by simp
  then have "apply_answer (new_A ?c2) (?c2, sh2) = Inr (c3, sh3)" by (simp add: apply_answer_def)
  then have 3: "controller_inv c3 (total_shards sh3)" "mat_A c3 = new_A c" "shared_ok W E sh3" "num_W c3 = W" "num_E c3 = E"
    "total_cores c3 = W + E"
    using apply_answer_inv [OF inv2, of "new_A ?c2"] newA dims ts2 so2 by auto
  have O3: "mat_O c3 = new_O c" using up by (auto simp: shards_updated_def Let_def frame_simps split: if_splits)
  have v3: "flow_view sh3 = flow_view sh" using flow_view_update_shards [OF up] v2 by simp
  obtain cs where sig: "signal_workers W sh3 = Inr (sh3\<lparr>controller_signal := cs\<rparr>)" "length cs = length (controller_signal sh3)"
    using signal_workers_ok [of W sh3] 3 by (auto simp: shared_ok_def)
  let ?sh4 = "sh3\<lparr>controller_signal := cs\<rparr>"
  have 4: "epoch_inv W E c3 sh3" "epoch_inv W E c3 ?sh4" "flow_view ?sh4 = flow_view sh"
    using 3 O3 newO v3 sig by (simp_all add: epoch_inv_def shared_ok_def flow_view_def)
  show ?thesis
    using ur rel us 3 4 v3 O3 assms(2) sig
    by (auto simp: apply_solution_def)
qed

subsection \<open>A round\<close>

lemma epoch_inv_swap:
  assumes "epoch_inv W E c sh" and "swap_shards c sh = (c1, sh1)" and "volume_shards c1 sh1 = (c2, sh2)"
  shows "epoch_inv W E c2 sh2 \<and> total_shards sh2 = total_shards sh \<and> state_at sh2 = state_at sh \<and> epoch sh2 = epoch sh
    \<and> map info_view (shards sh2) = map (\<lambda>i. info_view (swap_shard (i\<lparr>use_2 := \<not> use_2 i\<rparr>))) (shards sh)"
proof -
  have len: "length (shards sh) = total_shards sh" using assms(1) by (simp add: epoch_inv_def shared_ok_def)
  have 1: "c1 = c\<lparr>last_totalpackets := total_packets c, total_bytes := sum_list (map shard_bytes (shards sh)),
       total_packets := sum_list (map shard_packets (shards sh))\<rparr>"
     "sh1 = sh\<lparr>shards := map (\<lambda>i. swap_shard (i\<lparr>use_2 := \<not> use_2 i\<rparr>)) (shards sh)\<rparr>"
    using assms(2) swap_shards_eq [OF len] by auto
  have len1: "length (shards sh1) = total_shards sh1" using 1 len by simp
  have "\<exists>tr tp f. c2 = c1\<lparr>Tr := tr, Tp := tp\<rparr> \<and> sh2 = sh1\<lparr>shards := map (\<lambda>i. i\<lparr>shard_V := f i\<rparr>) (shards sh1)\<rparr>"
  proof (cases "last_totalpackets c1 = 0 \<or> total_packets c1 = 0")
    case True
    have "c2 = c1\<lparr>Tr := Tr c1, Tp := Tp c1\<rparr>" using assms(3) True by (auto simp: volume_shards_def split: if_splits)
    moreover have "sh2 = sh1\<lparr>shards := map (\<lambda>i. i\<lparr>shard_V := if last_totalpackets c1 = 0 then shard_V i else 0\<rparr>) (shards sh1)\<rparr>"
      using assms(3) True fold_upd_all [OF len1] by (auto simp: volume_shards_def split: if_splits)
    ultimately show ?thesis
      by (intro exI [of _ "Tr c1"] exI [of _ "Tp c1"] exI [of _ "\<lambda>i. if last_totalpackets c1 = 0 then shard_V i else 0"] conjI)
  next
    case False
    then have "c2 = c1\<lparr>Tr := processingtime_r (total_flows c1) (num_W c1), Tp := processingtime_p (total_flows c1) (num_W c1)\<rparr>"
      "sh2 = sh1\<lparr>shards := map (\<lambda>i. i\<lparr>shard_V := shard_volume (Tp c2) (old_packets i)\<rparr>) (shards sh1)\<rparr>"
      using assms(3) fold_upd_all [OF len1] by (auto simp: volume_shards_def Let_def)
    then show ?thesis
      by (intro exI [of _ "processingtime_r (total_flows c1) (num_W c1)"] exI [of _ "processingtime_p (total_flows c1) (num_W c1)"]
          exI [of _ "\<lambda>i. shard_volume (Tp c2) (old_packets i)"] conjI)
  qed
  then show ?thesis using assms(1) 1
    by (auto simp: epoch_inv_def shared_ok_def controller_inv_def swap_shard_def info_view_def)
qed

text \<open>The tables after a round, from those before.\<close>

definition round_done :: "'t table_ops \<Rightarrow> ('t \<Rightarrow> (DyssectFlow \<times> addr) set) \<Rightarrow> ('t, 'r) shared \<Rightarrow> ('t, 'r) shared \<Rightarrow> bool" where
  "round_done T ent sh sh' \<longleftrightarrow> epoch sh' = epoch sh + 1 \<and> total_shards sh' = total_shards sh
     \<and> (\<forall>s<total_shards sh. let i = shards sh ! s; i' = shards sh' ! s; v = ordered_flows i' in
          active_table i' = idle_table i \<and> ent (idle_table i') = {}
        \<and> distinct v \<and> set v = snd ` ent (active_table i)
        \<and> sorted_wrt (\<lambda>a b. share_of sh b \<le> share_of sh a) v
        \<and> (\<forall>j<length v. prob2 (state_at sh' (v ! j)) = share_of sh (v ! j)
             \<and> cdf (state_at sh' (v ! j)) = cum_share 0 (map (share_of sh) v) j)
        \<and> old_bytes i' = shard_bytes i \<and> shard_bytes i' = 0 \<and> old_packets i' = shard_packets i \<and> shard_packets i' = 0)
     \<and> (\<forall>a. \<exists>p q. state_at sh' a = (state_at sh a)\<lparr>prob2 := p, cdf := q\<rparr>)"

lemma nth_info_view: "map info_view xs = map f ys \<Longrightarrow> s < length ys \<Longrightarrow> info_view (xs ! s) = f (ys ! s)"
  by (metis length_map nth_map)

lemma short_epoch_ok:
  assumes "epoch_inv W E c sh" and "tables_ok T sh" and T: "table_ok T K ent" and "sort_ok srt"
    and "\<forall>i\<in>set (shards sh). ref_count_1 i = 0 \<and> ref_count_2 i = 0"
    and "\<forall>a. answer = Some a \<longrightarrow> answer_ok W E (total_shards sh) a"
  shows "\<exists>c' sh'. update_short_epoch R T srt solver answer c sh = Inr (c', sh') \<and> epoch_inv W E c' sh' \<and> tables_ok T sh'
    \<and> round_done T ent sh sh' \<and> (\<forall>i\<in>set (shards sh'). ref_count_1 i = 0 \<and> ref_count_2 i = 0)
    \<and> total_flows c' = of_nat (\<Sum>s<total_shards sh. card (ent (active_table (shards sh ! s))))"
proof -
  obtain c1 sh1 where 1: "swap_shards c sh = (c1, sh1)" by (cases "swap_shards c sh")
  obtain c2 sh2 where 2: "volume_shards c1 sh1 = (c2, sh2)" by (cases "volume_shards c1 sh1")
  note s2 = epoch_inv_swap [OF assms(1) 1 2]
  let ?ts = "total_shards sh"
  let ?inner = "case (if solver then answer else None) of None \<Rightarrow> Inr (c2, sh2)
         | Some a \<Rightarrow> let (c3, sh3) = accept_answer a c2 sh2 in apply_solution R c3 sh3"
  have "\<exists>c4 sh4. ?inner = Inr (c4, sh4) \<and> epoch_inv W E c4 sh4 \<and> flow_view sh4 = flow_view sh2"
  proof (cases "if solver then answer else None")
    case None
    then show ?thesis using s2 by simp
  next
    case (Some a)
    obtain r A O' where a: "a = (r, A, O')" by (cases a)
    have ok: "answer_ok W E (total_shards sh2) (r, A, O')" using assms(6) Some s2 a by (auto split: if_splits)
    have len2: "length (shards sh2) = total_shards sh2" using s2 by (simp add: epoch_inv_def shared_ok_def)
    obtain c3 sh3 where 3: "accept_answer a c2 sh2 = (c3, sh3)" by (cases "accept_answer a c2 sh2")
    have c3: "c3 = c2\<lparr>new_A := A, new_O := O'\<rparr>" and sh3: "epoch_inv W E c2 sh3" "total_shards sh3 = total_shards sh2"
      using 3 s2 len2 by (auto simp: a accept_answer_eq epoch_inv_def shared_ok_def)
    have "flow_view sh3 = flow_view sh2" using flow_view_accept [OF len2, of a c2] 3 by simp
    with apply_solution_ok [OF sh3(1) c3, of r R] ok sh3(2) 3 Some show ?thesis by auto
  qed
  then obtain c4 sh4 where inner: "?inner = Inr (c4, sh4)" and inv4: "epoch_inv W E c4 sh4" and v4: "flow_view sh4 = flow_view sh2" by blast
  let ?sh4 = "sh4\<lparr>epoch := epoch sh4 + 1\<rparr>"
  have ts4: "total_shards sh4 = ?ts" and st4: "state_at sh4 = state_at sh" and ep4: "epoch sh4 = epoch sh"
    and view4: "map info_view (shards sh4) = map (\<lambda>i. info_view (swap_shard (i\<lparr>use_2 := \<not> use_2 i\<rparr>))) (shards sh)"
    using v4 s2 by (auto simp: flow_view_def)
  have len: "length (shards sh) = ?ts" "length (shards sh4) = ?ts"
    using assms(1) inv4 ts4 by (auto simp: epoch_inv_def shared_ok_def)
  have i4: "info_view (shards sh4 ! s) = info_view (swap_shard ((shards sh ! s)\<lparr>use_2 := \<not> use_2 (shards sh ! s)\<rparr>))" if "s < ?ts" for s
    using nth_info_view [OF view4] that len by simp
  have ref4: "ref_count_1 (shards sh4 ! s) = 0 \<and> ref_count_2 (shards sh4 ! s) = 0" if "s < ?ts" for s
    using i4 [OF that] assms(5) that len by (simp add: info_view_def swap_shard_def)
  then have refs4: "\<forall>i\<in>set (shards ?sh4). ref_of (\<not> use_2 i) i = 0"
    by (auto simp: in_set_conv_nth len ref_of_def)
  have tab: "table_of b (shards sh4 ! s) = table_of b (shards sh ! s)" if "s < ?ts" for s b
    using i4 [OF that] by (simp add: table_of_def info_view_def swap_shard_def)
  have idle4: "idle_table (shards sh4 ! s) = active_table (shards sh ! s)" if "s < ?ts" for s
    using i4 [OF that] by (simp add: idle_table_def active_table_def table_of_def info_view_def swap_shard_def)
  have "tables_ok T ?sh4" using assms(2) tab by (auto simp: tables_ok_def ts4 st4)
  from order_shards_ok [OF assms(4) T this _ refs4, of c4] len obtain vs st' where
    ord: "order_shards T srt c4 ?sh4 = Inr (c4\<lparr>total_flows := of_nat (\<Sum>s<?ts. length (vs s))\<rparr>,
      ?sh4\<lparr>shards := map (\<lambda>s. (shards sh4 ! s)\<lparr>ordered_flows := vs s\<rparr>) [0..<?ts], state_at := st'\<rparr>)"
    and so: "\<forall>s<?ts. shard_ordered T ?sh4 s st' (vs s)"
    and rest: "\<forall>a. (\<forall>s<?ts. a \<notin> set (vs s)) \<longrightarrow> st' a = state_at sh a"
    by (auto simp: ts4 st4)
  let ?sh5 = "?sh4\<lparr>shards := map (\<lambda>s. (shards sh4 ! s)\<lparr>ordered_flows := vs s\<rparr>) [0..<?ts], state_at := st'\<rparr>"
  let ?sh6 = "?sh5\<lparr>shards := map (clear_idle T) (shards ?sh5)\<rparr>"
  have clear: "clear_flows T ?sh5 = Inr ?sh6"
    by (rule clear_flows_eq) (use ref4 in \<open>auto simp: ts4 ref_of_def\<close>)
  let ?c6 = "c4\<lparr>total_flows := of_nat (\<Sum>s<?ts. length (vs s))\<rparr>"
  have run: "update_short_epoch R T srt solver answer c sh = Inr (?c6, ?sh6)"
    using inner ord clear by (simp add: update_short_epoch_def 1 2)
  have inv6: "epoch_inv W E ?c6 ?sh6" using inv4 by (auto simp: epoch_inv_def shared_ok_def controller_inv_def clear_idle_def ts4)
  have at6: "shards ?sh6 ! s = clear_idle T ((shards sh4 ! s)\<lparr>ordered_flows := vs s\<rparr>)" if "s < ?ts" for s using that by simp
  have tab6: "table_of b (shards ?sh6 ! s) = (if b = use_2 (shards sh4 ! s) then table_of b (shards sh ! s) else table_clear T (table_of b (shards sh ! s)))"
    if "s < ?ts" for s b
    unfolding at6 [OF that] tab [OF that, of b, symmetric] by (cases b) (auto simp: table_of_def clear_idle_def)
  have memory: "\<exists>p q. st' a = (state_at sh a)\<lparr>prob2 := p, cdf := q\<rparr>" for a
  proof (cases "\<exists>s<?ts. a \<in> set (vs s)")
    case True
    then obtain s j where s: "s < ?ts" "j < length (vs s)" "a = vs s ! j" by (auto simp: in_set_conv_nth)
    then have "st' a = (state_at sh a)\<lparr>prob2 := share_of ?sh4 a, cdf := cum_share 0 (map (share_of ?sh4) (vs s)) j\<rparr>"
      using so by (auto simp: shard_ordered_def st4)
    then show ?thesis by blast
  next
    case False
    then have "st' a = (state_at sh a)\<lparr>prob2 := prob2 (state_at sh a), cdf := cdf (state_at sh a)\<rparr>" using rest by simp
    then show ?thesis by blast
  qed
  then have keep: "flow (st' a) = flow (state_at sh a)" "state_shard (st' a) = state_shard (state_at sh a)" for a
    by (metis DyssectState.ext_inject DyssectState.surjective DyssectState.update_convs(1) DyssectState.update_convs(3))+
  have ent: "set (table_entries T t) = ent t" "ent (table_clear T t) = {}" for t using T by (auto simp: table_ok_def)
  have tables6: "tables_ok T ?sh6"
    using assms(2) tab6 keep ent by (auto simp: tables_ok_def ts4 split: if_splits)
  have act: "active_table (shards ?sh6 ! s) = idle_table (shards sh ! s)" "ent (idle_table (shards ?sh6 ! s)) = {}" if "s < ?ts" for s
  proof -
    have u: "use_2 (shards sh4 ! s) \<longleftrightarrow> \<not> use_2 (shards sh ! s)" using i4 [OF that] by (simp add: info_view_def swap_shard_def)
    have u6: "use_2 (shards ?sh6 ! s) = use_2 (shards sh4 ! s)" unfolding at6 [OF that] by (simp add: clear_idle_def)
    show "active_table (shards ?sh6 ! s) = idle_table (shards sh ! s)"
      unfolding active_table_def u6 tab6 [OF that] using u by (simp add: idle_table_def)
    show "ent (idle_table (shards ?sh6 ! s)) = {}"
      unfolding idle_table_def u6 tab6 [OF that] using ent by simp
  qed
  have share: "share_of ?sh4 = share_of sh" by (rule ext) (simp add: share_of_def st4)
  have vs: "distinct (vs s) \<and> set (vs s) = snd ` ent (active_table (shards sh ! s)) \<and> sorted_wrt (\<lambda>a b. share_of sh b \<le> share_of sh a) (vs s)
      \<and> (\<forall>j<length (vs s). prob2 (st' (vs s ! j)) = share_of sh (vs s ! j) \<and> cdf (st' (vs s ! j)) = cum_share 0 (map (share_of sh) (vs s)) j)"
    if "s < ?ts" for s
    using so that idle4 [OF that] ent ordered_cdf [of T ?sh4 s st' "vs s"] by (simp add: shard_ordered_def share)
  have counters: "old_bytes (shards ?sh6 ! s) = shard_bytes (shards sh ! s) \<and> shard_bytes (shards ?sh6 ! s) = 0
      \<and> old_packets (shards ?sh6 ! s) = shard_packets (shards sh ! s) \<and> shard_packets (shards ?sh6 ! s) = 0
      \<and> ref_count_1 (shards ?sh6 ! s) = 0 \<and> ref_count_2 (shards ?sh6 ! s) = 0 \<and> ordered_flows (shards ?sh6 ! s) = vs s" if "s < ?ts" for s
    unfolding at6 [OF that] using i4 [OF that] ref4 [OF that] by (simp add: info_view_def swap_shard_def clear_idle_def)
  have "round_done T ent sh ?sh6"
    unfolding round_done_def Let_def
  proof (intro conjI allI impI)
    fix s assume s: "s < ?ts"
    note c = counters [OF s] and a = act [OF s]
    have o: "ordered_flows (shards ?sh6 ! s) = vs s" using c by simp
    show "distinct (ordered_flows (shards ?sh6 ! s))" "set (ordered_flows (shards ?sh6 ! s)) = snd ` ent (active_table (shards sh ! s))"
      "sorted_wrt (\<lambda>a b. share_of sh b \<le> share_of sh a) (ordered_flows (shards ?sh6 ! s))"
      unfolding o using vs [OF s] by simp_all
    show "active_table (shards ?sh6 ! s) = idle_table (shards sh ! s)" "ent (idle_table (shards ?sh6 ! s)) = {}"
      by (rule a)+
    show "old_bytes (shards ?sh6 ! s) = shard_bytes (shards sh ! s)" "shard_bytes (shards ?sh6 ! s) = 0"
      "old_packets (shards ?sh6 ! s) = shard_packets (shards sh ! s)" "shard_packets (shards ?sh6 ! s) = 0"
      using c by simp_all
    fix j assume j: "j < length (ordered_flows (shards ?sh6 ! s))"
    show "prob2 (state_at ?sh6 (ordered_flows (shards ?sh6 ! s) ! j)) = share_of sh (ordered_flows (shards ?sh6 ! s) ! j)"
      "cdf (state_at ?sh6 (ordered_flows (shards ?sh6 ! s) ! j)) = cum_share 0 (map (share_of sh) (ordered_flows (shards ?sh6 ! s))) j"
      using vs [OF s] j unfolding o by simp_all
  qed (use memory in \<open>simp_all add: ep4 ts4\<close>)
  moreover have "\<forall>i\<in>set (shards ?sh6). ref_count_1 i = 0 \<and> ref_count_2 i = 0"
    using ref4 by (auto simp: clear_idle_def)
  moreover have "length (vs s) = card (ent (active_table (shards sh ! s)))" if "s < ?ts" for s
  proof -
    have "distinct (map snd (table_entries T (active_table (shards sh ! s))))"
      unfolding active_table_def by (rule tables_ok_distinct [OF assms(2) T that])
    then have "card (ent (active_table (shards sh ! s))) = card (snd ` ent (active_table (shards sh ! s)))"
      by (metis card_image distinct_map ent(1))
    then show ?thesis using vs [OF that] distinct_card by metis
  qed
  then have "total_flows ?c6 = of_nat (\<Sum>s<?ts. card (ent (active_table (shards sh ! s))))" by simp
  ultimately show ?thesis using run inv6 tables6 by blast
qed

text \<open>
  C8: a round of the controller, with a valid answer of the solver or none and no worker inside a
  table, never fails and recycles the tables: the flows that workers recorded since the last round
  are exactly the ordered ones, in decreasing order of their shares and with their cumulative
  shares stored; the table they were in is emptied, the other one (emptied one round before)
  becomes the workers'; the counters of the round move to the old ones and restart from zero; only
  the share copies and cumulative shares of flow states change.
\<close>

theorem short_epoch_recycles_tables:
  assumes "epoch_inv W E c sh" and "tables_ok T sh" and "table_ok T K ent" and "sort_ok srt"
    and "\<forall>i\<in>set (shards sh). ref_count_1 i = 0 \<and> ref_count_2 i = 0"
    and "\<forall>a. answer = Some a \<longrightarrow> answer_ok W E (total_shards sh) a"
  shows "\<exists>c' sh'. update_short_epoch R T srt solver answer c sh = Inr (c', sh') \<and> round_done T ent sh sh'
    \<and> total_flows c' = of_nat (\<Sum>s<total_shards sh. card (ent (active_table (shards sh ! s))))"
  using short_epoch_ok [OF assms] by blast

text \<open>Any number of rounds, one after the other, with the answers \<open>as\<close>.\<close>

fun run_epochs :: "'r ring_ops \<Rightarrow> 't table_ops \<Rightarrow> ((addr \<Rightarrow> double) \<Rightarrow> addr list \<Rightarrow> addr list) \<Rightarrow> solver_answer list
    \<Rightarrow> controller \<times> ('t, 'r) shared \<Rightarrow> (controller \<times> ('t, 'r) shared) outcome" where
  "run_epochs R T srt [] x = Inr x"
| "run_epochs R T srt (a # as) x = outcome_bind (update_short_epoch R T srt True a (fst x) (snd x)) (run_epochs R T srt as)"

definition idle_round :: "'t table_ops \<Rightarrow> nat \<Rightarrow> nat \<Rightarrow> nat \<Rightarrow> controller \<times> ('t, 'r) shared \<Rightarrow> bool" where
  "idle_round T W E ts = (\<lambda>(c, sh). epoch_inv W E c sh \<and> tables_ok T sh \<and> total_shards sh = ts
     \<and> (\<forall>i\<in>set (shards sh). ref_count_1 i = 0 \<and> ref_count_2 i = 0))"

lemma round_done_shards: "round_done T ent sh sh' \<Longrightarrow> total_shards sh' = total_shards sh"
  by (simp add: round_done_def)

lemma idle_round_step:
  assumes "table_ok T K ent" and "sort_ok srt" and "idle_round T W E ts (c, sh)" and "\<forall>a. answer = Some a \<longrightarrow> answer_ok W E ts a"
  shows "\<exists>c' sh'. update_short_epoch R T srt b answer c sh = Inr (c', sh') \<and> idle_round T W E ts (c', sh')"
proof -
  have i: "epoch_inv W E c sh" "tables_ok T sh" "\<forall>i\<in>set (shards sh). ref_count_1 i = 0 \<and> ref_count_2 i = 0" "total_shards sh = ts"
    using assms(3) by (auto simp: idle_round_def)
  have a: "\<forall>a. answer = Some a \<longrightarrow> answer_ok W E (total_shards sh) a" using assms(4) i(4) by simp
  from short_epoch_ok [OF i(1,2) assms(1,2) i(3) a, of R b] obtain c' sh' where
    "update_short_epoch R T srt b answer c sh = Inr (c', sh')" "epoch_inv W E c' sh'" "tables_ok T sh'" "round_done T ent sh sh'"
    "\<forall>i\<in>set (shards sh'). ref_count_1 i = 0 \<and> ref_count_2 i = 0" by blast
  then show ?thesis using round_done_shards i(4) by (auto simp: idle_round_def)
qed

lemma run_epochs_ok:
  assumes "table_ok T K ent" and "sort_ok srt" and "idle_round T W E ts x" and "\<forall>a. Some a \<in> set as \<longrightarrow> answer_ok W E ts a"
  shows "\<exists>x'. run_epochs R T srt as x = Inr x' \<and> idle_round T W E ts x'"
  using assms(3,4)
proof (induction as arbitrary: x)
  case (Cons a as)
  obtain c sh where x: "x = (c, sh)" by (cases x)
  have "\<forall>b. a = Some b \<longrightarrow> answer_ok W E ts b" using Cons.prems(2) by auto
  from idle_round_step [OF assms(1,2) Cons.prems(1) [unfolded x] this, of R True]
  obtain c' sh' where "update_short_epoch R T srt True a c sh = Inr (c', sh')" "idle_round T W E ts (c', sh')" by blast
  with Cons.IH [of "(c', sh')"] Cons.prems(2) x show ?case by auto
qed simp

lemma configure_tables_empty:
  assumes "configure T R env cfg mem st = Inr (c, sh)" and "table_ok T K ent"
  shows "tables_ok T sh \<and> (\<forall>i\<in>set (shards sh). ref_count_1 i = 0 \<and> ref_count_2 i = 0)"
proof -
  have "set (table_entries T (table_new T)) = {}" using assms(2) by (simp add: table_ok_def)
  then show ?thesis using configure_shards [OF assms(1)] configure_shared_ok [OF assms(1)]
    by (auto simp: tables_ok_def table_of_def init_shard_def)
qed

lemma configure_epoch_inv:
  assumes "configure T R env cfg mem st = Inr (c, sh)" and "0 < arg_SHARDS cfg" and "0 < arg_E cfg"
  shows "epoch_inv (arg_W cfg) (arg_E cfg) c sh"
  using configure_controller_inv [OF assms(1,2)] configure_relationship [OF assms(1,3)] configure_shared_ok [OF assms(1)]
  by (auto simp: epoch_inv_def)


subsection \<open>The rounds in time\<close>

fun run_tasks :: "'r ring_ops \<Rightarrow> 't table_ops \<Rightarrow> ((addr \<Rightarrow> double) \<Rightarrow> addr list \<Rightarrow> addr list) \<Rightarrow> nat \<Rightarrow> (u64 \<times> solver_answer) list
    \<Rightarrow> controller \<Rightarrow> ('t, 'r) shared \<Rightarrow> (bool list \<times> controller \<times> ('t, 'r) shared) outcome" where
  "run_tasks R T srt hz [] c sh = Inr ([], c, sh)"
| "run_tasks R T srt hz ((t, a) # xs) c sh = outcome_bind (controller_run_task R T srt hz t a c sh)
     (\<lambda>(b, c', sh'). outcome_bind (run_tasks R T srt hz xs c' sh') (\<lambda>(bs, r). Inr (b # bs, r)))"

lemma run_task_next:
  assumes "controller_run_task R T srt hz t a c sh = Inr (b, c', sh')"
  shows "b \<longleftrightarrow> next_short c < tsc_to_us hz t" and "next_short c' = (if b then tsc_to_us hz t + of_nat SHORT_TIME else next_short c)"
  using assms by (auto simp: controller_run_task_def Let_def due_def outcome_bind_Inr split: if_splits)

lemma next_us: "unat t + SHORT_TIME < 2 ^ 64 \<Longrightarrow> unat (t + of_nat SHORT_TIME :: u64) = unat t + SHORT_TIME"
  by (simp add: SHORT_TIME_def unat_word_ariths unat_of_nat)

lemma run_tasks_after:
  assumes "run_tasks R T srt hz xs c sh = Inr (bs, r)" and "\<forall>x\<in>set xs. unat (tsc_to_us hz (fst x)) + SHORT_TIME < 2 ^ 64"
  shows "length bs = length xs \<and> (\<forall>j<length bs. bs ! j \<longrightarrow> unat (next_short c) < unat (tsc_to_us hz (fst (xs ! j))))"
  using assms
proof (induction xs arbitrary: c sh bs)
  case (Cons x xs)
  obtain t a where x: "x = (t, a)" by (cases x)
  from Cons.prems(1) x obtain b c' sh' bs' where 1: "controller_run_task R T srt hz t a c sh = Inr (b, c', sh')"
    "run_tasks R T srt hz xs c' sh' = Inr (bs', r)" "bs = b # bs'" by (auto simp: outcome_bind_Inr)
  note n = run_task_next [OF 1(1)]
  have le: "unat (next_short c) \<le> unat (next_short c')"
    using n Cons.prems(2) x by (auto simp: next_us word_less_nat_alt)
  from Cons.IH [OF 1(2)] Cons.prems(2) have IH: "length bs' = length xs"
    "\<forall>j<length bs'. bs' ! j \<longrightarrow> unat (next_short c') < unat (tsc_to_us hz (fst (xs ! j)))" by auto
  show ?case
  proof (intro conjI allI impI)
    fix j assume j: "j < length bs" "bs ! j"
    show "unat (next_short c) < unat (tsc_to_us hz (fst ((x # xs) ! j)))"
    proof (cases j)
      case 0
      then show ?thesis using n(1) j 1(3) by (simp add: x word_less_nat_alt)
    next
      case (Suc j')
      then show ?thesis using IH(2) j 1(3) le by fastforce
    qed
  qed (use IH 1(3) in simp)
qed simp

text \<open>
  C28: however often the controller's task is scheduled, two rounds are more than \<open>SHORT_TIME\<close>
  microseconds apart (as long as the clock has not wrapped).
\<close>

theorem epochs_spaced:
  assumes "run_tasks R T srt hz xs c sh = Inr (bs, r)" and "\<forall>x\<in>set xs. unat (tsc_to_us hz (fst x)) + SHORT_TIME < 2 ^ 64"
    and "i < j" and "j < length xs" and "bs ! i" and "bs ! j"
  shows "unat (tsc_to_us hz (fst (xs ! i))) + 100000 < unat (tsc_to_us hz (fst (xs ! j)))"
  using assms
proof (induction xs arbitrary: c sh bs i j)
  case (Cons x xs)
  obtain t a where x: "x = (t, a)" by (cases x)
  from Cons.prems(1) x obtain b c' sh' bs' where 1: "controller_run_task R T srt hz t a c sh = Inr (b, c', sh')"
    "run_tasks R T srt hz xs c' sh' = Inr (bs', r)" "bs = b # bs'" by (auto simp: outcome_bind_Inr)
  obtain j' where j: "j = Suc j'" using Cons.prems(3) by (cases j) auto
  have bound: "\<forall>x\<in>set xs. unat (tsc_to_us hz (fst x)) + SHORT_TIME < 2 ^ 64" using Cons.prems(2) by simp
  show ?case
  proof (cases i)
    case 0
    then have "next_short c' = tsc_to_us hz t + of_nat SHORT_TIME" using run_task_next(2) [OF 1(1)] Cons.prems(5) 1(3) by simp
    then have "unat (next_short c') = unat (tsc_to_us hz t) + 100000"
      using next_us [of "tsc_to_us hz t"] Cons.prems(2) x by (simp add: SHORT_TIME_def)
    moreover have "unat (next_short c') < unat (tsc_to_us hz (fst (xs ! j')))"
      using run_tasks_after [OF 1(2) bound] Cons.prems(4,6) 1(3) j by simp
    ultimately show ?thesis using 0 j x by simp
  next
    case (Suc i')
    then show ?thesis using Cons.IH [OF 1(2) bound, of i' j'] Cons.prems(3-6) 1(3) j by simp
  qed
qed simp

subsection \<open>An example\<close>

definition ex_fa :: DyssectFlow where "ex_fa = ex_flow 0"
definition ex_fb :: DyssectFlow where "ex_fb = (ex_flow 4)\<lparr>src_port := 9\<rparr>"

definition ex_states :: "addr \<Rightarrow> DyssectState" where
  "ex_states a = (if a = 10 then zero_state\<lparr>prob := 1/4, flow := ex_fa\<rparr>
     else if a = 11 then zero_state\<lparr>prob := 1/2, flow := ex_fb\<rparr> else zero_state)"

definition ex_sort :: "(addr \<Rightarrow> double) \<Rightarrow> addr list \<Rightarrow> addr list" where
  "ex_sort key xs = sort_key (\<lambda>a. - key a) xs"

lemma ex_sort_ok: "sort_ok ex_sort"
proof -
  have "sorted_wrt (\<lambda>a b. \<not> key a < key b) (sort_key (\<lambda>a. - key a) xs)" for key :: "addr \<Rightarrow> double" and xs
    using sorted_sort_key [of "\<lambda>a. - key a" xs] by (simp add: sorted_wrt_map not_less)
  then show ?thesis by (simp add: sort_ok_def ex_sort_def)
qed

text \<open>A shard 0 with two flows in its first table, with shares 1/4 and 1/2.\<close>

definition ex_loaded :: "bool \<Rightarrow> (list_table, list_ring) shared \<Rightarrow> (list_table, list_ring) shared" where
  "ex_loaded u sh = sh\<lparr>shards := (shards sh)[0 := (shards sh ! 0)\<lparr>flows3 := [(ex_fa, 10), (ex_fb, 11)], use_2 := u\<rparr>],
     state_at := ex_states\<rparr>"

definition ex_keys :: "DyssectFlow set" where "ex_keys = {ex_fa, ex_fb}"

lemma ex_keys_ok: "key_set ex_keys"
  by (auto simp: key_set_def ex_keys_def ex_fa_def ex_fb_def ex_flow_def flow_equal_def zero_flow_def)

lemma ex_clearjunk: "AList.clearjunk [(ex_fa, 10), (ex_fb, 11)] = [(ex_fa, 10), (ex_fb, 11::addr)]"
  by (simp add: ex_fa_def ex_fb_def ex_flow_def AList.delete_eq)

lemma ex_loaded_ok:
  assumes "ex_configure 8 4 2 2 = Inr (c, sh)"
  shows "tables_ok list_table_ops (ex_loaded u sh)" "length (shards (ex_loaded u sh)) = total_shards (ex_loaded u sh)"
    "total_shards (ex_loaded u sh) = 4" "\<forall>i\<in>set (shards (ex_loaded u sh)). ref_count_1 i = 0 \<and> ref_count_2 i = 0"
    "flows3 (shards (ex_loaded u sh) ! 0) = [(ex_fa, 10), (ex_fb, 11)]" "use_2 (shards (ex_loaded u sh) ! 0) = u"
    "state_at (ex_loaded u sh) = ex_states" "epoch_inv 2 2 c (ex_loaded u sh)"
proof -
  have sh: "shards sh = map (init_shard list_table_ops list_ring_ops 2) [0..<4]"
    using configure_shards [OF assms] by (simp add: ex_config_def)
  have so: "shared_ok 2 2 sh" and ts: "total_shards sh = 4" using configure_shared_ok [OF assms] by (simp_all add: ex_config_def)
  have l: "shards (ex_loaded u sh) = (shards sh)[0 := (shards sh ! 0)\<lparr>flows3 := [(ex_fa, 10), (ex_fb, 11)], use_2 := u\<rparr>]"
    by (simp add: ex_loaded_def)
  have s: "shards (ex_loaded u sh) ! s = (if s = 0 then (init_shard list_table_ops list_ring_ops 2 0)\<lparr>flows3 := [(ex_fa, 10), (ex_fb, 11)], use_2 := u\<rparr>
      else init_shard list_table_ops list_ring_ops 2 s)" if "s < 4" for s
    using that by (simp add: l sh nth_update)
  show "length (shards (ex_loaded u sh)) = total_shards (ex_loaded u sh)" "total_shards (ex_loaded u sh) = 4"
    "state_at (ex_loaded u sh) = ex_states" by (simp_all add: ex_loaded_def sh ts)
  show "flows3 (shards (ex_loaded u sh) ! 0) = [(ex_fa, 10), (ex_fb, 11)]" "use_2 (shards (ex_loaded u sh) ! 0) = u"
    by (simp_all add: s)
  show "\<forall>i\<in>set (shards (ex_loaded u sh)). ref_count_1 i = 0 \<and> ref_count_2 i = 0"
    by (auto simp: in_set_conv_nth ex_loaded_def sh nth_update init_shard_def)
  show "tables_ok list_table_ops (ex_loaded u sh)"
    by (auto simp: tables_ok_def ex_loaded_def ts sh nth_update table_of_def list_table_ops_def init_shard_def
        ex_clearjunk ex_states_def zero_state_def split: if_splits)
  have "epoch_inv 2 2 c sh" using configure_epoch_inv [OF assms] by (simp add: ex_config_def)
  then show "epoch_inv 2 2 c (ex_loaded u sh)"
    by (auto simp: epoch_inv_def shared_ok_def ex_loaded_def nth_update)
qed

theorem short_epoch_recycles_tables_witness:
  "\<exists>c sh c' sh'. ex_configure 8 4 2 2 = Inr (c, sh)
     \<and> update_short_epoch list_ring_ops list_table_ops ex_sort True None c (ex_loaded False sh) = Inr (c', sh')
     \<and> set (ordered_flows (shards sh' ! 0)) = {10, 11} \<and> AList.clearjunk (idle_table (shards sh' ! 0)) = []"
proof -
  obtain c sh where conf: "ex_configure 8 4 2 2 = Inr (c, sh)" using ex_configure_ok [of 8 2 4 2] by auto
  note ok = ex_loaded_ok [OF conf, of False]
  from short_epoch_recycles_tables [OF ok(8,1) list_table_ok [OF ex_keys_ok] ex_sort_ok ok(4), of None] obtain c' sh' where
    run: "update_short_epoch list_ring_ops list_table_ops ex_sort True None c (ex_loaded False sh) = Inr (c', sh')"
    and rd: "round_done list_table_ops (\<lambda>t. set (AList.clearjunk t)) (ex_loaded False sh) sh'" by blast
  have a: "set (ordered_flows (shards sh' ! 0)) = snd ` set (AList.clearjunk (active_table (shards (ex_loaded False sh) ! 0)))"
    using rd ok(3) by (simp add: round_done_def Let_def)
  have act: "active_table (shards (ex_loaded False sh) ! 0) = [(ex_fa, 10), (ex_fb, 11)]" using ok(5,6) by (simp add: active_table_def table_of_def)
  have "set (AList.clearjunk (idle_table (shards sh' ! 0))) = {}" using rd ok(3) by (simp add: round_done_def Let_def)
  moreover have "set (ordered_flows (shards sh' ! 0)) = {10, 11}" unfolding a act ex_clearjunk by simp
  ultimately show ?thesis using conf run by (auto simp del: clearjunk.simps)
qed


theorem update_ratio_flags_owners_witness:
  "\<exists>c sh changed sh'. ex_configure 8 4 2 2 = Inr (c, sh) \<and> update_ratio sh = Inr (changed, sh')
     \<and> (changed \<longleftrightarrow> (\<exists>s<4. ratio_changes sh s))"
proof -
  obtain c sh where conf: "ex_configure 8 4 2 2 = Inr (c, sh)" using ex_configure_ok [of 8 2 4 2] by auto
  have len: "length (shards sh) = total_shards sh" "total_shards sh = 4" "length (transfer_r sh) = 4" "\<forall>s<4. owner (shards sh ! s) < 2"
    using configure_shared_ok [OF conf] by (simp_all add: ex_config_def shared_ok_def)
  then have "\<forall>s<total_shards sh. owner (shards sh ! s) < length (transfer_r sh)" by auto
  from update_ratio_flags_owners [OF len(1) this] conf len(2) show ?thesis by auto
qed

lemma quarter_not_zero: "\<not> is_equal_than (1/4) 0"
  by code_simp

theorem ratio_offloads_largest_flows_witness:
  "\<exists>c sh c' sh'. ex_configure 8 4 2 2 = Inr (c, sh)
     \<and> order_shards list_table_ops ex_sort c (ex_loaded True sh) = Inr (c', sh')
     \<and> set (ordered_flows (shards sh' ! 0)) = {10, 11} \<and> distinct (ordered_flows (shards sh' ! 0))"
proof -
  obtain c sh where conf: "ex_configure 8 4 2 2 = Inr (c, sh)" using ex_configure_ok [of 8 2 4 2] by auto
  note ok = ex_loaded_ok [OF conf, of True]
  have refs: "\<forall>i\<in>set (shards (ex_loaded True sh)). ref_of (\<not> use_2 i) i = 0" using ok(4) by (auto simp: ref_of_def)
  have pos: "\<forall>a. 0 \<le> share_of (ex_loaded True sh) a" by (simp add: share_of_def ok(7) ex_states_def zero_state_def)
  note T = list_table_ok [OF ex_keys_ok]
  obtain c' sh' where run: "order_shards list_table_ops ex_sort c (ex_loaded True sh) = Inr (c', sh')"
    using order_shards_ok [OF ex_sort_ok T ok(1,2) refs] by blast
  have idle: "idle_addrs list_table_ops (ex_loaded True sh) 0 = {10, 11}"
    by (simp add: idle_addrs_def idle_table_def table_of_def ok(5,6) list_table_ops_def ex_clearjunk del: clearjunk.simps)
  from ratio_offloads_largest_flows [OF ex_sort_ok T ok(1,2) refs pos run, of 0 "1/4"] ok(3) quarter_not_zero idle
  have "set (ordered_flows (shards sh' ! 0)) = {10, 11} \<and> distinct (ordered_flows (shards sh' ! 0))" by auto
  then show ?thesis using conf run by blast
qed

text \<open>A timer of one megahertz: cycles are microseconds.\<close>

lemma ex_clock: "tsc_to_us 1000000 200000 = 200000" "tsc_to_us 1000000 400000 = 400000"
  using rnd_of_nat [of 200000] rnd_of_nat [of 400000] rnd_of_nat [of 1000000] rnd_of_nat [of 200000000000] rnd_of_nat [of 400000000000]
  by (simp_all add: tsc_to_us_def dmul_def ddiv_def)

theorem epochs_spaced_witness:
  "\<exists>c sh r. ex_configure 8 4 2 2 = Inr (c, sh)
     \<and> run_tasks list_ring_ops list_table_ops ex_sort 1000000 [(200000, None), (400000, None)] c sh = Inr ([True, True], r)
     \<and> unat (tsc_to_us 1000000 200000) + 100000 < unat (tsc_to_us 1000000 400000)"
proof -
  obtain c sh where conf: "ex_configure 8 4 2 2 = Inr (c, sh)" using ex_configure_ok [of 8 2 4 2] by auto
  note T = list_table_ok [OF ex_keys_ok]
  have start: "next_short c = 0" by (rule configure_success [OF conf]) (simp add: configured_controller_def)
  have "idle_round list_table_ops 2 2 4 (c, sh)"
    using configure_epoch_inv [OF conf] configure_tables_empty [OF conf T] configure_shared_ok [OF conf]
    by (simp add: idle_round_def ex_config_def)
  from idle_round_step [OF T ex_sort_ok this, of None list_ring_ops "use_solver c"] obtain c1 sh1 where 1: "update_short_epoch list_ring_ops list_table_ops ex_sort (use_solver c) None c sh = Inr (c1, sh1)"
    "idle_round list_table_ops 2 2 4 (c1, sh1)" by auto
  let ?c1 = "c1\<lparr>next_short := 300000\<rparr>"
  have "idle_round list_table_ops 2 2 4 (?c1, sh1)" using 1(2) by (auto simp: idle_round_def epoch_inv_def controller_inv_def)
  from idle_round_step [OF T ex_sort_ok this, of None list_ring_ops "use_solver ?c1"] obtain c2 sh2 where 2: "update_short_epoch list_ring_ops list_table_ops ex_sort (use_solver ?c1) None ?c1 sh1 = Inr (c2, sh2)"
    by auto
  have "controller_run_task list_ring_ops list_table_ops ex_sort 1000000 200000 None c sh = Inr (True, ?c1, sh1)"
    using 1 start by (simp add: controller_run_task_def due_def ex_clock SHORT_TIME_def)
  moreover have "controller_run_task list_ring_ops list_table_ops ex_sort 1000000 400000 None ?c1 sh1 = Inr (True, c2\<lparr>next_short := 500000\<rparr>, sh2)"
    using 2 by (simp add: controller_run_task_def due_def ex_clock SHORT_TIME_def)
  ultimately have run: "run_tasks list_ring_ops list_table_ops ex_sort 1000000 [(200000, None), (400000, None)] c sh
      = Inr ([True, True], (c2\<lparr>next_short := 500000\<rparr>, sh2))" by simp
  from epochs_spaced [OF run, of 0 1] have "unat (tsc_to_us 1000000 200000) + 100000 < unat (tsc_to_us 1000000 400000)"
    by (simp add: ex_clock SHORT_TIME_def)
  then show ?thesis using conf run by blast
qed

end
