(* ===== verification/Working_Core.thy ===== *)
theory Working_Core
  imports Flow_Extract Short_Epoch
begin

text \<open>
  The element \<open>DyssectWorkingCore\<close> (\<open>dyssectworkingcore.cc\<close>): it receives the packets of its
  hardware queue, sends those it keeps to the service chain and puts the others into the ring its
  offloading core drains; between batches it takes over new ratios (\<open>transfer_r\<close>), shards
  (\<open>transfer_shard\<close>) and a new offloading core (\<open>transfer_offloading\<close>), during which it works off
  its own ring (\<open>myown\<close>).

  The NIC is the parameter \<open>'n nic_ops\<close>: a burst returns at most as many packets as asked for.
  \<open>Packet::make\<close> and the batches of Click are the lists of packets they stand for. Loops whose
  end depends on a ring or the NIC take fuel; they are \<open>Spinning\<close> when it runs out.
\<close>

record 'n nic_ops =
  rx_burst :: "nat \<Rightarrow> 'n \<Rightarrow> mbuf list \<times> 'n"
  rx_queue_count :: "'n \<Rightarrow> nat"

definition nic_ok :: "'n nic_ops \<Rightarrow> bool" where
  "nic_ok N \<longleftrightarrow> (\<forall>n x. length (fst (rx_burst N n x)) \<le> n)"

text \<open>A hardware queue with no arrivals, to instantiate the parameter.\<close>

definition list_nic_ops :: "mbuf list nic_ops" where
  "list_nic_ops = \<lparr>rx_burst = (\<lambda>n xs. (take n xs, drop n xs)), rx_queue_count = length\<rparr>"

lemma list_nic_ok: "nic_ok list_nic_ops"
  by (simp add: nic_ok_def list_nic_ops_def)

text \<open>The private state of the element; \<open>off_pkts\<close> with \<open>off_idx\<close> is the list of its first entries.\<close>

record worker =
  portid :: nat
  queueid :: nat
  burst :: nat
  worker_solver :: bool
  off_pkts :: "mbuf list"
  qsize :: nat
  myown :: bool
  q :: ring_ptr
  myring :: ring_ptr
  offloading_idx :: nat

definition OFF_PKTS :: nat where "OFF_PKTS = 128"

definition worker_configure :: "int \<Rightarrow> nat \<Rightarrow> nat \<Rightarrow> nat \<Rightarrow> bool \<Rightarrow> ('t, 'r) shared \<Rightarrow> worker outcome" where
  "worker_configure args PORT QUEUE BURST SOLVER sh =
     (if args < 0 then Inl (ReturnError (-1))
      else check_index QUEUE (queues sh) (check_index QUEUE (rings sh) (check_index QUEUE (offloading_from_working sh)
        (Inr \<lparr>portid = PORT, queueid = QUEUE, burst = BURST, worker_solver = SOLVER, off_pkts = [], qsize = 256, myown = False,
          q = queues sh ! QUEUE, myring = rings sh ! QUEUE, offloading_idx = offloading_from_working sh ! QUEUE\<rparr>))))"

subsection \<open>Receiving\<close>

text \<open>
  \<open>while (rte_ring_count(src) != 0)\<close> with a burst from one ring to another; what the second burst
  did not take is lost, as its return value is ignored.
\<close>

fun move_ring :: "'r ring_ops \<Rightarrow> nat \<Rightarrow> nat \<Rightarrow> 'r \<times> 'r \<Rightarrow> ('r \<times> 'r) outcome" where
  "move_ring R b 0 (src, dst) = (if ring_count R src = 0 then Inr (src, dst) else Inl Spinning)"
| "move_ring R b (Suc n) (src, dst) = (if ring_count R src = 0 then Inr (src, dst)
     else let (xs, src') = ring_dequeue_burst R b src; (_, dst') = ring_enqueue_burst R xs dst
          in move_ring R b n (src', dst'))"

text \<open>The part of \<open>process\<close> under \<open>had_changes\<close>: the local queues of the shards this core gets.\<close>

definition take_local_queue :: "'r ring_ops \<Rightarrow> nat \<Rightarrow> worker \<times> ('t, 'r) shared \<Rightarrow> (worker \<times> ('t, 'r) shared) outcome" where
  "take_local_queue R s = (\<lambda>(w, sh). let i = shards sh ! s in check_index s (shards sh)
     (if owner_new i = queueid w \<and> pause i = 0
      then outcome_bind (move_ring R (burst w) (ring_count R (local_queue i)) (local_queue i, ring_at sh (myring w)))
        (\<lambda>(l, m). Inr (w\<lparr>myown := False\<rparr>, set_ring (myring w) m (upd_shard s (\<lambda>i. i\<lparr>local_queue := l\<rparr>) sh)))
      else Inr (w, sh)))"

text \<open>\<open>process\<close>: \<open>None\<close> when it returns 0, else the mbufs of the batch.\<close>

definition process :: "'n nic_ops \<Rightarrow> 'r ring_ops \<Rightarrow> worker \<times> 'n \<times> ('t, 'r) shared
    \<Rightarrow> (mbuf list option \<times> worker \<times> 'n \<times> ('t, 'r) shared) outcome" where
  "process N R = (\<lambda>(w, nic, sh).
     outcome_bind
       (check_index (queueid w) (had_changes sh) (if had_changes sh ! queueid w = 1
        then outcome_bind (outcome_fold (take_local_queue R) [0..<total_shards sh] (w, sh))
          (\<lambda>(w, sh). check_index (queueid w) (had_changes sh) (Inr (w, sh\<lparr>had_changes := (had_changes sh)[queueid w := 0]\<rparr>)))
        else Inr (w, sh)))
       (\<lambda>(w, sh). if myown w then Inr (None, w, nic, sh)
          else let (ms, nic') = rx_burst N (burst w) nic
               in if ms = [] then Inr (None, w, nic', sh) else Inr (Some ms, w, nic', sh)))"

subsection \<open>Taking over changes\<close>

text \<open>\<open>toRemoveQueue[i]\<close> and \<open>toAddQueue[i]\<close> with an index out of range are faults.\<close>

definition send_remove :: "'r ring_ops \<Rightarrow> nat \<Rightarrow> ring_ptr \<Rightarrow> ('t, 'r) shared \<Rightarrow> ('t, 'r) shared outcome" where
  "send_remove R e p sh = check_index e (toRemoveQueue sh) (Inr (enqueue_at R (toRemoveQueue sh ! e) (PRing p) sh))"

definition send_add :: "'r ring_ops \<Rightarrow> nat \<Rightarrow> ring_ptr \<Rightarrow> ('t, 'r) shared \<Rightarrow> ('t, 'r) shared outcome" where
  "send_add R e p sh = check_index e (toAddQueue sh) (Inr (enqueue_at R (toAddQueue sh ! e) (PRing p) sh))"

definition worker_transfer_r :: "'r ring_ops \<Rightarrow> worker \<times> ('t, 'r) shared \<Rightarrow> (worker \<times> ('t, 'r) shared) outcome" where
  "worker_transfer_r R = (\<lambda>(w, sh).
     outcome_bind
       (if ring_count R (ring_at sh (q w)) \<noteq> 0
        then outcome_bind (send_remove R (offloading_idx w) (q w) sh) (\<lambda>sh1.
          let w' = w\<lparr>myown := True, q := myring w, myring := q w\<rparr>;
              sh2 = sh1\<lparr>queues := (queues sh1)[queueid w := q w'], rings := (rings sh1)[queueid w := myring w']\<rparr>
          in check_index (queueid w) (queues sh1) (check_index (queueid w) (rings sh1)
               (outcome_bind (send_add R (offloading_idx w') (q w') sh2) (\<lambda>sh3. Inr (w', sh3)))))
        else Inr (w, sh))
       (\<lambda>(w, sh). let sh' = fold (\<lambda>s sh. if owner (shards sh ! s) = queueid w
               then upd_shard s (\<lambda>i. i\<lparr>shard_r := r_new i\<rparr>) sh else sh) [0..<total_shards sh] sh
          in check_index (queueid w) (transfer_r sh') (Inr (w, sh'\<lparr>transfer_r := (transfer_r sh')[queueid w := 0]\<rparr>))))"

text \<open>
  The receiving loop of \<open>transfer_shard\<close>. Its \<open>count\<close> (here \<open>left\<close>) is a \<open>uint32_t\<close>: a burst longer than what is
  left of it makes it wrap.
\<close>

fun receive_own :: "'n nic_ops \<Rightarrow> 'r ring_ops \<Rightarrow> nat \<Rightarrow> u32 \<Rightarrow> worker \<times> 'n \<times> ('t, 'r) shared
    \<Rightarrow> (worker \<times> 'n \<times> ('t, 'r) shared) outcome" where
  "receive_own N R fuel left (w, nic, sh) =
     (if left = 0 then Inr (w, nic, sh)
      else case fuel of 0 \<Rightarrow> Inl Spinning
      | Suc n \<Rightarrow> let w' = w\<lparr>myown := True\<rparr>; (ms, nic') = rx_burst N (burst w) nic
          in if ms = [] then Inr (w', nic', sh)
             else receive_own N R n (left - of_nat (length ms))
               (w', nic', set_ring (myring w) (snd (ring_enqueue_burst R (map PMbuf ms) (ring_at sh (myring w)))) sh))"

definition drain_q :: "'r ring_ops \<Rightarrow> worker \<times> ('t, 'r) shared \<Rightarrow> (worker \<times> ('t, 'r) shared) outcome" where
  "drain_q R = (\<lambda>(w, sh). let n = ring_count R (ring_at sh (q w)) in
     if n = 0 then Inr (w, sh)
     else outcome_bind (move_ring R (burst w) n (ring_at sh (q w), ring_at sh (myring w)))
       (\<lambda>(src, dst). Inr (w\<lparr>myown := True\<rparr>, set_ring (myring w) dst (set_ring (q w) src sh))))"

text \<open>The hand-over of the shards that leave this core.\<close>

definition release_shard :: "nat \<Rightarrow> nat \<Rightarrow> ('t, 'r) shared \<Rightarrow> ('t, 'r) shared outcome" where
  "release_shard me s sh = (let i = shards sh ! s in check_index s (shards sh)
     (if owner i = me \<and> owner_new i \<noteq> UINT32_MAX
      then let sh1 = upd_shard s (\<lambda>i. i\<lparr>pause := 0\<rparr>) sh in check_index (owner_new i) (had_changes sh1)
        (Inr (sh1\<lparr>had_changes := (had_changes sh1)[owner_new i := 1]\<rparr>))
      else Inr sh))"

definition maybe_send where
  "maybe_send send R e p sh = (if e \<noteq> UINT32_MAX then send R e p sh else Inr sh)"

definition worker_transfer_shard :: "'n nic_ops \<Rightarrow> 'r ring_ops \<Rightarrow> nat \<Rightarrow> worker \<times> 'n \<times> ('t, 'r) shared
    \<Rightarrow> (worker \<times> 'n \<times> ('t, 'r) shared) outcome" where
  "worker_transfer_shard N R fuel = (\<lambda>(w, nic, sh).
     outcome_bind (maybe_send send_remove R (offloading_idx w) (q w) sh) (\<lambda>sh.
     outcome_bind (receive_own N R fuel (of_nat (min (rx_queue_count N nic) (qsize w))) (w, nic, sh)) (\<lambda>(w, nic, sh).
     outcome_bind (drain_q R (w, sh)) (\<lambda>(w, sh).
     outcome_bind (maybe_send send_add R (offloading_idx w) (q w) sh) (\<lambda>sh.
     outcome_bind (if \<not> myown w then outcome_fold (release_shard (queueid w)) [0..<total_shards sh] sh else Inr sh) (\<lambda>sh.
     check_index (queueid w) (transfer_shard sh)
       (Inr (w, nic, sh\<lparr>transfer_shard := (transfer_shard sh)[queueid w := 0]\<rparr>))))))))"

definition worker_transfer_offloading :: "'r ring_ops \<Rightarrow> worker \<times> ('t, 'r) shared \<Rightarrow> (worker \<times> ('t, 'r) shared) outcome" where
  "worker_transfer_offloading R = (\<lambda>(w, sh).
     outcome_bind (maybe_send send_remove R (offloading_idx w) (q w) sh) (\<lambda>sh.
     outcome_bind (drain_q R (w, sh)) (\<lambda>(w, sh).
     let new = new_offloading_from_working sh ! queueid w in
     outcome_bind (check_index (queueid w) (new_offloading_from_working sh)
       (if new \<noteq> UINT32_MAX
        then outcome_bind (send_add R new (q w) sh) (\<lambda>sh. Inr (w\<lparr>offloading_idx := new\<rparr>,
          sh\<lparr>new_offloading_from_working := (new_offloading_from_working sh)[queueid w := UINT32_MAX]\<rparr>))
        else Inr (w, sh)))
       (\<lambda>(w, sh). check_index (queueid w) (transfer_offloading sh)
         (Inr (w, sh\<lparr>transfer_offloading := (transfer_offloading sh)[queueid w := 0]\<rparr>))))))"

subsection \<open>The task\<close>

text \<open>\<open>run\<close>, for one packet of a batch: kept packets are collected in \<open>outs\<close>.\<close>

definition run :: "(DyssectFlow \<Rightarrow> u32) \<Rightarrow> 't table_ops \<Rightarrow> mbuf \<Rightarrow> worker \<times> packet list \<times> ('t, 'r) shared
    \<Rightarrow> (worker \<times> packet list \<times> ('t, 'r) shared) outcome" where
  "run crc T m = (\<lambda>(w, outs, sh). outcome_bind (extract_state crc T (worker_solver w) m sh) (\<lambda>(a, p, sh').
     let st = state_at sh' a in
     if priority st then Inr (w, outs @ [p], sh')
     else check_index (state_shard st) (shards sh')
       (if is_less_than (cdf st) (shard_r (shards sh' ! state_shard st))
        then if length (off_pkts w) < OFF_PKTS then Inr (w\<lparr>off_pkts := off_pkts w @ [m]\<rparr>, outs, sh') else Inl OutOfBounds
        else Inr (w, outs @ [p], sh'))))"

text \<open>The loop over the shards when the own ring has been worked off.\<close>

definition settle_shard :: "nat \<Rightarrow> nat \<Rightarrow> ('t, 'r) shared \<Rightarrow> ('t, 'r) shared outcome" where
  "settle_shard me s sh = (let i = shards sh ! s in check_index s (shards sh)
     (outcome_bind
       (if pause i = 1 \<and> owner i = me \<and> owner_new i \<noteq> UINT32_MAX
        then let sh1 = upd_shard s (\<lambda>i. i\<lparr>pause := 0\<rparr>) sh in check_index (owner_new i) (had_changes sh1)
          (Inr (sh1\<lparr>had_changes := (had_changes sh1)[owner_new i := 1]\<rparr>))
        else Inr sh)
       (\<lambda>sh1. Inr (if pause (shards sh1 ! s) = 0 \<and> owner_new (shards sh1 ! s) = me
          then upd_shard s (\<lambda>i. i\<lparr>owner_new := UINT32_MAX, owner := me\<rparr>) sh1 else sh1))))"

fun extract_ptr :: "(DyssectFlow \<Rightarrow> u32) \<Rightarrow> 't table_ops \<Rightarrow> bool \<Rightarrow> void_ptr \<Rightarrow> packet list \<times> ('t, 'r) shared
    \<Rightarrow> (packet list \<times> ('t, 'r) shared) outcome" where
  "extract_ptr crc T solver (PRing r) x = Inl WrongType"
| "extract_ptr crc T solver (PMbuf m) (outs, sh) = outcome_bind (extract_state crc T solver m sh)
     (\<lambda>(a, p, sh'). Inr (outs @ [p], sh'))"

definition work_off :: "(DyssectFlow \<Rightarrow> u32) \<Rightarrow> 't table_ops \<Rightarrow> 'r ring_ops \<Rightarrow> worker \<times> ('t, 'r) shared
    \<Rightarrow> (bool \<times> packet list \<times> worker \<times> ('t, 'r) shared) outcome" where
  "work_off crc T R = (\<lambda>(w, sh).
     if ring_count R (ring_at sh (myring w)) = 0
     then outcome_bind (outcome_fold (settle_shard (queueid w)) [0..<total_shards sh] sh) (\<lambda>sh'.
       Inr (True, [], w\<lparr>myown := False\<rparr>, sh'))
     else let cnt = min (ring_count R (ring_at sh (myring w))) (burst w) in
       if cnt = 0 then Inr (False, [], w, sh)
       else let (xs, r) = ring_dequeue_burst R cnt (ring_at sh (myring w)) in
         outcome_bind (outcome_fold (extract_ptr crc T (worker_solver w)) xs ([], set_ring (myring w) r sh))
           (\<lambda>(outs, sh'). Inr (True, outs, w, sh')))"

definition handle_signal :: "'n nic_ops \<Rightarrow> 'r ring_ops \<Rightarrow> nat \<Rightarrow> worker \<times> 'n \<times> ('t, 'r) shared
    \<Rightarrow> (worker \<times> 'n \<times> ('t, 'r) shared) outcome" where
  "handle_signal N R fuel = (\<lambda>(w, nic, sh). check_index (queueid w) (controller_signal sh) (
     if controller_signal sh ! queueid w = 1 then
       outcome_bind (check_index (queueid w) (transfer_r sh)
         (if transfer_r sh ! queueid w = 1 then worker_transfer_r R (w, sh) else Inr (w, sh))) (\<lambda>(w, sh).
       outcome_bind (check_index (queueid w) (transfer_offloading sh)
         (if transfer_offloading sh ! queueid w = 1 then worker_transfer_offloading R (w, sh) else Inr (w, sh))) (\<lambda>(w, sh).
       outcome_bind (check_index (queueid w) (transfer_shard sh)
         (if transfer_shard sh ! queueid w = 1 then worker_transfer_shard N R fuel (w, nic, sh) else Inr (w, nic, sh))) (\<lambda>(w, nic, sh).
       check_index (queueid w) (controller_signal sh)
         (Inr (w, nic, sh\<lparr>controller_signal := (controller_signal sh)[queueid w := 0]\<rparr>)))))
     else Inr (w, nic, sh)))"

definition flush_offloaded :: "'r ring_ops \<Rightarrow> worker \<times> ('t, 'r) shared \<Rightarrow> worker \<times> ('t, 'r) shared" where
  "flush_offloaded R = (\<lambda>(w, sh). if off_pkts w \<noteq> []
     then (w\<lparr>off_pkts := []\<rparr>, set_ring (q w) (snd (ring_enqueue_burst R (map PMbuf (off_pkts w)) (ring_at sh (q w)))) sh)
     else (w, sh))"

text \<open>\<open>run_task\<close>: its return value, the packets sent to the service chain and the new state.\<close>

definition worker_run_task :: "'n nic_ops \<Rightarrow> (DyssectFlow \<Rightarrow> u32) \<Rightarrow> 't table_ops \<Rightarrow> 'r ring_ops \<Rightarrow> nat \<Rightarrow> worker \<times> 'n \<times> ('t, 'r) shared
    \<Rightarrow> (bool \<times> packet list \<times> worker \<times> 'n \<times> ('t, 'r) shared) outcome" where
  "worker_run_task N crc T R fuel = (\<lambda>(w, nic, sh).
     if myown w then outcome_bind (work_off crc T R (w, sh)) (\<lambda>(b, outs, w, sh). Inr (b, outs, w, nic, sh))
     else outcome_bind (handle_signal N R fuel (w, nic, sh)) (\<lambda>(w, nic, sh).
       outcome_bind (process N R (w, nic, sh)) (\<lambda>(batch, w, nic, sh). case batch of
         None \<Rightarrow> Inr (False, [], w, nic, sh)
       | Some ms \<Rightarrow> outcome_bind (outcome_fold (run crc T) ms (w, [], sh)) (\<lambda>(w, outs, sh).
           let (w, sh) = flush_offloaded R (w, sh) in Inr (True, outs, w, nic, sh)))))"

subsection \<open>The hand-over without checks\<close>

definition released_shard :: "nat \<Rightarrow> nat \<Rightarrow> ('t, 'r) shared \<Rightarrow> ('t, 'r) shared" where
  "released_shard me s sh = (let i = shards sh ! s in
     if owner i = me \<and> owner_new i \<noteq> UINT32_MAX
     then (upd_shard s (\<lambda>i. i\<lparr>pause := 0\<rparr>) sh)\<lparr>had_changes := (had_changes sh)[owner_new i := 1]\<rparr>
     else sh)"

definition settled_shard :: "nat \<Rightarrow> nat \<Rightarrow> ('t, 'r) shared \<Rightarrow> ('t, 'r) shared" where
  "settled_shard me s sh = (let i = shards sh ! s;
       sh1 = (if pause i = 1 \<and> owner i = me \<and> owner_new i \<noteq> UINT32_MAX
              then (upd_shard s (\<lambda>i. i\<lparr>pause := 0\<rparr>) sh)\<lparr>had_changes := (had_changes sh)[owner_new i := 1]\<rparr> else sh)
     in if pause (shards sh1 ! s) = 0 \<and> owner_new (shards sh1 ! s) = me
        then upd_shard s (\<lambda>i. i\<lparr>owner_new := UINT32_MAX, owner := me\<rparr>) sh1 else sh1)"

lemma release_shard_pure: "release_shard me s sh = Inr sh' \<Longrightarrow> sh' = released_shard me s sh"
  by (auto simp: release_shard_def released_shard_def check_index_Inr Let_def upd_shard_def split: if_splits)

lemma settle_shard_pure: "settle_shard me s sh = Inr sh' \<Longrightarrow> sh' = settled_shard me s sh"
  by (auto simp: settle_shard_def settled_shard_def check_index_Inr outcome_bind_Inr Let_def upd_shard_def split: if_splits)

lemma released_all: "outcome_fold (release_shard me) ss sh = Inr sh' \<Longrightarrow> sh' = fold (released_shard me) ss sh"
  by (erule outcome_fold_pure [rotated]) (rule release_shard_pure)

lemma settled_all: "outcome_fold (settle_shard me) ss sh = Inr sh' \<Longrightarrow> sh' = fold (settled_shard me) ss sh"
  by (erule outcome_fold_pure [rotated]) (rule settle_shard_pure)

text \<open>Every pending owner is a core with a flag: what keeps the hand-over in range.\<close>

definition pending_flagged :: "('t, 'r) shared \<Rightarrow> bool" where
  "pending_flagged sh \<longleftrightarrow> total_shards sh \<le> length (shards sh)
     \<and> (\<forall>i\<in>set (shards sh). owner_new i = UINT32_MAX \<or> owner_new i < length (had_changes sh))"

lemma pending_flaggedI:
  "total_shards sh = length (shards sh) \<Longrightarrow>
   (\<And>s. s < total_shards sh \<Longrightarrow> owner_new (shards sh ! s) = UINT32_MAX \<or> owner_new (shards sh ! s) < length (had_changes sh)) \<Longrightarrow>
   pending_flagged sh"
  unfolding pending_flagged_def by (metis in_set_conv_nth order_refl)

lemma pending_flagged_upd:
  assumes "pending_flagged sh" and "total_shards x = total_shards sh" and "shards x = (shards sh)[s := i]"
    and "length (had_changes x) = length (had_changes sh)" and "owner_new i = UINT32_MAX \<or> owner_new i < length (had_changes sh)"
  shows "pending_flagged x"
proof -
  have "set ((shards sh)[s := i]) \<subseteq> insert i (set (shards sh))" by (rule set_update_subset_insert)
  then show ?thesis using assms unfolding pending_flagged_def by auto
qed

lemma release_shard_ok:
  assumes "pending_flagged sh" and "s < total_shards sh"
  shows "release_shard me s sh = Inr (released_shard me s sh) \<and> pending_flagged (released_shard me s sh)
    \<and> total_shards (released_shard me s sh) = total_shards sh"
proof -
  have s: "s < length (shards sh)" using assms by (simp add: pending_flagged_def)
  then have o: "owner_new (shards sh ! s) = UINT32_MAX \<or> owner_new (shards sh ! s) < length (had_changes sh)"
    using assms(1) by (simp add: pending_flagged_def)
  have "release_shard me s sh = Inr (released_shard me s sh)" "total_shards (released_shard me s sh) = total_shards sh"
    using s o by (auto simp: release_shard_def released_shard_def Let_def upd_shard_def)
  moreover have "pending_flagged (released_shard me s sh)"
    unfolding released_shard_def Let_def using o
    by (auto intro: assms(1) pending_flagged_upd [OF assms(1), where s = s] simp: upd_shard_def s)
  ultimately show ?thesis by blast
qed

lemma settle_shard_ok:
  assumes "pending_flagged sh" and "s < total_shards sh"
  shows "settle_shard me s sh = Inr (settled_shard me s sh) \<and> pending_flagged (settled_shard me s sh)
    \<and> total_shards (settled_shard me s sh) = total_shards sh"
proof -
  have s: "s < length (shards sh)" using assms by (simp add: pending_flagged_def)
  then have o: "owner_new (shards sh ! s) = UINT32_MAX \<or> owner_new (shards sh ! s) < length (had_changes sh)"
    using assms(1) by (simp add: pending_flagged_def)
  have "settle_shard me s sh = Inr (settled_shard me s sh)" "total_shards (settled_shard me s sh) = total_shards sh"
    using s o by (auto simp: settle_shard_def settled_shard_def Let_def upd_shard_def)
  moreover have "pending_flagged (settled_shard me s sh)"
    unfolding settled_shard_def Let_def using o
    by (auto intro: assms(1) pending_flagged_upd [OF assms(1), where s = s] simp: upd_shard_def s)
  ultimately show ?thesis by blast
qed

lemma release_all_ok:
  assumes "pending_flagged sh"
  shows "outcome_fold (release_shard me) [0..<total_shards sh] sh = Inr (fold (released_shard me) [0..<total_shards sh] sh)
    \<and> pending_flagged (fold (released_shard me) [0..<total_shards sh] sh)"
proof -
  let ?P = "\<lambda>x. pending_flagged x \<and> total_shards x = total_shards sh"
  have "outcome_fold (release_shard me) [0..<total_shards sh] sh = Inr (fold (released_shard me) [0..<total_shards sh] sh)
    \<and> ?P (fold (released_shard me) [0..<total_shards sh] sh)"
  proof (rule outcome_fold_total [where P = ?P])
    show "release_shard me x y = Inr (released_shard me x y) \<and> ?P (released_shard me x y)"
      if "x \<in> set [0..<total_shards sh]" "?P y" for x y using release_shard_ok [of y x me] that by simp
  qed (use assms in simp)
  then show ?thesis by blast
qed

lemma settle_all_ok:
  assumes "pending_flagged sh"
  shows "outcome_fold (settle_shard me) [0..<total_shards sh] sh = Inr (fold (settled_shard me) [0..<total_shards sh] sh)
    \<and> pending_flagged (fold (settled_shard me) [0..<total_shards sh] sh)"
proof -
  let ?P = "\<lambda>x. pending_flagged x \<and> total_shards x = total_shards sh"
  have "outcome_fold (settle_shard me) [0..<total_shards sh] sh = Inr (fold (settled_shard me) [0..<total_shards sh] sh)
    \<and> ?P (fold (settled_shard me) [0..<total_shards sh] sh)"
  proof (rule outcome_fold_total [where P = ?P])
    show "settle_shard me x y = Inr (settled_shard me x y) \<and> ?P (settled_shard me x y)"
      if "x \<in> set [0..<total_shards sh]" "?P y" for x y using settle_shard_ok [of y x me] that by simp
  qed (use assms in simp)
  then show ?thesis by blast
qed

end
