(* ===== verification/Worker_Batch.thy ===== *)
theory Worker_Batch
  imports Working_Core
begin

text \<open>
  What a working core does with the packets it receives: which it keeps, which it offloads, and
  that none is lost or reordered on the way.
\<close>

subsection \<open>What \<open>extract_state\<close> leaves alone\<close>

definition stable :: "('t, 'r) shared \<Rightarrow> ('t, 'r) shared \<Rightarrow> bool" where
  "stable sh sh' \<longleftrightarrow> heap_top sh \<le> heap_top sh'
     \<and> (\<forall>b<heap_top sh. cdf (state_at sh' b) = cdf (state_at sh b) \<and> priority (state_at sh' b) = priority (state_at sh b))
     \<and> length (shards sh') = length (shards sh) \<and> (\<forall>s. shard_r (shards sh' ! s) = shard_r (shards sh ! s))
     \<and> ring_at sh' = ring_at sh \<and> had_changes sh' = had_changes sh \<and> controller_signal sh' = controller_signal sh"

lemma stable_refl: "stable sh sh"
  by (simp add: stable_def)

lemma stable_trans: "stable a b \<Longrightarrow> stable b c \<Longrightarrow> stable a c"
  unfolding stable_def by (auto intro: order_trans dest: order_less_le_trans)

lemma stable_touch: "s < length (shards sh) \<Longrightarrow> stable sh (touch_known T s a sh)"
  by (auto simp: stable_def touch_known_def Let_def upd_shard_def record_flow_def roll_epoch_def nth_list_update)

lemma stable_add: "s < length (shards sh) \<Longrightarrow> add_flow T solver s pr f sh = (a, sh') \<Longrightarrow> stable sh sh'"
  by (auto simp: stable_def add_flow_def Let_def upd_shard_def nth_list_update)

lemma stable_count: "s < length (shards sh) \<Longrightarrow> stable sh (count_packet solver s n a sh)"
  by (auto simp: stable_def count_packet_def Let_def upd_shard_def nth_list_update)

lemma stable_lookup:
  assumes "s < length (shards sh)" and "lookup_flow T solver s pr f sh = (a, sh')"
  shows "stable sh sh'"
proof (cases "table_find T f (table (shards sh ! s))")
  case None
  then show ?thesis using assms stable_add by (simp add: lookup_flow_def)
next
  case (Some b)
  then show ?thesis using assms stable_touch stable_refl by (auto simp: lookup_flow_def split: if_splits)
qed

lemma stable_extract:
  assumes "extract_state crc T solver m sh = Inr (a, p, sh')"
  shows "stable sh sh'"
proof -
  let ?f = "packet_flow crc (iqueues sh) m"
  let ?s = "shard_of (total_shards sh) ?f"
  obtain sh1 where s: "?s < length (shards sh)" and look: "lookup_flow T solver ?s (is_priority (frame m)) ?f sh = (a, sh1)"
    and sh': "sh' = count_packet solver ?s (ip_len (frame m)) a sh1"
    using assms by (auto simp: extract_state_def Let_def check_index_Inr split: if_splits prod.splits)
  have 1: "stable sh sh1" by (rule stable_lookup [OF s look])
  then have "?s < length (shards sh1)" using s by (simp add: stable_def)
  then show ?thesis unfolding sh' by (rule stable_trans [OF 1 stable_count])
qed

subsection \<open>The decision on a flow\<close>

text \<open>A packet is kept when its flow's state has priority or its cumulative share is not below the ratio.\<close>

definition keeps :: "('t, 'r) shared \<Rightarrow> addr \<Rightarrow> bool" where
  "keeps sh a \<longleftrightarrow> priority (state_at sh a) \<or> \<not> below_ratio (state_at sh) (shard_r (shards sh ! state_shard (state_at sh a))) a"

definition kept_flow :: "('t \<Rightarrow> (DyssectFlow \<times> addr) set) \<Rightarrow> ('t, 'r) shared \<Rightarrow> DyssectFlow \<Rightarrow> bool" where
  "kept_flow ent sh f \<longleftrightarrow> (\<exists>a. (f, a) \<in> known ent sh (shard_of (total_shards sh) f) \<and> keeps sh a)"

lemma kept_flow_iff:
  assumes "table_ok T K ent" and "(f, a) \<in> known ent sh (shard_of (total_shards sh) f)"
  shows "kept_flow ent sh f \<longleftrightarrow> keeps sh a"
  using assms table_ok_fun [OF assms(1)] unfolding kept_flow_def known_def by blast

lemma known_state:
  assumes "flows_ok ent K sh" and "0 < total_shards sh" and "(f, a) \<in> known ent sh (shard_of (total_shards sh) f)"
  shows "a < heap_top sh" "state_shard (state_at sh a) = shard_of (total_shards sh) f" "state_shard (state_at sh a) < length (shards sh)"
proof -
  have s: "shard_of (total_shards sh) f < total_shards sh" using assms(2) by (simp add: shard_of_def)
  have "state_ok sh (shard_of (total_shards sh) f) f a"
    using flows_okD(2) [OF assms(1) s] assms(3) by (simp add: known_def)
  then show "a < heap_top sh" "state_shard (state_at sh a) = shard_of (total_shards sh) f" "state_shard (state_at sh a) < length (shards sh)"
    using s flows_okD(5) [OF assms(1) s] by (auto simp: state_ok_def)
qed

text \<open>Later packets do not change the decision on a flow that is known.\<close>

lemma keeps_stable:
  assumes "flows_ok ent K sh" and "flows_ok ent K sh'" and "0 < total_shards sh" and "total_shards sh' = total_shards sh" and "stable sh sh'"
    and "(f, a) \<in> known ent sh (shard_of (total_shards sh) f)" and "(f, a) \<in> known ent sh' (shard_of (total_shards sh) f)"
  shows "keeps sh' a = keeps sh a"
proof -
  note k = known_state [OF assms(1,3,6)]
  have "0 < total_shards sh'" "(f, a) \<in> known ent sh' (shard_of (total_shards sh') f)" using assms by simp_all
  note k' = known_state [OF assms(2) this]
  show ?thesis using assms(4,5) k k' by (simp add: keeps_def below_ratio_def stable_def)
qed

text \<open>
  The loop over a batch, from the state \<open>(w, outs, sh)\<close>: what it appends to the kept and to the
  offloaded packets, with the decisions read off the final state.
\<close>

definition tcp_of :: "mbuf \<Rightarrow> u8 list" where
  "tcp_of m = drop (tcp_offset (frame m)) (frame m)"

lemma run_ok:
  assumes "flows_ok ent K sh" and T: "table_ok T K ent" and "0 < total_shards sh" and "extractable crc K sh m"
    and "length (off_pkts w) < OFF_PKTS"
  shows "\<exists>a p sh'. extract_state crc T (worker_solver w) m sh = Inr (a, p, sh') \<and> flows_ok ent K sh' \<and> stable sh sh'
    \<and> total_shards sh' = total_shards sh \<and> iqueues sh' = iqueues sh \<and> (\<forall>t. known ent sh t \<subseteq> known ent sh' t)
    \<and> (flow_of crc sh m, a) \<in> known ent sh' (shard_of (total_shards sh) (flow_of crc sh m))
    \<and> PERFCTR_ANNO p = Some (Suc a) \<and> tcp_mem p = tcp_of m
    \<and> run crc T m (w, outs, sh) = Inr (if keeps sh' a then (w, outs @ [p], sh') else (w\<lparr>off_pkts := off_pkts w @ [m]\<rparr>, outs, sh'))"
proof -
  from extract_state_ok [OF assms(1) T assms(3,4), of "worker_solver w"] obtain a p sh' where
    1: "extract_state crc T (worker_solver w) m sh = Inr (a, p, sh')" "flows_ok ent K sh'" and
    kn: "\<forall>t. known ent sh' t = (if t = shard_of (total_shards sh) (flow_of crc sh m)
         then insert (flow_of crc sh m, a) (known ent sh t) else known ent sh t)"
    and 2: "PERFCTR_ANNO p = Some (Suc a)" "total_shards sh' = total_shards sh" "iqueues sh' = iqueues sh" by blast
  have in': "(flow_of crc sh m, a) \<in> known ent sh' (shard_of (total_shards sh) (flow_of crc sh m))" using kn by simp
  have "0 < total_shards sh'" "(flow_of crc sh m, a) \<in> known ent sh' (shard_of (total_shards sh') (flow_of crc sh m))"
    using in' 2(2) assms(3) by simp_all
  note k = known_state [OF 1(2) this]
  have tcp: "tcp_mem p = tcp_of m"
    using 1(1) by (auto simp: extract_state_def Let_def tcp_of_def check_index_Inr split: if_splits prod.splits)
  have "run crc T m (w, outs, sh) = Inr (if keeps sh' a then (w, outs @ [p], sh') else (w\<lparr>off_pkts := off_pkts w @ [m]\<rparr>, outs, sh'))"
    using 1(1) k(3) assms(5) by (simp add: run_def Let_def keeps_def below_ratio_def)
  moreover have "\<forall>t. known ent sh t \<subseteq> known ent sh' t" using kn by auto
  ultimately show ?thesis using 1 2 in' tcp stable_extract [OF 1(1)] by blast
qed

lemma run_batch_ok:
  assumes "flows_ok ent K sh" and T: "table_ok T K ent" and "0 < total_shards sh" and "\<forall>m\<in>set ms. extractable crc K sh m"
    and "length (off_pkts w) + length ms \<le> OFF_PKTS"
  shows "\<exists>ps sh'. outcome_fold (run crc T) ms (w, outs, sh)
      = Inr (w\<lparr>off_pkts := off_pkts w @ filter (\<lambda>m. \<not> kept_flow ent sh' (flow_of crc sh m)) ms\<rparr>, outs @ ps, sh')
    \<and> flows_ok ent K sh' \<and> stable sh sh' \<and> total_shards sh' = total_shards sh \<and> iqueues sh' = iqueues sh
    \<and> (\<forall>t. known ent sh t \<subseteq> known ent sh' t)
    \<and> list_all2 (\<lambda>m p. flow_tag ent sh' (flow_of crc sh m) (PERFCTR_ANNO p) \<and> tcp_mem p = tcp_of m)
         (filter (\<lambda>m. kept_flow ent sh' (flow_of crc sh m)) ms) ps"
  using assms(1,3-5)
proof (induction ms arbitrary: w outs sh)
  case Nil
  have "w = w\<lparr>off_pkts := off_pkts w\<rparr>" by simp
  then show ?case using Nil stable_refl by auto
next
  case (Cons m ms)
  let ?f = "flow_of crc sh m"
  have "extractable crc K sh m" "length (off_pkts w) < OFF_PKTS" using Cons.prems(3,4) by auto
  from run_ok [OF Cons.prems(1) T Cons.prems(2) this, of outs] obtain a p sh1 where
    1: "flows_ok ent K sh1" "stable sh sh1" "total_shards sh1 = total_shards sh" "iqueues sh1 = iqueues sh" "\<forall>t. known ent sh t \<subseteq> known ent sh1 t"
    "(?f, a) \<in> known ent sh1 (shard_of (total_shards sh) ?f)" "PERFCTR_ANNO p = Some (Suc a)" "tcp_mem p = tcp_of m"
    and run: "run crc T m (w, outs, sh) = Inr (if keeps sh1 a then (w, outs @ [p], sh1) else (w\<lparr>off_pkts := off_pkts w @ [m]\<rparr>, outs, sh1))" by blast
  define w1 where "w1 = (if keeps sh1 a then w else w\<lparr>off_pkts := off_pkts w @ [m]\<rparr>)"
  define o1 where "o1 = (if keeps sh1 a then outs @ [p] else outs)"
  have run': "run crc T m (w, outs, sh) = Inr (w1, o1, sh1)" using run by (simp add: w1_def o1_def)
  have fo: "flow_of crc sh1 = flow_of crc sh" using 1(4) by (intro ext) (simp add: flow_of_def)
  have "\<forall>m\<in>set ms. extractable crc K sh1 m" using Cons.prems(3) extractable_cong [OF 1(4)] by auto
  moreover have "0 < total_shards sh1" using 1(3) Cons.prems(2) by simp
  moreover have "length (off_pkts w1) + length ms \<le> OFF_PKTS" using Cons.prems(4) by (simp add: w1_def)
  ultimately obtain ps sh' where
    2: "outcome_fold (run crc T) ms (w1, o1, sh1)
      = Inr (w1\<lparr>off_pkts := off_pkts w1 @ filter (\<lambda>m. \<not> kept_flow ent sh' (flow_of crc sh m)) ms\<rparr>, o1 @ ps, sh')"
    "flows_ok ent K sh'" "stable sh1 sh'" "total_shards sh' = total_shards sh1" "iqueues sh' = iqueues sh1"
    "\<forall>t. known ent sh1 t \<subseteq> known ent sh' t"
    "list_all2 (\<lambda>m p. flow_tag ent sh' (flow_of crc sh m) (PERFCTR_ANNO p) \<and> tcp_mem p = tcp_of m)
         (filter (\<lambda>m. kept_flow ent sh' (flow_of crc sh m)) ms) ps"
    using Cons.IH [OF 1(1), of w1 o1] fo by auto
  have in': "(?f, a) \<in> known ent sh' (shard_of (total_shards sh) ?f)" using 1(6) 2(6) by blast
  have "keeps sh' a = keeps sh1 a"
    using keeps_stable [OF 1(1) 2(2) _ 2(4) 2(3)] 1(3,6) in' Cons.prems(2) by simp
  then have kept: "kept_flow ent sh' ?f \<longleftrightarrow> keeps sh1 a"
    using kept_flow_iff [OF T, of ?f a sh'] in' 1(3) 2(4) by simp
  have tag: "flow_tag ent sh' ?f (PERFCTR_ANNO p)" using in' 1(3,7) 2(4) by (auto simp: flow_tag_def)
  have sub: "known ent sh t \<subseteq> known ent sh' t" for t using 1(5) 2(6) by blast
  show ?case
  proof (cases "keeps sh1 a")
    case True
    then show ?thesis using run' 1 2 kept tag sub stable_trans [OF 1(2) 2(3)]
      by (intro exI [of _ "p # ps"] exI [of _ sh']) (simp add: w1_def o1_def)
  next
    case False
    then show ?thesis using run' 1 2 kept sub stable_trans [OF 1(2) 2(3)]
      by (intro exI [of _ ps] exI [of _ sh']) (simp add: w1_def o1_def)
  qed
qed

subsection \<open>One call of the task\<close>

lemma ring_burst_ok:
  "ring_ok R cont cap \<Longrightarrow> length (cont r) + length xs \<le> cap r \<Longrightarrow>
     cont (snd (ring_enqueue_burst R xs r)) = cont r @ xs \<and> cap (snd (ring_enqueue_burst R xs r)) = cap r"
  by (simp add: ring_ok_def)

lemma flush_offloaded_ok:
  assumes "ring_ok R cont cap"
  shows "\<exists>sh'. flush_offloaded R (w, sh) = (w\<lparr>off_pkts := []\<rparr>, sh') \<and> sh' = sh\<lparr>ring_at := ring_at sh'\<rparr>
    \<and> cont (ring_at sh' (q w)) = cont (ring_at sh (q w))
        @ take (cap (ring_at sh (q w)) - length (cont (ring_at sh (q w)))) (map PMbuf (off_pkts w)) \<and> (\<forall>p. p \<noteq> q w \<longrightarrow> ring_at sh' p = ring_at sh p)"
proof (cases "off_pkts w = []")
  case True
  then have "w = w\<lparr>off_pkts := []\<rparr>" by simp
  then show ?thesis using True by (auto simp: flush_offloaded_def)
next
  case False
  then show ?thesis using assms by (simp add: flush_offloaded_def set_ring_def ring_ok_def)
qed

definition quiet :: "worker \<Rightarrow> ('t, 'r) shared \<Rightarrow> bool" where
  "quiet w sh \<longleftrightarrow> \<not> myown w \<and> off_pkts w = [] \<and> queueid w < length (controller_signal sh) \<and> queueid w < length (had_changes sh)
     \<and> controller_signal sh ! queueid w \<noteq> 1 \<and> had_changes sh ! queueid w \<noteq> 1"

text \<open>
  C5: a working core that has nothing to take over, and gets a burst of at most 128 packets with headers that
  can be read, treats every flow as a whole and keeps the order. The packets of the flows it keeps all go to the
  service chain, in the order they were received, each with its flow's \<open>global_state\<close> and its TCP header; the others go
  to the ring of its offloading core in the order they were received, as far as there is room in the ring: the
  code ignores how many \<open>rte_ring_enqueue_burst\<close> took, so what does not fit is lost, the latest first.
\<close>

theorem worker_batch_conserved:
  assumes "flows_ok ent K sh" and "table_ok T K ent" and "0 < total_shards sh" and "ring_ok R cont cap"
    and "quiet w sh" and "rx_burst N (burst w) nic = (ms, nic')" and "ms \<noteq> []" and "length ms \<le> 128"
    and "\<forall>m\<in>set ms. extractable crc K sh m"
  shows "\<exists>outs sh'. worker_run_task N crc T R fuel (w, nic, sh) = Inr (True, outs, w, nic', sh') \<and> flows_ok ent K sh'
    \<and> list_all2 (\<lambda>m p. flow_tag ent sh' (flow_of crc sh m) (PERFCTR_ANNO p) \<and> tcp_mem p = tcp_of m)
         (filter (\<lambda>m. kept_flow ent sh' (flow_of crc sh m)) ms) outs
    \<and> cont (ring_at sh' (q w)) = cont (ring_at sh (q w))
        @ take (cap (ring_at sh (q w)) - length (cont (ring_at sh (q w))))
            (map PMbuf (filter (\<lambda>m. \<not> kept_flow ent sh' (flow_of crc sh m)) ms))
    \<and> (\<forall>p. p \<noteq> q w \<longrightarrow> ring_at sh' p = ring_at sh p)"
proof -
  have w: "\<not> myown w" "off_pkts w = []" "controller_signal sh ! queueid w \<noteq> 1" "had_changes sh ! queueid w \<noteq> 1"
    "queueid w < length (controller_signal sh)" "queueid w < length (had_changes sh)"
    using assms(5) by (auto simp: quiet_def)
  from run_batch_ok [OF assms(1-3,9), of w "[]"] assms(8) w(2) obtain ps sh1 where
    1: "outcome_fold (run crc T) ms (w, [], sh)
      = Inr (w\<lparr>off_pkts := filter (\<lambda>m. \<not> kept_flow ent sh1 (flow_of crc sh m)) ms\<rparr>, ps, sh1)"
    "flows_ok ent K sh1" "stable sh sh1"
    "list_all2 (\<lambda>m p. flow_tag ent sh1 (flow_of crc sh m) (PERFCTR_ANNO p) \<and> tcp_mem p = tcp_of m)
         (filter (\<lambda>m. kept_flow ent sh1 (flow_of crc sh m)) ms) ps" by (auto simp: OFF_PKTS_def)
  let ?off = "filter (\<lambda>m. \<not> kept_flow ent sh1 (flow_of crc sh m)) ms"
  let ?w = "w\<lparr>off_pkts := ?off\<rparr>"
  have rings: "ring_at sh1 = ring_at sh" using 1(3) by (simp add: stable_def)
  from flush_offloaded_ok [OF assms(4), where w = ?w and sh = sh1] obtain sh2 where
    2: "flush_offloaded R (?w, sh1) = (?w\<lparr>off_pkts := []\<rparr>, sh2)" "sh2 = sh1\<lparr>ring_at := ring_at sh2\<rparr>"
    "cont (ring_at sh2 (q w)) = cont (ring_at sh1 (q w)) @ take (cap (ring_at sh1 (q w)) - length (cont (ring_at sh1 (q w)))) (map PMbuf ?off)"
    "\<forall>p. p \<noteq> q w \<longrightarrow> ring_at sh2 p = ring_at sh1 p" by auto
  have reset: "?w\<lparr>off_pkts := []\<rparr> = w" using w(2) by simp
  have run: "worker_run_task N crc T R fuel (w, nic, sh) = Inr (True, ps, w, nic', sh2)"
    using w assms(6,7) 1(1) 2(1) reset by (simp add: worker_run_task_def handle_signal_def process_def)
  have same: "state_at sh2 = state_at sh1" "shards sh2 = shards sh1" "total_shards sh2 = total_shards sh1" "heap_top sh2 = heap_top sh1"
    "slots_at sh2 = slots_at sh1" "sfc_length sh2 = sfc_length sh1" by (subst 2(2), simp)+
  have "kept_flow ent sh2 = kept_flow ent sh1" "flow_tag ent sh2 = flow_tag ent sh1" "flows_ok ent K sh2 = flows_ok ent K sh1"
    by (intro ext, simp add: kept_flow_def known_def keeps_def same)
      (intro ext, simp add: flow_tag_def known_def same, simp add: flows_ok_def state_ok_def same)
  then show ?thesis using run 1 2 rings by auto
qed

text \<open>
  C30: the buffer for offloaded packets has 128 entries and its index is not checked: a batch with
  more than 128 packets of a flow that is offloaded overruns it (\<open>BURST\<close> can be configured above
  128).
\<close>

theorem offload_buffer_overrun:
  assumes "flows_ok ent K sh" and "table_ok T K ent" and "0 < total_shards sh" and "off_pkts w = []"
    and "(f, a) \<in> known ent sh (shard_of (total_shards sh) f)" and "\<not> keeps sh a"
    and "\<forall>m\<in>set ms. extractable crc K sh m \<and> flow_of crc sh m = f" and "128 < length ms"
  shows "outcome_fold (run crc T) ms (w, outs, sh) = Inl OutOfBounds"
proof -
  obtain m rest where ms: "ms = take 128 ms @ m # rest" using assms(8) by (metis id_take_nth_drop)
  then have m: "extractable crc K sh m" "flow_of crc sh m = f" "set (take 128 ms) \<subseteq> set ms"
    using assms(7) by (metis in_set_conv_decomp, metis in_set_conv_decomp, simp add: set_take_subset)
  have "\<forall>m\<in>set (take 128 ms). extractable crc K sh m" "length (off_pkts w) + length (take 128 ms) \<le> OFF_PKTS"
    using assms(4,7) m(3) by (auto simp: OFF_PKTS_def)
  from run_batch_ok [OF assms(1-3) this, of outs] obtain ps sh1 where
    1: "outcome_fold (run crc T) (take 128 ms) (w, outs, sh)
      = Inr (w\<lparr>off_pkts := filter (\<lambda>m. \<not> kept_flow ent sh1 (flow_of crc sh m)) (take 128 ms)\<rparr>, outs @ ps, sh1)"
    "flows_ok ent K sh1" "stable sh sh1" "total_shards sh1 = total_shards sh" "iqueues sh1 = iqueues sh"
    "\<forall>t. known ent sh t \<subseteq> known ent sh1 t" using assms(4) by auto
  have in1: "(f, a) \<in> known ent sh1 (shard_of (total_shards sh) f)" using assms(5) 1(6) by blast
  have nk: "\<not> keeps sh1 a" using keeps_stable [OF assms(1) 1(2) assms(3) 1(4,3) assms(5) in1] assms(6) by simp
  then have "\<not> kept_flow ent sh1 f" using kept_flow_iff [OF assms(2), of f a sh1] in1 1(4) by simp
  moreover have "flow_of crc sh m = f" if "m \<in> set (take 128 ms)" for m using assms(7) m(3) that by blast
  ultimately have "filter (\<lambda>m. \<not> kept_flow ent sh1 (flow_of crc sh m)) (take 128 ms) = take 128 ms"
    by (auto simp: filter_id_conv)
  then have full: "off_pkts (w\<lparr>off_pkts := filter (\<lambda>m. \<not> kept_flow ent sh1 (flow_of crc sh m)) (take 128 ms)\<rparr>) = take 128 ms" by simp
  let ?w = "w\<lparr>off_pkts := filter (\<lambda>m. \<not> kept_flow ent sh1 (flow_of crc sh m)) (take 128 ms)\<rparr>"
  have "extractable crc K sh1 m" "0 < total_shards sh1" using m(1) extractable_cong [OF 1(5)] 1(4) assms(3) by auto
  from extract_state_ok [OF 1(2) assms(2) this(2,1), of "worker_solver ?w"] obtain a' p sh2 where
    2: "extract_state crc T (worker_solver ?w) m sh1 = Inr (a', p, sh2)" "flows_ok ent K sh2" "total_shards sh2 = total_shards sh1"
    and kn: "\<forall>t. known ent sh2 t = (if t = shard_of (total_shards sh1) (flow_of crc sh1 m)
         then insert (flow_of crc sh1 m, a') (known ent sh1 t) else known ent sh1 t)" by blast
  have f1: "flow_of crc sh1 m = f" using m(2) 1(5) by (simp add: flow_of_def)
  have in2: "(f, a) \<in> known ent sh2 (shard_of (total_shards sh) f)" "(f, a') \<in> known ent sh2 (shard_of (total_shards sh) f)"
    using kn in1 f1 1(4) by auto
  then have "a' = a" using table_ok_fun [OF assms(2)] by (auto simp: known_def)
  have st2: "stable sh sh2" using stable_trans [OF 1(3) stable_extract [OF 2(1)]] .
  have "\<not> keeps sh2 a" using keeps_stable [OF assms(1) 2(2) assms(3) _ st2 assms(5) in2(1)] assms(6) 1(4) 2(3) by simp
  moreover have "state_shard (state_at sh2 a) < length (shards sh2)"
    using known_state(3) [OF 2(2), of f a] in2(1) 2(3) 1(4) assms(3) by simp
  ultimately have "run crc T m (?w, outs @ ps, sh1) = Inl OutOfBounds"
    using 2(1) full assms(8) \<open>a' = a\<close> by (simp add: run_def Let_def keeps_def below_ratio_def OFF_PKTS_def)
  then show ?thesis by (subst ms) (simp add: outcome_fold_append 1(1))
qed

subsection \<open>Examples\<close>

lemma configure_flags:
  assumes "configure T R env cfg mem st = Inr (c, sh)"
  shows "had_changes sh = replicate (arg_W cfg + arg_E cfg) 0" "controller_signal sh = replicate (arg_W cfg + arg_E cfg) 0"
    "transfer_r sh = replicate (arg_W cfg + arg_E cfg) 0" "transfer_shard sh = replicate (arg_W cfg + arg_E cfg) 0"
    "transfer_offloading sh = replicate (arg_W cfg + arg_E cfg) 0"
    "rings sh = map RingOf [0..<arg_W cfg]" "queues sh = map QueueOf [0..<arg_W cfg]"
proof -
  from assms obtain off new where
    sh: "sh = init_queues R (arg_W cfg) (arg_E cfg) (init_shards T R (arg_W cfg)
       ((configured_shared cfg mem st)\<lparr>offloading_from_working := off, new_offloading_from_working := new\<rparr>))"
    by (rule configure_success)
  note frame = init_queues_frame [where E = "arg_E cfg" and W = "arg_W cfg" and R = R and sh = "init_shards T R (arg_W cfg)
       ((configured_shared cfg mem st)\<lparr>offloading_from_working := off, new_offloading_from_working := new\<rparr>)"]
  show "had_changes sh = replicate (arg_W cfg + arg_E cfg) 0" "controller_signal sh = replicate (arg_W cfg + arg_E cfg) 0"
    "transfer_r sh = replicate (arg_W cfg + arg_E cfg) 0" "transfer_shard sh = replicate (arg_W cfg + arg_E cfg) 0"
    "transfer_offloading sh = replicate (arg_W cfg + arg_E cfg) 0"
    "rings sh = map RingOf [0..<arg_W cfg]" "queues sh = map QueueOf [0..<arg_W cfg]"
    using frame by (auto simp: sh init_shards_def configured_shared_def Let_def elim!: same_but_ringsE)
qed

definition ex_worker :: worker where
  "ex_worker = \<lparr>portid = 0, queueid = 0, burst = 32, worker_solver = True, off_pkts = [], qsize = 256, myown = False,
     q = QueueOf 0, myring = RingOf 0, offloading_idx = 0\<rparr>"

lemma ex_quiet:
  assumes "ex_configure 8 4 2 2 = Inr (c, sh)"
  shows "quiet ex_worker sh" "cont (ring_at sh (QueueOf 0)) = [] \<and> cap (ring_at sh (QueueOf 0)) = 4095 \<or> \<not> ring_ok list_ring_ops cont cap"
  using configure_flags [OF assms] configure_rings [OF assms, of cont cap] by (auto simp: quiet_def ex_worker_def ex_config_def)

theorem worker_batch_conserved_witness:
  "\<exists>c sh outs w sh'. ex_configure 8 4 2 2 = Inr (c, sh)
     \<and> worker_run_task list_nic_ops ex_crc list_table_ops list_ring_ops 0 (ex_worker, map snd ex_trace, sh) = Inr (True, outs, w, [], sh')
     \<and> length outs + length (fst (ring_at sh' (QueueOf 0))) = 3"
proof -
  obtain c sh where conf: "ex_configure 8 4 2 2 = Inr (c, sh)" using ex_configure_ok [of 8 2 4 2] by auto
  note ok = ex_trace_ok [OF conf]
  have w: "q ex_worker = QueueOf 0" "burst ex_worker = 32" by (simp_all add: ex_worker_def)
  have room: "fst (ring_at sh (QueueOf 0)) = []" "snd (ring_at sh (QueueOf 0)) = 4095"
    using ex_quiet(2) [OF conf, of fst snd] list_ring_ok by auto
  have ms: "map snd ex_trace \<noteq> []" "length (map snd ex_trace) \<le> 128"
    "rx_burst list_nic_ops (burst ex_worker) (map snd ex_trace) = (map snd ex_trace, [])"
    "\<forall>m\<in>set (map snd ex_trace). extractable ex_crc ex_packet_keys sh m" "0 < total_shards sh"
    "length (map snd ex_trace) = 3"
    using ok(2,4) w by (simp_all add: list_nic_ops_def ex_trace_def)
  from worker_batch_conserved [OF ok(1) list_table_ok [OF ex_packet_keys_ok] ms(5) list_ring_ok ex_quiet(1) [OF conf] ms(3,1,2,4), of 0]
  obtain outs sh' where
    run: "worker_run_task list_nic_ops ex_crc list_table_ops list_ring_ops 0 (ex_worker, map snd ex_trace, sh) = Inr (True, outs, ex_worker, [], sh')"
    and outs: "list_all2 (\<lambda>m p. flow_tag (\<lambda>t. set (AList.clearjunk t)) sh' (flow_of ex_crc sh m) (PERFCTR_ANNO p) \<and> tcp_mem p = tcp_of m)
         (filter (\<lambda>m. kept_flow (\<lambda>t. set (AList.clearjunk t)) sh' (flow_of ex_crc sh m)) (map snd ex_trace)) outs"
    and queue: "fst (ring_at sh' (q ex_worker)) = fst (ring_at sh (q ex_worker))
      @ take (snd (ring_at sh (q ex_worker)) - length (fst (ring_at sh (q ex_worker))))
          (map PMbuf (filter (\<lambda>m. \<not> kept_flow (\<lambda>t. set (AList.clearjunk t)) sh' (flow_of ex_crc sh m)) (map snd ex_trace)))" by blast
  let ?off = "filter (\<lambda>m. \<not> kept_flow (\<lambda>t. set (AList.clearjunk t)) sh' (flow_of ex_crc sh m)) (map snd ex_trace)"
  have "length ?off \<le> 3" using ms(6) length_filter_le [of _ "map snd ex_trace"] by metis
  then have "length (fst (ring_at sh' (QueueOf 0))) = length ?off" using queue room w by simp
  then have "length outs + length (fst (ring_at sh' (QueueOf 0))) = length (map snd ex_trace)"
    using list_all2_lengthD [OF outs]
      sum_length_filter_compl [of "\<lambda>m. kept_flow (\<lambda>t. set (AList.clearjunk t)) sh' (flow_of ex_crc sh m)" "map snd ex_trace"] by simp
  then show ?thesis using conf run ms(6) by (metis (no_types))
qed

text \<open>A configured system in which worker 1 gave away half of shard 1, which has one flow, without a share yet.\<close>

definition ex_offloading :: "(list_table, list_ring) shared \<Rightarrow> (list_table, list_ring) shared" where
  "ex_offloading sh = (upd_shard 1 (\<lambda>i. i\<lparr>shard_r := 1/2, table := [(ex_packet_flow 1792 5, 10)]\<rparr>) sh)
     \<lparr>heap_top := 20, slots_at := (slots_at sh)(11 := replicate (sfc_length sh) NoState),
      state_at := (state_at sh)(10 := zero_state\<lparr>flow := ex_packet_flow 1792 5, state_shard := 1, global_state := 11\<rparr>)\<rparr>"

lemma ex_below: "is_less_than 0 (1/2)"
  by code_simp

lemma ex_shard_of: "shard_of 4 (ex_packet_flow 1792 5) = 1"
  by code_simp

lemma ex_offloading_ok:
  assumes "ex_configure 8 4 2 2 = Inr (c, sh)"
  shows "flows_ok (\<lambda>t. set (AList.clearjunk t)) ex_packet_keys (ex_offloading sh)"
    "(ex_packet_flow 1792 5, 10) \<in> known (\<lambda>t. set (AList.clearjunk t)) (ex_offloading sh) 1"
    "\<not> keeps (ex_offloading sh) 10" "total_shards (ex_offloading sh) = 4" "iqueues (ex_offloading sh) = 2"
proof -
  have sh: "shards sh ! s = init_shard list_table_ops list_ring_ops 2 s" if "s < 4" for s
    using configure_shards [OF assms] that by (simp add: ex_config_def)
  have len: "length (shards sh) = 4" "total_shards sh = 4" using configure_shared_ok [OF assms] by (auto simp: shared_ok_def ex_config_def)
  show "total_shards (ex_offloading sh) = 4" using len by (simp add: ex_offloading_def upd_shard_def)
  show "iqueues (ex_offloading sh) = 2" using ex_trace_ok(3) [OF assms] by (simp add: ex_offloading_def upd_shard_def)
  have at: "shards (ex_offloading sh) ! s = (if s = 1 then (init_shard list_table_ops list_ring_ops 2 1)\<lparr>shard_r := 1/2, table := [(ex_packet_flow 1792 5, 10)]\<rparr>
     else init_shard list_table_ops list_ring_ops 2 s)" if "s < 4" for s
    using sh that len by (simp add: ex_offloading_def upd_shard_def nth_list_update)
  show "(ex_packet_flow 1792 5, 10) \<in> known (\<lambda>t. set (AList.clearjunk t)) (ex_offloading sh) 1"
    by (simp add: known_def at)
  show "flows_ok (\<lambda>t. set (AList.clearjunk t)) ex_packet_keys (ex_offloading sh)"
    using len ex_shard_of at
    by (auto simp: flows_ok_def state_ok_def init_shard_def list_table_ops_def ex_packet_keys_def zero_state_def
        ex_offloading_def upd_shard_def split: if_splits)
  show "\<not> keeps (ex_offloading sh) 10"
    using at [of 1] ex_below by (simp add: keeps_def below_ratio_def ex_offloading_def zero_state_def upd_shard_def len)
qed

theorem offload_buffer_overrun_witness:
  "\<exists>c sh. ex_configure 8 4 2 2 = Inr (c, sh)
     \<and> outcome_fold (run ex_crc list_table_ops) (replicate 129 (ex_mbuf 0 5 7)) (ex_worker, [], ex_offloading sh) = Inl OutOfBounds"
proof -
  obtain c sh where conf: "ex_configure 8 4 2 2 = Inr (c, sh)" using ex_configure_ok [of 8 2 4 2] by auto
  note ok = ex_offloading_ok [OF conf]
  have "flow_of ex_crc (ex_offloading sh) (ex_mbuf 0 5 7) = ex_packet_flow 1792 5"
    by (simp add: flow_of_def ok(5) ex_packet_flow)
  then have m: "extractable ex_crc ex_packet_keys (ex_offloading sh) (ex_mbuf 0 5 7) \<and> flow_of ex_crc (ex_offloading sh) (ex_mbuf 0 5 7) = ex_packet_flow 1792 5"
    by (simp add: extractable_def ex_headers ex_packet_keys_def)
  have "outcome_fold (run ex_crc list_table_ops) (replicate 129 (ex_mbuf 0 5 7)) (ex_worker, [], ex_offloading sh) = Inl OutOfBounds"
    using ok m ex_shard_of
    by (intro offload_buffer_overrun [OF ok(1) list_table_ok [OF ex_packet_keys_ok], of "ex_worker" "ex_packet_flow 1792 5" 10])
      (simp_all add: ex_worker_def)
  then show ?thesis using conf by blast
qed

end
