(* ===== verification/Worker_Transfer.thy ===== *)
theory Worker_Transfer
  imports Worker_Batch
begin

text \<open>
  How a working core takes over changes: the loops that move packets between its rings, the order
  in which packets wait in its own ring, and when a shard is handed to its new owner.
\<close>

subsection \<open>Moving a ring into another\<close>

lemma ring_burst:
  assumes "ring_ok R cont cap"
  shows "cont (snd (ring_enqueue_burst R xs r)) = cont r @ take (cap r - length (cont r)) xs"
    "cap (snd (ring_enqueue_burst R xs r)) = cap r"
    "fst (ring_dequeue_burst R n r) = take n (cont r)" "cont (snd (ring_dequeue_burst R n r)) = drop n (cont r)"
    "cap (snd (ring_dequeue_burst R n r)) = cap r" "ring_count R r = length (cont r)"
  using assms by (simp_all add: ring_ok_def)

lemma take_through: "take m (take b xs) @ take (m - length (take m (take b xs))) (drop b xs) = take m xs"
proof -
  have "m - length (take m (take b xs)) = m - length (take b xs)" by (auto simp: min_def)
  then show ?thesis using take_append [of m "take b xs" "drop b xs"] by (simp only: append_take_drop_id)
qed

text \<open>The receiver gets the sender's packets in order, as many as fit; the sender ends empty.\<close>

lemma move_ring_cont:
  assumes "ring_ok R cont cap" and "move_ring R b n (src, dst) = Inr (src', dst')"
  shows "cont src' = [] \<and> cont dst' = cont dst @ take (cap dst - length (cont dst)) (cont src) \<and> cap dst' = cap dst \<and> cap src' = cap src"
  using assms(2)
proof (induction n arbitrary: src dst)
  case 0
  then show ?case using ring_burst(6) [OF assms(1)] by (simp split: if_splits)
next
  case (Suc n)
  note r = ring_burst [OF assms(1)]
  show ?case
  proof (cases "cont src = []")
    case True
    then show ?thesis using Suc.prems r by simp
  next
    case False
    obtain xs src1 where 1: "ring_dequeue_burst R b src = (xs, src1)" by (cases "ring_dequeue_burst R b src")
    obtain k dst1 where 2: "ring_enqueue_burst R xs dst = (k, dst1)" by (cases "ring_enqueue_burst R xs dst")
    have deq: "fst (ring_dequeue_burst R b src) = xs" "snd (ring_dequeue_burst R b src) = src1"
      "snd (ring_enqueue_burst R xs dst) = dst1" by (simp_all add: 1 2)
    have c: "xs = take b (cont src)" "cont src1 = drop b (cont src)" "cap src1 = cap src"
      "cont dst1 = cont dst @ take (cap dst - length (cont dst)) xs" "cap dst1 = cap dst"
      using r(1,2) [of xs dst] r(3-5) [of b src] unfolding deq by simp_all
    have "move_ring R b n (src1, dst1) = Inr (src', dst')" using Suc.prems False 1 2 r(6) by simp
    note IH = Suc.IH [OF this]
    let ?m = "cap dst - length (cont dst)"
    have "cap dst - length (cont dst1) = ?m - length (take ?m xs)" using c(4) by simp
    then have "cont dst' = cont dst @ take ?m xs @ take (?m - length (take ?m xs)) (drop b (cont src))"
      using IH c(2,4,5) by (simp del: length_take)
    also have "\<dots> = cont dst @ take ?m (cont src)" unfolding c(1) take_through ..
    finally show ?thesis using IH c(3,5) by simp
  qed
qed

text \<open>The loop ends when the burst is not empty; with \<open>BURST 0\<close> and a ring that is not empty it spins.\<close>

lemma move_ring_returns:
  assumes "ring_ok R cont cap" and "0 < b" and "length (cont src) \<le> n"
  shows "\<exists>src' dst'. move_ring R b n (src, dst) = Inr (src', dst')"
  using assms(3)
proof (induction n arbitrary: src dst)
  case 0
  then show ?case using ring_burst(6) [OF assms(1)] by simp
next
  case (Suc n)
  have "length (cont (snd (ring_dequeue_burst R b src))) \<le> n"
    using Suc.prems assms(2) ring_burst(4) [OF assms(1)] by (cases "cont src = []") auto
  from Suc.IH [OF this] show ?case by (auto simp: split_beta)
qed

lemma move_ring_spins:
  assumes "ring_ok R cont cap" and "cont src \<noteq> []"
  shows "move_ring R 0 n (src, dst) = Inl Spinning"
  using assms(2)
proof (induction n arbitrary: src dst)
  case 0
  then show ?case using ring_burst(6) [OF assms(1)] by simp
next
  case (Suc n)
  have "cont (snd (ring_dequeue_burst R 0 src)) \<noteq> []" using Suc.prems ring_burst(4) [OF assms(1), of 0 src] by simp
  from Suc.IH [OF this] show ?case using Suc.prems ring_burst(6) [OF assms(1)] by (simp add: split_beta)
qed

lemma set_ring_same [simp]: "set_ring p (ring_at sh p) sh = sh"
  by (simp add: set_ring_def)

lemma set_ring_twice [simp]: "set_ring p r (set_ring p r' sh) = set_ring p r sh"
  by (simp add: set_ring_def)

text \<open>The effect of draining the queue shared with the offloading core.\<close>

lemma drain_q_returns:
  assumes "ring_ok R cont cap" and "0 < burst w \<or> cont (ring_at sh (q w)) = []"
  shows "\<exists>w' sh'. drain_q R (w, sh) = Inr (w', sh')"
proof (cases "cont (ring_at sh (q w)) = []")
  case False
  have "\<exists>src' dst'. move_ring R (burst w) (length (cont (ring_at sh (q w)))) (ring_at sh (q w), ring_at sh (myring w)) = Inr (src', dst')"
    using move_ring_returns [OF assms(1), of "burst w" "ring_at sh (q w)" "length (cont (ring_at sh (q w)))"] assms(2) False by simp
  then show ?thesis using False ring_burst(6) [OF assms(1)] by (auto simp: drain_q_def Let_def)
qed (simp add: drain_q_def ring_burst(6) [OF assms(1)])

lemma drain_q_cont:
  assumes "ring_ok R cont cap" and "q w \<noteq> myring w" and "drain_q R (w, sh) = Inr (w', sh')"
  shows "w' = w\<lparr>myown := myown w \<or> cont (ring_at sh (q w)) \<noteq> []\<rparr>" "sh' = sh\<lparr>ring_at := ring_at sh'\<rparr>"
    "cont (ring_at sh' (q w)) = []"
    "cont (ring_at sh' (myring w)) = cont (ring_at sh (myring w))
       @ take (cap (ring_at sh (myring w)) - length (cont (ring_at sh (myring w)))) (cont (ring_at sh (q w)))"
    "p \<noteq> q w \<Longrightarrow> p \<noteq> myring w \<Longrightarrow> ring_at sh' p = ring_at sh p"
    "cap (ring_at sh' (q w)) = cap (ring_at sh (q w))"
proof -
  have "w' = w\<lparr>myown := myown w \<or> cont (ring_at sh (q w)) \<noteq> []\<rparr> \<and> sh' = sh\<lparr>ring_at := ring_at sh'\<rparr>
    \<and> cont (ring_at sh' (q w)) = []
    \<and> cont (ring_at sh' (myring w)) = cont (ring_at sh (myring w))
       @ take (cap (ring_at sh (myring w)) - length (cont (ring_at sh (myring w)))) (cont (ring_at sh (q w)))
    \<and> (p \<noteq> q w \<longrightarrow> p \<noteq> myring w \<longrightarrow> ring_at sh' p = ring_at sh p)
    \<and> cap (ring_at sh' (q w)) = cap (ring_at sh (q w))" for p
  proof (cases "cont (ring_at sh (q w)) = []")
    case True
    then show ?thesis using assms(3) ring_burst(6) [OF assms(1)] by (simp add: drain_q_def)
  next
    case False
    then obtain src dst where mv: "move_ring R (burst w) (length (cont (ring_at sh (q w)))) (ring_at sh (q w), ring_at sh (myring w)) = Inr (src, dst)"
      and w': "w' = w\<lparr>myown := True\<rparr>" and sh': "sh' = set_ring (myring w) dst (set_ring (q w) src sh)"
      using assms(3) ring_burst(6) [OF assms(1)] by (auto simp: drain_q_def Let_def outcome_bind_Inr)
    show ?thesis using move_ring_cont [OF assms(1) mv] assms(2) False w' by (simp add: sh' set_ring_def)
  qed
  then show "w' = w\<lparr>myown := myown w \<or> cont (ring_at sh (q w)) \<noteq> []\<rparr>" "sh' = sh\<lparr>ring_at := ring_at sh'\<rparr>"
    "cont (ring_at sh' (q w)) = []"
    "cont (ring_at sh' (myring w)) = cont (ring_at sh (myring w))
       @ take (cap (ring_at sh (myring w)) - length (cont (ring_at sh (myring w)))) (cont (ring_at sh (q w)))"
    "p \<noteq> q w \<Longrightarrow> p \<noteq> myring w \<Longrightarrow> ring_at sh' p = ring_at sh p"
    "cap (ring_at sh' (q w)) = cap (ring_at sh (q w))" by blast+
qed

subsection \<open>Receiving during a transfer\<close>

text \<open>What the NIC has for this queue, when nothing arrives while the worker receives.\<close>

definition nic_backlog :: "'n nic_ops \<Rightarrow> ('n \<Rightarrow> mbuf list) \<Rightarrow> bool" where
  "nic_backlog N B \<longleftrightarrow> (\<forall>n x. fst (rx_burst N n x) = take n (B x) \<and> B (snd (rx_burst N n x)) = drop n (B x))
     \<and> (\<forall>x. rx_queue_count N x = length (B x))"

lemma list_nic_backlog: "nic_backlog list_nic_ops (\<lambda>x. x)"
  by (simp add: nic_backlog_def list_nic_ops_def)

declare receive_own.simps [simp del]

lemma receive_own_frame:
  "receive_own N R fuel left (w, nic, sh) = Inr (w', nic', sh') \<Longrightarrow>
     w' = w\<lparr>myown := myown w \<or> left \<noteq> 0\<rparr> \<and> (left = 0 \<longrightarrow> sh' = sh) \<and> (\<exists>r. sh' = set_ring (myring w) r sh)"
proof (induction fuel arbitrary: left w nic sh)
  case 0
  then show ?case
    by (subst (asm) receive_own.simps) (auto split: if_splits intro!: exI [of _ "ring_at sh (myring w)"])
next
  case (Suc n)
  obtain ms nic1 where b: "rx_burst N (burst w) nic = (ms, nic1)" by (cases "rx_burst N (burst w) nic")
  consider "left = 0" | "left \<noteq> 0" "ms = []" | "left \<noteq> 0" "ms \<noteq> []" by blast
  then show ?case
  proof cases
    case 3
    let ?r = "snd (ring_enqueue_burst R (map PMbuf ms) (ring_at sh (myring w)))"
    have "receive_own N R n (left - of_nat (length ms)) (w\<lparr>myown := True\<rparr>, nic1, set_ring (myring w) ?r sh) = Inr (w', nic', sh')"
      using Suc.prems 3 b by (subst (asm) receive_own.simps) simp
    from Suc.IH [OF this] show ?thesis using 3 by auto
  next
    case 1
    then show ?thesis using Suc.prems by (subst (asm) receive_own.simps) (auto intro!: exI [of _ "ring_at sh (myring w)"])
  next
    case 2
    then show ?thesis using Suc.prems b by (subst (asm) receive_own.simps) (auto intro!: exI [of _ "ring_at sh (myring w)"])
  qed
qed

lemma receive_own_backlog:
  assumes R: "ring_ok R cont cap" and N: "nic_backlog N B"
    and "0 < burst w" and "length (B nic) < fuel" and "length (cont (ring_at sh (myring w))) + length (B nic) \<le> cap (ring_at sh (myring w))"
  shows "\<exists>k w' nic' sh'. receive_own N R fuel left (w, nic, sh) = Inr (w', nic', sh') \<and> B nic' = drop k (B nic) \<and> k \<le> length (B nic)
    \<and> cont (ring_at sh' (myring w)) = cont (ring_at sh (myring w)) @ map PMbuf (take k (B nic))
    \<and> cap (ring_at sh' (myring w)) = cap (ring_at sh (myring w)) \<and> (left = of_nat (length (B nic)) \<longrightarrow> length (B nic) < 2 ^ 32 \<longrightarrow> k = length (B nic))"
  using assms(3-5)
proof (induction fuel arbitrary: left w nic sh)
  case (Suc n)
  obtain ms nic1 where b: "rx_burst N (burst w) nic = (ms, nic1)" by (cases "rx_burst N (burst w) nic")
  have ms: "ms = take (burst w) (B nic)" "B nic1 = drop (burst w) (B nic)" using N b unfolding nic_backlog_def by (metis fst_conv, metis snd_conv)
  consider "left = 0" | "left \<noteq> 0" "ms = []" | "left \<noteq> 0" "ms \<noteq> []" by blast
  then show ?case
  proof cases
    case 1
    then have "left = of_nat (length (B nic)) \<longrightarrow> length (B nic) < 2 ^ 32 \<longrightarrow> 0 = length (B nic)"
      by (auto simp: word_of_nat_eq_0_iff dest: nat_dvd_not_less)
    then show ?thesis using 1 by (subst receive_own.simps) (auto intro!: exI [of _ "0 :: nat"])
  next
    case 2
    then show ?thesis using b ms Suc.prems(1) by (subst receive_own.simps) (auto intro!: exI [of _ "0 :: nat"])
  next
    case 3
    let ?r = "snd (ring_enqueue_burst R (map PMbuf ms) (ring_at sh (myring w)))"
    let ?sh = "set_ring (myring w) ?r sh" and ?w = "w\<lparr>myown := True\<rparr>"
    have r: "cont ?r = cont (ring_at sh (myring w)) @ map PMbuf ms" "cap ?r = cap (ring_at sh (myring w))"
      using ring_burst(1,2) [OF R, of "map PMbuf ms"] Suc.prems(3) ms(1) by simp_all
    have len: "length ms + length (B nic1) = length (B nic)" "0 < length ms" using ms 3 by auto
    have "length (B nic1) < n" using len Suc.prems(2) by linarith
    moreover have "length (cont (ring_at ?sh (myring ?w))) + length (B nic1) \<le> cap (ring_at ?sh (myring ?w))"
      using len r Suc.prems(3) by auto
    ultimately obtain k w' nic' sh' where
      k: "receive_own N R n (left - of_nat (length ms)) (?w, nic1, ?sh) = Inr (w', nic', sh')" "B nic' = drop k (B nic1)" "k \<le> length (B nic1)"
      "cont (ring_at sh' (myring w)) = cont ?r @ map PMbuf (take k (B nic1))" "cap (ring_at sh' (myring w)) = cap ?r"
      "left - of_nat (length ms) = of_nat (length (B nic1)) \<longrightarrow> length (B nic1) < 2 ^ 32 \<longrightarrow> k = length (B nic1)"
      using Suc.IH [of ?w nic1 ?sh "left - of_nat (length ms)"] Suc.prems(1) by auto
    have tk: "take (length ms + k) (B nic) = ms @ take k (B nic1)" "drop (length ms + k) (B nic) = drop k (B nic1)"
    proof -
      have "B nic = ms @ B nic1" using ms by simp
      then show "take (length ms + k) (B nic) = ms @ take k (B nic1)" "drop (length ms + k) (B nic) = drop k (B nic1)" by simp_all
    qed
    have "receive_own N R (Suc n) left (w, nic, sh) = Inr (w', nic', sh')" using k(1) 3 b by (subst receive_own.simps) simp
    have "of_nat (length (B nic)) - of_nat (length ms) = (of_nat (length (B nic1)) :: u32)"
      using len(1) by (simp flip: of_nat_add add: add.commute diff_eq_eq)
    then have all: "left = of_nat (length (B nic)) \<longrightarrow> length (B nic) < 2 ^ 32 \<longrightarrow> length ms + k = length (B nic)"
      using k(6) len by auto
    show ?thesis using k(1-5) \<open>receive_own N R (Suc n) left (w, nic, sh) = Inr (w', nic', sh')\<close> r tk len all
      by (intro exI [of _ "length ms + k"]) auto
  qed
next
  case 0
  then have False by simp
  then show ?case ..
qed

text \<open>
  \<open>count\<close> is unsigned and only compared with 0: when the NIC keeps delivering full bursts and the
  number found at first is not a multiple of the burst, it never becomes 0.
\<close>

definition saturated :: "'n nic_ops \<Rightarrow> nat \<Rightarrow> 'n set \<Rightarrow> bool" where
  "saturated N b X \<longleftrightarrow> (\<forall>x\<in>X. length (fst (rx_burst N b x)) = b \<and> snd (rx_burst N b x) \<in> X)"

lemma wrap_mod:
  assumes "b dvd 2 ^ 32" and "0 < b" and "b < 2 ^ 32" and "unat (x :: u32) mod b \<noteq> 0"
  shows "unat (x - of_nat b) mod b \<noteq> 0"
proof -
  have "unat (x - of_nat b) = (if b \<le> unat x then unat x - b else unat x + 2 ^ 32 - b)"
    using assms(3) by (simp add: unat_sub_if' unat_of_nat take_bit_eq_mod)
  moreover have "(unat x - b) mod b = unat x mod b" if "b \<le> unat x" using that by (simp add: le_mod_geq)
  moreover have "(unat x + 2 ^ 32 - b) mod b = unat x mod b"
  proof -
    have "(unat x + 2 ^ 32 - b) mod b = (unat x + 2 ^ 32) mod b" using assms(3) by (simp add: le_mod_geq)
    also have "\<dots> = unat x mod b" using assms(1) by (metis add.right_neutral dvd_imp_mod_0 mod_add_right_eq)
    finally show ?thesis .
  qed
  ultimately have "unat (x - of_nat b) mod b = unat x mod b" by auto
  then show ?thesis using assms(4) by simp
qed

lemma receive_own_spins:
  assumes "saturated N (burst w) X" and "nic \<in> X" and "burst w dvd 2 ^ 32" and "0 < burst w" and "burst w < 2 ^ 32"
    and "unat left mod burst w \<noteq> 0"
  shows "receive_own N R fuel left (w, nic, sh) = Inl Spinning"
  using assms
proof (induction fuel arbitrary: left w nic sh)
  case (Suc n)
  have "left \<noteq> 0" using Suc.prems(6) by auto
  moreover obtain ms nic1 where b: "rx_burst N (burst w) nic = (ms, nic1)" by (cases "rx_burst N (burst w) nic")
  have ms: "length ms = burst w" "nic1 \<in> X" using Suc.prems(1,2) b unfolding saturated_def by (metis fst_conv, metis snd_conv)
  note wrap = wrap_mod [OF Suc.prems(3,4,5,6)]
  have "receive_own N R n (left - of_nat (burst w)) (w\<lparr>myown := True\<rparr>, nic1, set_ring (myring w) r sh) = Inl Spinning" for r
    using Suc.IH [of "w\<lparr>myown := True\<rparr>" nic1 "left - of_nat (burst w)"] Suc.prems ms wrap by simp
  moreover have "ms \<noteq> []" using ms Suc.prems(4) by auto
  ultimately show ?case using b ms by (subst receive_own.simps) simp
next
  case 0
  then have "left \<noteq> 0" by auto
  then show ?case by (subst receive_own.simps) simp
qed

subsection \<open>Taking over shards\<close>

lemma count_zero: "n < 2 ^ 32 \<Longrightarrow> (of_nat n :: u32) = 0 \<longleftrightarrow> n = 0"
  by (auto simp: word_of_nat_eq_0_iff dest!: dvd_imp_le)

text \<open>The worker's two rings are distinct and are not control rings.\<close>

definition worker_rings :: "worker \<Rightarrow> ('t, 'r) shared \<Rightarrow> bool" where
  "worker_rings w sh \<longleftrightarrow> q w \<noteq> myring w \<and> {q w, myring w} \<inter> (set (toAddQueue sh) \<union> set (toRemoveQueue sh)) = {}"

text \<open>A message to a control ring changes nothing else.\<close>

definition only_control :: "('t, 'r) shared \<Rightarrow> ('t, 'r) shared \<Rightarrow> bool" where
  "only_control sh sh' \<longleftrightarrow> sh' = sh\<lparr>ring_at := ring_at sh'\<rparr>
     \<and> (\<forall>p. p \<notin> set (toAddQueue sh) \<union> set (toRemoveQueue sh) \<longrightarrow> ring_at sh' p = ring_at sh p)"

lemma only_control_refl: "only_control sh sh"
  by (simp add: only_control_def)

lemma only_control_enqueue:
  assumes "p \<in> set (toAddQueue sh) \<union> set (toRemoveQueue sh)"
  shows "only_control sh (enqueue_at R p x sh)"
  using assms unfolding only_control_def enqueue_at_def set_ring_def by auto

lemma send_control:
  "send_remove R e p sh = Inr sh' \<Longrightarrow> only_control sh sh'" "send_add R e p sh = Inr sh' \<Longrightarrow> only_control sh sh'"
  by (auto simp: send_remove_def send_add_def check_index_Inr intro!: only_control_enqueue)

lemma maybe_send_control:
  "maybe_send send_remove R e p sh = Inr sh' \<Longrightarrow> only_control sh sh'" "maybe_send send_add R e p sh = Inr sh' \<Longrightarrow> only_control sh sh'"
  using send_control only_control_refl by (auto simp: maybe_send_def split: if_splits)

lemma only_control_worker_rings:
  assumes "only_control sh sh'" and "worker_rings w sh"
  shows "ring_at sh' (q w) = ring_at sh (q w)" "ring_at sh' (myring w) = ring_at sh (myring w)" "worker_rings w sh'"
  using assms unfolding only_control_def worker_rings_def
  by (cases sh, cases sh', simp)+

lemma only_controlE:
  assumes "only_control sh sh'"
  obtains r where "sh' = sh\<lparr>ring_at := r\<rparr>" "\<And>p. p \<notin> set (toAddQueue sh) \<union> set (toRemoveQueue sh) \<Longrightarrow> r p = ring_at sh p"
  using assms unfolding only_control_def by blast

text \<open>The offloading core, if there is one, has control rings.\<close>

definition offloading_ok :: "worker \<Rightarrow> ('t, 'r) shared \<Rightarrow> bool" where
  "offloading_ok w sh \<longleftrightarrow> offloading_idx w = UINT32_MAX
     \<or> offloading_idx w < length (toAddQueue sh) \<and> offloading_idx w < length (toRemoveQueue sh)"

lemma maybe_send_returns:
  assumes "offloading_ok w sh"
  shows "\<exists>sh'. maybe_send send_remove R (offloading_idx w) p sh = Inr sh'" "\<exists>sh'. maybe_send send_add R (offloading_idx w) p sh = Inr sh'"
  using assms by (auto simp: maybe_send_def send_remove_def send_add_def offloading_ok_def)

lemma release_shard_frame:
  "ring_at (released_shard me s sh) = ring_at sh" "total_shards (released_shard me s sh) = total_shards sh"
  "toAddQueue (released_shard me s sh) = toAddQueue sh" "toRemoveQueue (released_shard me s sh) = toRemoveQueue sh"
  "transfer_shard (released_shard me s sh) = transfer_shard sh"
  by (simp_all add: released_shard_def Let_def upd_shard_def)

lemma release_all_frame:
  "ring_at (fold (released_shard me) ss sh) = ring_at sh" "total_shards (fold (released_shard me) ss sh) = total_shards sh"
  "toAddQueue (fold (released_shard me) ss sh) = toAddQueue sh" "toRemoveQueue (fold (released_shard me) ss sh) = toRemoveQueue sh"
  "transfer_shard (fold (released_shard me) ss sh) = transfer_shard sh"
  by (rule fold_keep [where P = "\<lambda>x. _ x = _ sh"]; simp add: release_shard_frame)+

lemma transfer_shard_effect:
  assumes "ring_ok R cont cap" and "nic_backlog N B" and "worker_rings w sh" and "offloading_ok w sh"
    and "0 < burst w" and "length (B nic) < fuel" and "length (B nic) \<le> qsize w" and "qsize w < 2 ^ 32"
    and "length (cont (ring_at sh (myring w))) + length (B nic) + length (cont (ring_at sh (q w))) \<le> cap (ring_at sh (myring w))"
    and "pending_flagged sh" and "queueid w < length (transfer_shard sh)"
  shows "\<exists>w' nic' sh'. worker_transfer_shard N R fuel (w, nic, sh) = Inr (w', nic', sh')
    \<and> B nic' = [] \<and> cont (ring_at sh' (q w)) = []
    \<and> cont (ring_at sh' (myring w)) = cont (ring_at sh (myring w)) @ map PMbuf (B nic) @ cont (ring_at sh (q w))
    \<and> w' = w\<lparr>myown := myown w \<or> B nic \<noteq> [] \<or> cont (ring_at sh (q w)) \<noteq> []\<rparr>
    \<and> (myown w' \<longrightarrow> shards sh' = shards sh \<and> had_changes sh' = had_changes sh \<and> total_shards sh' = total_shards sh)"
proof -
  obtain sh1 where 1: "maybe_send send_remove R (offloading_idx w) (q w) sh = Inr sh1"
    using maybe_send_returns [OF assms(4)] by blast
  note c1 = maybe_send_control(1) [OF 1]
  note r1 = only_control_worker_rings [OF c1 assms(3)]
  let ?left = "of_nat (min (rx_queue_count N nic) (qsize w)) :: u32"
  have left: "?left = of_nat (length (B nic))" using assms(2,7) by (simp add: nic_backlog_def)
  have "length (cont (ring_at sh1 (myring w))) + length (B nic) \<le> cap (ring_at sh1 (myring w))" using assms(9) r1 by simp
  from receive_own_backlog [OF assms(1,2,5,6) this, of ?left] left assms(7,8) obtain w2 nic2 sh2 where
    2: "receive_own N R fuel ?left (w, nic, sh1) = Inr (w2, nic2, sh2)" "B nic2 = []"
    "cont (ring_at sh2 (myring w)) = cont (ring_at sh1 (myring w)) @ map PMbuf (B nic)"
    "cap (ring_at sh2 (myring w)) = cap (ring_at sh1 (myring w))" by auto
  note f2 = receive_own_frame [OF 2(1)]
  have "?left \<noteq> 0 \<longleftrightarrow> B nic \<noteq> []"
    using left assms(7,8) by (simp add: count_zero)
  then have w2: "w2 = w\<lparr>myown := myown w \<or> B nic \<noteq> []\<rparr>" using f2 by simp
  have r2: "ring_at sh2 (q w) = ring_at sh1 (q w)" "worker_rings w2 sh2" "q w2 = q w" "myring w2 = myring w" "offloading_ok w2 sh2" "burst w2 = burst w"
    using f2 r1(3) w2 assms(4) c1 by (auto simp: worker_rings_def offloading_ok_def elim!: only_controlE)
  obtain w3 sh3 where 3: "drain_q R (w2, sh2) = Inr (w3, sh3)" using drain_q_returns [OF assms(1)] assms(5) r2(6) by metis
  have ne: "q w2 \<noteq> myring w2" using r2(2) by (simp add: worker_rings_def)
  note d = drain_q_cont [OF assms(1) ne 3]
  have r3: "worker_rings w3 sh3" "offloading_ok w3 sh3" "q w3 = q w" "myring w3 = myring w"
  proof -
    obtain r where "sh3 = sh2\<lparr>ring_at := r\<rparr>" using d(2) by blast
    then show "worker_rings w3 sh3" "offloading_ok w3 sh3" "q w3 = q w" "myring w3 = myring w"
      using r2 d(1) by (simp_all add: worker_rings_def offloading_ok_def)
  qed
  obtain sh4 where 4: "maybe_send send_add R (offloading_idx w3) (q w3) sh3 = Inr sh4"
    using maybe_send_returns [OF r3(2)] by blast
  note r4 = only_control_worker_rings [OF maybe_send_control(2) [OF 4] r3(1)]
  define sh5 where "sh5 = (if \<not> myown w3 then fold (released_shard (queueid w3)) [0..<total_shards sh4] sh4 else sh4)"
  have same4: "shards sh4 = shards sh \<and> had_changes sh4 = had_changes sh \<and> total_shards sh4 = total_shards sh \<and> transfer_shard sh4 = transfer_shard sh"
  proof -
    obtain a b where "sh2 = set_ring (myring w) a sh1" "sh3 = sh2\<lparr>ring_at := b\<rparr>" using f2 d(2) by blast
    then show ?thesis using c1 maybe_send_control(2) [OF 4] by (auto elim!: only_controlE)
  qed
  then have "pending_flagged sh4" using assms(10) by (simp add: pending_flagged_def)
  then have 5: "(if \<not> myown w3 then outcome_fold (release_shard (queueid w3)) [0..<total_shards sh4] sh4 else Inr sh4) = Inr sh5"
    using release_all_ok [of sh4 "queueid w3"] by (simp add: sh5_def)
  have "queueid w3 = queueid w" using d(1) w2 by simp
  then have flag: "queueid w3 < length (transfer_shard sh5)"
    using assms(11) same4 release_all_frame(5) [of "queueid w3" "[0..<total_shards sh4]" sh4] by (simp add: sh5_def)
  have "worker_transfer_shard N R fuel (w, nic, sh) = Inr (w3, nic2, sh5\<lparr>transfer_shard := (transfer_shard sh5)[queueid w3 := 0]\<rparr>)"
    unfolding worker_transfer_shard_def prod.case 1 outcome_bind.simps 2(1) 3 4 Let_def 5 check_index_ok [OF flag] by (rule refl)
  moreover have "ring_at (sh5\<lparr>transfer_shard := (transfer_shard sh5)[queueid w3 := 0]\<rparr>) = ring_at sh4"
    by (simp add: release_all_frame sh5_def)
  moreover have "cont (ring_at sh4 (q w)) = []" "cont (ring_at sh4 (myring w)) = cont (ring_at sh (myring w)) @ map PMbuf (B nic) @ cont (ring_at sh (q w))"
    "w3 = w\<lparr>myown := myown w \<or> B nic \<noteq> [] \<or> cont (ring_at sh (q w)) \<noteq> []\<rparr>"
    using d(1,3,4) r1(1,2) r2 r3(3,4) r4(1,2) 2(3,4) w2 assms(9) by auto
  moreover have "myown w3 \<longrightarrow> shards (sh5\<lparr>transfer_shard := (transfer_shard sh5)[queueid w3 := 0]\<rparr>) = shards sh
      \<and> had_changes (sh5\<lparr>transfer_shard := (transfer_shard sh5)[queueid w3 := 0]\<rparr>) = had_changes sh
      \<and> total_shards (sh5\<lparr>transfer_shard := (transfer_shard sh5)[queueid w3 := 0]\<rparr>) = total_shards sh"
    using same4 by (simp add: sh5_def)
  ultimately show ?thesis using 2(2)
    by (intro exI [of _ w3] exI [of _ nic2] exI [of _ "sh5\<lparr>transfer_shard := (transfer_shard sh5)[queueid w3 := 0]\<rparr>"]) simp
qed

text \<open>
  C31: if nothing arrives meanwhile, at most \<open>qsize\<close> packets wait in the NIC and the own ring has room for all
  packets (and every core has its flags), \<open>transfer_shard\<close> returns and loses none: what waits in the NIC and what the offloading core has not taken
  yet ends in the worker's own ring. But the packets just received come before those that were offloaded earlier.
\<close>

theorem transfer_shard_order:
  assumes "ring_ok R cont cap" and "nic_backlog N B" and "worker_rings w sh" and "offloading_ok w sh"
    and "0 < burst w" and "length (B nic) < fuel" and "length (B nic) \<le> qsize w" and "qsize w < 2 ^ 32"
    and "length (cont (ring_at sh (myring w))) + length (B nic) + length (cont (ring_at sh (q w))) \<le> cap (ring_at sh (myring w))"
    and "pending_flagged sh" and "queueid w < length (transfer_shard sh)"
  shows "\<exists>w' nic' sh'. worker_transfer_shard N R fuel (w, nic, sh) = Inr (w', nic', sh')
    \<and> B nic' = [] \<and> cont (ring_at sh' (q w)) = []
    \<and> cont (ring_at sh' (myring w)) = cont (ring_at sh (myring w)) @ map PMbuf (B nic) @ cont (ring_at sh (q w))
    \<and> (myown w' \<longleftrightarrow> myown w \<or> B nic \<noteq> [] \<or> cont (ring_at sh (q w)) \<noteq> [])"
  using transfer_shard_effect [OF assms] by force

text \<open>A configured system in which packet \<open>m\<close> waits in the queue worker 0 shares with its offloading core.\<close>

definition ex_offloaded :: "mbuf \<Rightarrow> (list_table, list_ring) shared \<Rightarrow> (list_table, list_ring) shared" where
  "ex_offloaded m sh = set_ring (QueueOf 0) ([PMbuf m], 4095) sh"

lemma ex_offloaded_ok:
  assumes "ex_configure 8 4 2 2 = Inr (c, sh)"
  shows "worker_rings ex_worker (ex_offloaded m sh)" "offloading_ok ex_worker (ex_offloaded m sh)"
    "ring_at (ex_offloaded m sh) (RingOf 0) = ([], 4095)" "ring_at (ex_offloaded m sh) (QueueOf 0) = ([PMbuf m], 4095)"
    "pending_flagged (ex_offloaded m sh)" "queueid ex_worker < length (transfer_shard (ex_offloaded m sh))"
proof -
  have r: "ring_at sh (RingOf 0) = ([], 4095)"
    using configure_rings [OF assms list_ring_ok] by (auto simp: ex_config_def prod_eq_iff)
  have "toAddQueue sh = map ToAdd [0..<2]" "toRemoveQueue sh = map ToRemove [0..<2]"
    using configure_relationship [OF assms] by (simp_all add: ex_config_def)
  then show "worker_rings ex_worker (ex_offloaded m sh)" "offloading_ok ex_worker (ex_offloaded m sh)"
    "ring_at (ex_offloaded m sh) (RingOf 0) = ([], 4095)" "ring_at (ex_offloaded m sh) (QueueOf 0) = ([PMbuf m], 4095)"
    using r by (auto simp: worker_rings_def offloading_ok_def ex_worker_def ex_offloaded_def)
  have so: "shared_ok 2 2 sh" using configure_shared_ok [OF assms] by (simp add: ex_config_def)
  show "pending_flagged (ex_offloaded m sh)"
  proof (rule pending_flaggedI)
    fix s assume "s < total_shards (ex_offloaded m sh)"
    then have "owner_new (shards sh ! s) < 2 \<or> owner_new (shards sh ! s) = UINT32_MAX" "length (had_changes sh) = 4"
      using so by (simp_all add: shared_ok_def ex_offloaded_def)
    then show "owner_new (shards (ex_offloaded m sh) ! s) = UINT32_MAX
        \<or> owner_new (shards (ex_offloaded m sh) ! s) < length (had_changes (ex_offloaded m sh))" by (auto simp: ex_offloaded_def)
  qed (use so in \<open>simp add: shared_ok_def ex_offloaded_def\<close>)
  show "queueid ex_worker < length (transfer_shard (ex_offloaded m sh))"
    using so by (simp add: shared_ok_def ex_offloaded_def ex_worker_def)
qed

theorem transfer_shard_order_witness:
  "\<exists>c sh w' nic' sh'. ex_configure 8 4 2 2 = Inr (c, sh)
     \<and> worker_transfer_shard list_nic_ops list_ring_ops 2 (ex_worker, [ex_mbuf 1 5 7], ex_offloaded (ex_mbuf 0 5 7) sh) = Inr (w', nic', sh')
     \<and> fst (ring_at sh' (RingOf 0)) = [PMbuf (ex_mbuf 1 5 7), PMbuf (ex_mbuf 0 5 7)]"
proof -
  obtain c sh where conf: "ex_configure 8 4 2 2 = Inr (c, sh)" using ex_configure_ok [of 8 2 4 2] by auto
  note ok = ex_offloaded_ok [OF conf, of "ex_mbuf 0 5 7"]
  have w: "myring ex_worker = RingOf 0" "q ex_worker = QueueOf 0" "0 < burst ex_worker" "qsize ex_worker = 256" by (simp_all add: ex_worker_def)
  show ?thesis
    using transfer_shard_order [OF list_ring_ok list_nic_backlog ok(1,2), of "[ex_mbuf 1 5 7]" 2] ok(3-6) w conf by auto
qed


definition busy_nic :: "mbuf \<Rightarrow> unit nic_ops" where
  "busy_nic m = \<lparr>rx_burst = (\<lambda>n x. (replicate n m, x)), rx_queue_count = (\<lambda>_. 5)\<rparr>"


end
