(* ===== verification/Handover.thy ===== *)
theory Handover
  imports Worker_Transfer
begin

text \<open>
  When a worker hands a shard to its new owner. Between calls of the task, a worker that works off
  its own ring has nothing in the queue it shares with the offloading core, and one that receives
  has nothing in its own ring (\<open>own_inv\<close>), unless \<open>had_changes\<close> came in between; while this holds, a shard is
  released only when both are empty.
\<close>

subsection \<open>What handling packets leaves alone\<close>

definition packets_only :: "('t, 'r) shared \<Rightarrow> ('t, 'r) shared \<Rightarrow> bool" where
  "packets_only sh sh' \<longleftrightarrow> ring_at sh' = ring_at sh \<and> had_changes sh' = had_changes sh
     \<and> toAddQueue sh' = toAddQueue sh \<and> toRemoveQueue sh' = toRemoveQueue sh \<and> total_shards sh' = total_shards sh
     \<and> (\<forall>s. pause (shards sh' ! s) = pause (shards sh ! s) \<and> owner (shards sh' ! s) = owner (shards sh ! s)
          \<and> owner_new (shards sh' ! s) = owner_new (shards sh ! s))"

lemma packets_only_refl: "packets_only sh sh"
  by (simp add: packets_only_def)

lemma packets_only_trans: "packets_only a b \<Longrightarrow> packets_only b c \<Longrightarrow> packets_only a c"
  by (simp add: packets_only_def)

lemma upd_shard_nth: "shards (upd_shard s f sh) ! t = (if t = s \<and> s < length (shards sh) then f (shards sh ! s) else shards sh ! t)"
  by (cases "s < length (shards sh)") (auto simp: upd_shard_def nth_list_update list_update_beyond)

lemma upd_shard_frame [simp]:
  "ring_at (upd_shard s f sh) = ring_at sh" "had_changes (upd_shard s f sh) = had_changes sh"
  "toAddQueue (upd_shard s f sh) = toAddQueue sh" "toRemoveQueue (upd_shard s f sh) = toRemoveQueue sh"
  "total_shards (upd_shard s f sh) = total_shards sh" "length (shards (upd_shard s f sh)) = length (shards sh)"
  by (simp_all add: upd_shard_def)

lemma packets_only_touch: "packets_only sh (touch_known T s a sh)"
  by (auto simp: packets_only_def touch_known_def Let_def upd_shard_nth record_flow_def)

lemma packets_only_add: "add_flow T solver s pr f sh = (a, sh') \<Longrightarrow> packets_only sh sh'"
  by (auto simp: packets_only_def add_flow_def Let_def upd_shard_nth)

lemma packets_only_count: "packets_only sh (count_packet solver s n a sh)"
  by (auto simp: packets_only_def count_packet_def Let_def upd_shard_nth)

lemma packets_only_extract:
  assumes "extract_state crc T solver m sh = Inr (a, p, sh')"
  shows "packets_only sh sh'"
proof -
  let ?f = "packet_flow crc (iqueues sh) m"
  let ?s = "shard_of (total_shards sh) ?f"
  obtain sh1 where look: "lookup_flow T solver ?s (is_priority (frame m)) ?f sh = (a, sh1)"
    and sh': "sh' = count_packet solver ?s (ip_len (frame m)) a sh1"
    using assms by (auto simp: extract_state_def Let_def check_index_Inr split: if_splits prod.splits)
  have "packets_only sh sh1"
    using look packets_only_touch packets_only_refl packets_only_add
    by (cases "table_find T ?f (table (shards sh ! ?s))") (auto simp: lookup_flow_def split: if_splits)
  then show ?thesis unfolding sh' by (rule packets_only_trans [OF _ packets_only_count])
qed

lemma packets_only_ptrs:
  "outcome_fold (extract_ptr crc T solver) xs (outs, sh) = Inr (outs', sh') \<Longrightarrow> packets_only sh sh'"
proof (induction xs arbitrary: outs sh)
  case (Cons x xs)
  then obtain o1 sh1 where 1: "extract_ptr crc T solver x (outs, sh) = Inr (o1, sh1)"
    "outcome_fold (extract_ptr crc T solver) xs (o1, sh1) = Inr (outs', sh')" by (auto simp: outcome_bind_Inr)
  have "packets_only sh sh1" using 1(1) packets_only_extract by (cases x) (auto simp: outcome_bind_Inr)
  then show ?case using Cons.IH [OF 1(2)] packets_only_trans by blast
qed (simp add: packets_only_refl)

lemma packets_only_run:
  "outcome_fold (run crc T) ms (w, outs, sh) = Inr (w', outs', sh') \<Longrightarrow> packets_only sh sh' \<and> (\<exists>ps. w' = w\<lparr>off_pkts := ps\<rparr>)"
proof (induction ms arbitrary: w outs sh)
  case Nil
  then have "w' = w\<lparr>off_pkts := off_pkts w\<rparr>" "sh' = sh" by simp_all
  then show ?case using packets_only_refl by blast
next
  case (Cons m ms)
  then obtain w1 o1 sh1 where 1: "run crc T m (w, outs, sh) = Inr (w1, o1, sh1)"
    "outcome_fold (run crc T) ms (w1, o1, sh1) = Inr (w', outs', sh')" by (auto simp: outcome_bind_Inr)
  obtain a p where ex: "extract_state crc T (worker_solver w) m sh = Inr (a, p, sh1)"
    using 1(1) by (auto simp: run_def Let_def outcome_bind_Inr check_index_Inr split: if_splits)
  have "w1 = w \<or> (\<exists>ps. w1 = w\<lparr>off_pkts := ps\<rparr>)"
    using 1(1) by (auto simp: run_def Let_def outcome_bind_Inr check_index_Inr split: if_splits)
  then show ?case using Cons.IH [OF 1(2)] packets_only_trans [OF packets_only_extract [OF ex]] by auto
qed

subsection \<open>The rings between calls of the task\<close>

definition own_inv :: "('r \<Rightarrow> void_ptr list) \<Rightarrow> worker \<Rightarrow> ('t, 'r) shared \<Rightarrow> bool" where
  "own_inv cont w sh \<longleftrightarrow> worker_rings w sh \<and> (myown w \<longrightarrow> cont (ring_at sh (q w)) = [])
     \<and> (\<not> myown w \<longrightarrow> cont (ring_at sh (myring w)) = [])"

definition rings_empty :: "('r \<Rightarrow> void_ptr list) \<Rightarrow> worker \<Rightarrow> ('t, 'r) shared \<Rightarrow> bool" where
  "rings_empty cont w sh \<longleftrightarrow> cont (ring_at sh (q w)) = [] \<and> cont (ring_at sh (myring w)) = []"

definition hands_over :: "('t, 'r) shared \<Rightarrow> ('t, 'r) shared \<Rightarrow> bool" where
  "hands_over sh sh' \<longleftrightarrow> had_changes sh' \<noteq> had_changes sh \<or> (\<exists>s. pause (shards sh' ! s) \<noteq> pause (shards sh ! s))"

text \<open>Steps that leave the owners of all shards alone.\<close>

definition owners_same :: "('t, 'r) shared \<Rightarrow> ('t, 'r) shared \<Rightarrow> bool" where
  "owners_same sh sh' \<longleftrightarrow> (\<forall>s. owner (shards sh' ! s) = owner (shards sh ! s) \<and> owner_new (shards sh' ! s) = owner_new (shards sh ! s))"

lemma owners_same_trans: "owners_same a b \<Longrightarrow> owners_same b c \<Longrightarrow> owners_same a c"
  by (simp add: owners_same_def)

lemma owners_same_shards: "shards sh' = shards sh \<Longrightarrow> owners_same sh sh'"
  by (simp add: owners_same_def)

lemma owners_same_packets: "packets_only sh sh' \<Longrightarrow> owners_same sh sh'"
  by (simp add: owners_same_def packets_only_def)

lemma owners_same_release: "owners_same sh (fold (released_shard me) ss sh)"
  by (rule fold_keep) (auto simp: owners_same_def released_shard_def Let_def upd_shard_nth)

lemma owners_same_control: "only_control sh sh' \<Longrightarrow> owners_same sh sh'"
  by (auto simp: owners_same_def elim: only_controlE)

lemma drain_q_shards: "drain_q R (w, sh) = Inr (w', sh') \<Longrightarrow> shards sh' = shards sh"
  by (auto simp: drain_q_def Let_def outcome_bind_Inr split: if_splits)

text \<open>A step keeps the rings in order and releases shards only with both rings empty.\<close>

definition orderly :: "('r \<Rightarrow> void_ptr list) \<Rightarrow> ('t, 'r) shared \<Rightarrow> worker \<times> ('t, 'r) shared \<Rightarrow> bool" where
  "orderly cont sh = (\<lambda>(w', sh'). own_inv cont w' sh' \<and> (hands_over sh sh' \<longrightarrow> rings_empty cont w' sh'))"

lemma fold_set_r_frame:
  defines "f \<equiv> \<lambda>me s sh. if owner (shards sh ! s) = me then upd_shard s (\<lambda>i. i\<lparr>shard_r := r_new i\<rparr>) sh else sh"
  shows "packets_only sh (fold (f me) ss sh)"
  by (rule fold_keep) (auto simp: packets_only_def f_def upd_shard_nth)

lemma own_inv_cong:
  assumes "own_inv cont w sh" and "ring_at sh' = ring_at sh" and "toAddQueue sh' = toAddQueue sh" and "toRemoveQueue sh' = toRemoveQueue sh"
    and "q w' = q w" "myring w' = myring w" "myown w' = myown w"
  shows "own_inv cont w' sh'"
  using assms by (simp add: own_inv_def worker_rings_def)

lemma transfer_r_orderly:
  assumes "own_inv cont w sh" and "\<not> myown w" and "worker_transfer_r R (w, sh) = Inr (w', sh')"
  shows "orderly cont sh (w', sh') \<and> \<not> hands_over sh sh' \<and> owners_same sh sh'"
proof -
  obtain w1 sh1 where
    1: "(if ring_count R (ring_at sh (q w)) \<noteq> 0
        then outcome_bind (send_remove R (offloading_idx w) (q w) sh) (\<lambda>sh1.
          let w' = w\<lparr>myown := True, q := myring w, myring := q w\<rparr>;
              sh2 = sh1\<lparr>queues := (queues sh1)[queueid w := q w'], rings := (rings sh1)[queueid w := myring w']\<rparr>
          in check_index (queueid w) (queues sh1) (check_index (queueid w) (rings sh1)
               (outcome_bind (send_add R (offloading_idx w') (q w') sh2) (\<lambda>sh3. Inr (w', sh3)))))
        else Inr (w, sh)) = Inr (w1, sh1)" and w': "w' = w1"
    and sh': "\<exists>sh2 x. packets_only sh1 sh2 \<and> sh' = sh2\<lparr>transfer_r := x\<rparr>"
    using assms(3) fold_set_r_frame by (fastforce simp: worker_transfer_r_def outcome_bind_Inr check_index_Inr Let_def)
  have "own_inv cont w1 sh1 \<and> \<not> hands_over sh sh1 \<and> owners_same sh sh1"
  proof (cases "ring_count R (ring_at sh (q w)) = 0")
    case True
    then show ?thesis using 1 assms(1) by (simp add: hands_over_def owners_same_def)
  next
    case False
    then obtain sha where a: "send_remove R (offloading_idx w) (q w) sh = Inr sha"
      and w1: "w1 = w\<lparr>myown := True, q := myring w, myring := q w\<rparr>"
      and b: "send_add R (offloading_idx w) (myring w) (sha\<lparr>queues := (queues sha)[queueid w := myring w], rings := (rings sha)[queueid w := q w]\<rparr>) = Inr sh1"
      using 1 by (auto simp: outcome_bind_Inr check_index_Inr Let_def)
    show ?thesis using send_control(1) [OF a] send_control(2) [OF b] assms(1,2) w1
      by (auto simp: own_inv_def worker_rings_def hands_over_def owners_same_def elim!: only_controlE)
  qed
  then show ?thesis using w' sh' by (auto simp: orderly_def own_inv_def worker_rings_def hands_over_def packets_only_def owners_same_def)
qed

lemma control_orderly:
  assumes "own_inv cont w sh" and "only_control sh sh'"
  shows "own_inv cont w sh' \<and> \<not> hands_over sh sh' \<and> owners_same sh sh' \<and> ring_at sh' (q w) = ring_at sh (q w) \<and> ring_at sh' (myring w) = ring_at sh (myring w)"
  using only_control_worker_rings [OF assms(2)] assms(1) assms(2)
  by (auto simp: own_inv_def hands_over_def owners_same_def elim: only_controlE)

text \<open>Draining the queue: afterwards either the worker works off its own ring, or both rings are empty.\<close>

lemma drain_orderly:
  assumes "ring_ok R cont cap" and "worker_rings w sh" and "\<not> myown w \<longrightarrow> cont (ring_at sh (myring w)) = []"
    and "drain_q R (w, sh) = Inr (w', sh')"
  shows "own_inv cont w' sh' \<and> \<not> hands_over sh sh' \<and> owners_same sh sh' \<and> (\<not> myown w' \<longrightarrow> rings_empty cont w' sh' \<and> \<not> myown w)"
proof -
  have ne: "q w \<noteq> myring w" using assms(2) by (simp add: worker_rings_def)
  note d = drain_q_cont [OF assms(1) ne assms(4)]
  obtain r where sh': "sh' = sh\<lparr>ring_at := r\<rparr>" using d(2) by blast
  have "cont (r (myring w)) = []" if "\<not> myown w'"
    using that d(1,4) assms(3) by (simp add: sh')
  then show ?thesis using d(1,3) assms(2) by (auto simp: own_inv_def worker_rings_def hands_over_def owners_same_def rings_empty_def sh')
qed

lemma transfer_offloading_orderly:
  assumes "ring_ok R cont cap" and "own_inv cont w sh" and "worker_transfer_offloading R (w, sh) = Inr (w', sh')"
  shows "orderly cont sh (w', sh') \<and> \<not> hands_over sh sh' \<and> owners_same sh sh'"
proof -
  obtain sh1 w2 sh2 w3 sh3 where 1: "maybe_send send_remove R (offloading_idx w) (q w) sh = Inr sh1"
    and 2: "drain_q R (w, sh1) = Inr (w2, sh2)"
    and 3: "(let new = new_offloading_from_working sh2 ! queueid w2 in if new \<noteq> UINT32_MAX
        then outcome_bind (send_add R new (q w2) sh2) (\<lambda>sh. Inr (w2\<lparr>offloading_idx := new\<rparr>,
          sh\<lparr>new_offloading_from_working := (new_offloading_from_working sh)[queueid w2 := UINT32_MAX]\<rparr>))
        else Inr (w2, sh2)) = Inr (w3, sh3)"
    and w': "w' = w3" and sh': "sh' = sh3\<lparr>transfer_offloading := (transfer_offloading sh3)[queueid w3 := 0]\<rparr>"
    using assms(3) by (auto simp: worker_transfer_offloading_def outcome_bind_Inr check_index_Inr Let_def)
  note c = control_orderly [OF assms(2) maybe_send_control(1) [OF 1]]
  have d: "own_inv cont w2 sh2" "\<not> hands_over sh1 sh2" "owners_same sh1 sh2"
    using drain_orderly [OF assms(1) _ _ 2] c by (auto simp: own_inv_def)
  have "own_inv cont w3 sh3 \<and> \<not> hands_over sh2 sh3 \<and> owners_same sh2 sh3"
  proof (cases "new_offloading_from_working sh2 ! queueid w2 = UINT32_MAX")
    case True
    then show ?thesis using 3 d by (simp add: hands_over_def owners_same_def)
  next
    case False
    then obtain sha where a: "send_add R (new_offloading_from_working sh2 ! queueid w2) (q w2) sh2 = Inr sha"
      and w3: "w3 = w2\<lparr>offloading_idx := new_offloading_from_working sh2 ! queueid w2\<rparr>"
      and sh3: "sh3 = sha\<lparr>new_offloading_from_working := (new_offloading_from_working sha)[queueid w2 := UINT32_MAX]\<rparr>"
      using 3 by (auto simp: outcome_bind_Inr Let_def)
    have "own_inv cont w2 sha \<and> \<not> hands_over sh2 sha \<and> owners_same sh2 sha" using control_orderly [OF d(1) send_control(2) [OF a]] by blast
    then show ?thesis by (simp add: w3 sh3 own_inv_def worker_rings_def hands_over_def owners_same_def)
  qed
  then show ?thesis using c d w' sh' by (simp add: orderly_def own_inv_def worker_rings_def hands_over_def owners_same_def)
qed

lemma transfer_shard_run:
  assumes "worker_transfer_shard N R fuel (w, nic, sh) = Inr (w', nic', sh')"
  shows "\<exists>sh1 w2 sh2 sh3 sh4 x. maybe_send send_remove R (offloading_idx w) (q w) sh = Inr sh1
    \<and> receive_own N R fuel (of_nat (min (rx_queue_count N nic) (qsize w))) (w, nic, sh1) = Inr (w2, nic', sh2)
    \<and> drain_q R (w2, sh2) = Inr (w', sh3) \<and> maybe_send send_add R (offloading_idx w') (q w') sh3 = Inr sh4
    \<and> sh' = (if \<not> myown w' then fold (released_shard (queueid w')) [0..<total_shards sh4] sh4 else sh4)\<lparr>transfer_shard := x\<rparr>"
proof -
  obtain sh1 w2 nic2 sh2 w3 sh3 sh4 sh5 where 1: "maybe_send send_remove R (offloading_idx w) (q w) sh = Inr sh1"
    "receive_own N R fuel (of_nat (min (rx_queue_count N nic) (qsize w))) (w, nic, sh1) = Inr (w2, nic2, sh2)"
    "drain_q R (w2, sh2) = Inr (w3, sh3)" "maybe_send send_add R (offloading_idx w3) (q w3) sh3 = Inr sh4"
    and 5: "(if \<not> myown w3 then outcome_fold (release_shard (queueid w3)) [0..<total_shards sh4] sh4 else Inr sh4) = Inr sh5"
    and r: "w' = w3" "nic' = nic2" "sh' = sh5\<lparr>transfer_shard := (transfer_shard sh5)[queueid w3 := 0]\<rparr>"
    using assms by (auto simp: worker_transfer_shard_def outcome_bind_Inr check_index_Inr)
  have "sh5 = (if \<not> myown w3 then fold (released_shard (queueid w3)) [0..<total_shards sh4] sh4 else sh4)"
    using 5 released_all by (auto split: if_splits)
  then show ?thesis using 1 r by blast
qed

lemma transfer_shard_orderly:
  assumes "ring_ok R cont cap" and "own_inv cont w sh" and "worker_transfer_shard N R fuel (w, nic, sh) = Inr (w', nic', sh')"
  shows "orderly cont sh (w', sh') \<and> owners_same sh sh'"
proof -
  obtain sh1 w2 sh2 w3 sh3 sh4 where 1: "maybe_send send_remove R (offloading_idx w) (q w) sh = Inr sh1"
    and 2: "receive_own N R fuel (of_nat (min (rx_queue_count N nic) (qsize w))) (w, nic, sh1) = Inr (w2, nic', sh2)"
    and 3: "drain_q R (w2, sh2) = Inr (w3, sh3)"
    and 4: "maybe_send send_add R (offloading_idx w3) (q w3) sh3 = Inr sh4" and w': "w' = w3"
    and sh': "\<exists>x. sh' = (if \<not> myown w3 then fold (released_shard (queueid w3)) [0..<total_shards sh4] sh4 else sh4)\<lparr>transfer_shard := x\<rparr>"
    using transfer_shard_run [OF assms(3)] by blast
  note c = control_orderly [OF assms(2) maybe_send_control(1) [OF 1]]
  note f = receive_own_frame [OF 2]
  have w2: "q w2 = q w" "myring w2 = myring w" "myown w2 \<longleftrightarrow> myown w \<or> of_nat (min (rx_queue_count N nic) (qsize w)) \<noteq> (0 :: u32)"
    using f by simp_all
  obtain r where r: "sh2 = set_ring (myring w) r sh1" using f by blast
  have "\<not> myown w2 \<longrightarrow> sh2 = sh1 \<and> \<not> myown w" using f w2(3) by blast
  then have "\<not> myown w2 \<longrightarrow> cont (ring_at sh2 (myring w2)) = []" using c w2(2) by (auto simp: own_inv_def)
  moreover have "worker_rings w2 sh2" "\<not> hands_over sh1 sh2" "owners_same sh1 sh2"
    using c w2(1,2) by (simp_all add: r worker_rings_def own_inv_def hands_over_def owners_same_def)
  ultimately have r2: "worker_rings w2 sh2" "\<not> myown w2 \<longrightarrow> cont (ring_at sh2 (myring w2)) = []" "\<not> hands_over sh1 sh2" "owners_same sh1 sh2"
    by blast+
  have d: "own_inv cont w3 sh3" "\<not> hands_over sh2 sh3" "\<not> myown w3 \<longrightarrow> rings_empty cont w3 sh3" "owners_same sh2 sh3"
    using drain_orderly [OF assms(1) r2(1,2) 3] by blast+
  note e = control_orderly [OF d(1) maybe_send_control(2) [OF 4]]
  have "\<not> hands_over sh sh4" "owners_same sh sh4" using c r2 d e by (simp_all add: hands_over_def owners_same_def)
  moreover have "\<not> myown w3 \<longrightarrow> rings_empty cont w3 sh4" using d e by (simp add: rings_empty_def)
  moreover note owners_same_release [of sh4 "queueid w3" "[0..<total_shards sh4]"]
  moreover obtain x where "sh' = (if \<not> myown w3 then fold (released_shard (queueid w3)) [0..<total_shards sh4] sh4 else sh4)\<lparr>transfer_shard := x\<rparr>"
    using sh' by blast
  ultimately show ?thesis using e
    by (cases "myown w3") (auto simp: w' orderly_def own_inv_def worker_rings_def hands_over_def rings_empty_def owners_same_def release_all_frame)
qed

lemma orderly_refl: "own_inv cont w sh \<Longrightarrow> orderly cont sh (w, sh) \<and> \<not> hands_over sh sh \<and> owners_same sh sh"
  by (simp add: orderly_def hands_over_def owners_same_def)

lemma orderly_trans:
  assumes "orderly cont a (w, b)" and "\<not> hands_over a b" and "orderly cont b s"
  shows "orderly cont a s"
  using assms by (cases s) (auto simp: orderly_def hands_over_def)

lemma handle_signal_orderly:
  assumes "ring_ok R cont cap" and "own_inv cont w sh" and "\<not> myown w" and "handle_signal N R fuel (w, nic, sh) = Inr (w', nic', sh')"
  shows "orderly cont sh (w', sh') \<and> owners_same sh sh'"
proof (cases "controller_signal sh ! queueid w = 1")
  case False
  then show ?thesis using assms by (auto simp: handle_signal_def check_index_Inr orderly_def hands_over_def owners_same_def)
next
  case True
  then obtain w1 sh1 w2 sh2 w3 nic3 sh3 where
    1: "(if transfer_r sh ! queueid w = 1 then worker_transfer_r R (w, sh) else Inr (w, sh)) = Inr (w1, sh1)"
    and 2: "(if transfer_offloading sh1 ! queueid w1 = 1 then worker_transfer_offloading R (w1, sh1) else Inr (w1, sh1)) = Inr (w2, sh2)"
    and 3: "(if transfer_shard sh2 ! queueid w2 = 1 then worker_transfer_shard N R fuel (w2, nic, sh2) else Inr (w2, nic, sh2)) = Inr (w3, nic3, sh3)"
    and end': "w' = w3" "sh' = sh3\<lparr>controller_signal := (controller_signal sh3)[queueid w3 := 0]\<rparr>"
    using assms(4) by (auto simp: handle_signal_def outcome_bind_Inr check_index_Inr)
  have A: "orderly cont sh (w1, sh1) \<and> \<not> hands_over sh sh1 \<and> owners_same sh sh1"
  proof (cases "transfer_r sh ! queueid w = 1")
    case True
    then show ?thesis using 1 transfer_r_orderly [OF assms(2,3), of R w1 sh1] by simp
  qed (use 1 orderly_refl [OF assms(2)] in simp)
  then have own1: "own_inv cont w1 sh1" by (simp add: orderly_def)
  have B: "orderly cont sh1 (w2, sh2) \<and> \<not> hands_over sh1 sh2 \<and> owners_same sh1 sh2"
  proof (cases "transfer_offloading sh1 ! queueid w1 = 1")
    case True
    then show ?thesis using 2 transfer_offloading_orderly [OF assms(1) own1, of w2 sh2] by simp
  qed (use 2 orderly_refl [OF own1] in simp)
  then have own2: "own_inv cont w2 sh2" by (simp add: orderly_def)
  have C: "orderly cont sh2 (w3, sh3) \<and> owners_same sh2 sh3"
  proof (cases "transfer_shard sh2 ! queueid w2 = 1")
    case True
    then show ?thesis using 3 transfer_shard_orderly [OF assms(1) own2, of N fuel nic w3 nic3 sh3] by simp
  qed (use 3 orderly_refl [OF own2] in simp)
  from orderly_trans [OF _ _ conjunct1 [OF C], of sh w2] orderly_trans [OF _ _ conjunct1 [OF B], of sh w1] A B
  have "orderly cont sh (w3, sh3)" by (simp add: hands_over_def)
  moreover have "owners_same sh sh3" using A B C owners_same_trans by blast
  ultimately show ?thesis by (auto simp: end' orderly_def own_inv_def worker_rings_def hands_over_def rings_empty_def owners_same_def)
qed

lemma settle_frame:
  "ring_at (fold (settled_shard me) ss sh) = ring_at sh" "toAddQueue (fold (settled_shard me) ss sh) = toAddQueue sh"
  "toRemoveQueue (fold (settled_shard me) ss sh) = toRemoveQueue sh"
  by (rule fold_frame, simp add: settled_shard_def Let_def)+

lemma work_off_orderly:
  assumes "ring_ok R cont cap" and "own_inv cont w sh" and "myown w" and "work_off crc T R (w, sh) = Inr (b, outs, w', sh')"
  shows "orderly cont sh (w', sh')"
proof -
  have n: "ring_count R r = length (cont r)" for r using assms(1) by (simp add: ring_ok_def)
  consider (settle) "cont (ring_at sh (myring w)) = []" | (idle) "cont (ring_at sh (myring w)) \<noteq> []" "burst w = 0"
    | (work) "cont (ring_at sh (myring w)) \<noteq> []" "burst w \<noteq> 0" by blast
  then show ?thesis
  proof cases
    case settle
    then have "w' = w\<lparr>myown := False\<rparr>" "sh' = fold (settled_shard (queueid w)) [0..<total_shards sh] sh"
      using assms(4) settled_all by (auto simp: work_off_def n outcome_bind_Inr)
    then show ?thesis using settle assms(2,3) by (simp add: orderly_def own_inv_def rings_empty_def worker_rings_def settle_frame)
  next
    case idle
    then show ?thesis using assms(2,4) by (simp add: work_off_def n orderly_def hands_over_def)
  next
    case work
    let ?n = "min (length (cont (ring_at sh (myring w)))) (burst w)"
    have "?n \<noteq> 0" using work by (simp add: min_def)
    moreover obtain xs r where "ring_dequeue_burst R ?n (ring_at sh (myring w)) = (xs, r)" by fastforce
    ultimately have "work_off crc T R (w, sh) = outcome_bind (outcome_fold (extract_ptr crc T (worker_solver w)) xs ([], set_ring (myring w) r sh))
        (\<lambda>(outs, sh'). Inr (True, outs, w, sh'))"
      using work by (simp only: work_off_def prod.case n Let_def length_0_conv if_False)
    then have "outcome_fold (extract_ptr crc T (worker_solver w)) xs ([], set_ring (myring w) r sh) = Inr (outs, sh')" "w' = w"
      using trans [OF sym assms(4)] by (auto simp: outcome_bind_Inr)
    then show ?thesis using packets_only_ptrs assms(2,3)
      by (fastforce simp: packets_only_def orderly_def hands_over_def own_inv_def worker_rings_def)
  qed
qed

subsection \<open>Properties of the hand-over\<close>

text \<open>
  A step after which the worker receives has found the queue and the ring as they were, and has moved nothing.
\<close>

definition still :: "worker \<times> ('t, 'r) shared \<Rightarrow> worker \<times> ('t, 'r) shared \<Rightarrow> bool" where
  "still = (\<lambda>(w, sh) (w', sh'). worker_rings w' sh' \<and> \<not> hands_over sh sh' \<and> qsize w' = qsize w
     \<and> (\<not> myown w' \<longrightarrow> \<not> myown w \<and> q w' = q w \<and> myring w' = myring w
          \<and> ring_at sh' (q w) = ring_at sh (q w) \<and> ring_at sh' (myring w) = ring_at sh (myring w)))"

lemma still_refl: "worker_rings w sh \<Longrightarrow> still (w, sh) (w, sh)"
  by (simp add: still_def hands_over_def)

lemma still_trans: "still (w, sh) (w1, sh1) \<Longrightarrow> still (w1, sh1) (w2, sh2) \<Longrightarrow> still (w, sh) (w2, sh2)"
  by (auto simp: still_def hands_over_def)

lemma still_control: "worker_rings w sh \<Longrightarrow> only_control sh sh' \<Longrightarrow> still (w, sh) (w, sh')"
  using only_control_worker_rings [of sh sh' w] by (auto simp: still_def hands_over_def elim: only_controlE)

lemma still_drain:
  assumes "ring_ok R cont cap" and "worker_rings w sh" and "drain_q R (w, sh) = Inr (w', sh')"
  shows "still (w, sh) (w', sh') \<and> (\<not> myown w' \<longrightarrow> cont (ring_at sh (q w)) = [] \<and> sh' = sh \<and> w' = w)"
proof -
  have ne: "q w \<noteq> myring w" using assms(2) by (simp add: worker_rings_def)
  note d = drain_q_cont [OF assms(1) ne assms(3)]
  obtain r where r: "sh' = sh\<lparr>ring_at := r\<rparr>" using d(2) by blast
  have "sh' = sh \<and> w' = w" if "cont (ring_at sh (q w)) = []"
    using that assms(3) ring_burst(6) [OF assms(1)] by (simp add: drain_q_def)
  then show ?thesis using d(1) assms(2) by (auto simp: still_def worker_rings_def hands_over_def r)
qed

lemma still_transfer_r:
  assumes "worker_rings w sh" and "worker_transfer_r R (w, sh) = Inr (w', sh')"
  shows "still (w, sh) (w', sh')"
proof -
  obtain w1 sh1 where
    1: "(if ring_count R (ring_at sh (q w)) \<noteq> 0
        then outcome_bind (send_remove R (offloading_idx w) (q w) sh) (\<lambda>sh1.
          let w' = w\<lparr>myown := True, q := myring w, myring := q w\<rparr>;
              sh2 = sh1\<lparr>queues := (queues sh1)[queueid w := q w'], rings := (rings sh1)[queueid w := myring w']\<rparr>
          in check_index (queueid w) (queues sh1) (check_index (queueid w) (rings sh1)
               (outcome_bind (send_add R (offloading_idx w') (q w') sh2) (\<lambda>sh3. Inr (w', sh3)))))
        else Inr (w, sh)) = Inr (w1, sh1)" and w': "w' = w1"
    and sh': "\<exists>sh2 x. packets_only sh1 sh2 \<and> sh' = sh2\<lparr>transfer_r := x\<rparr>"
    using assms(2) fold_set_r_frame by (fastforce simp: worker_transfer_r_def outcome_bind_Inr check_index_Inr Let_def)
  have "still (w, sh) (w1, sh1)"
  proof (cases "ring_count R (ring_at sh (q w)) = 0")
    case True
    then show ?thesis using 1 assms(1) still_refl by auto
  next
    case False
    then obtain sha where a: "send_remove R (offloading_idx w) (q w) sh = Inr sha"
      and w1: "w1 = w\<lparr>myown := True, q := myring w, myring := q w\<rparr>"
      and b: "send_add R (offloading_idx w) (myring w) (sha\<lparr>queues := (queues sha)[queueid w := myring w], rings := (rings sha)[queueid w := q w]\<rparr>) = Inr sh1"
      using 1 by (auto simp: outcome_bind_Inr check_index_Inr Let_def)
    show ?thesis using send_control(1) [OF a] send_control(2) [OF b] assms(1) w1
      by (auto simp: still_def worker_rings_def hands_over_def elim!: only_controlE)
  qed
  then show ?thesis using w' sh' by (auto simp: still_def worker_rings_def hands_over_def packets_only_def)
qed

lemma still_transfer_offloading:
  assumes "ring_ok R cont cap" and "worker_rings w sh" and "worker_transfer_offloading R (w, sh) = Inr (w', sh')"
  shows "still (w, sh) (w', sh')"
proof -
  obtain sh1 w2 sh2 w3 sh3 where 1: "maybe_send send_remove R (offloading_idx w) (q w) sh = Inr sh1"
    and 2: "drain_q R (w, sh1) = Inr (w2, sh2)"
    and 3: "(let new = new_offloading_from_working sh2 ! queueid w2 in if new \<noteq> UINT32_MAX
        then outcome_bind (send_add R new (q w2) sh2) (\<lambda>sh. Inr (w2\<lparr>offloading_idx := new\<rparr>,
          sh\<lparr>new_offloading_from_working := (new_offloading_from_working sh)[queueid w2 := UINT32_MAX]\<rparr>))
        else Inr (w2, sh2)) = Inr (w3, sh3)"
    and w': "w' = w3" and sh': "sh' = sh3\<lparr>transfer_offloading := (transfer_offloading sh3)[queueid w3 := 0]\<rparr>"
    using assms(3) by (auto simp: worker_transfer_offloading_def outcome_bind_Inr check_index_Inr Let_def)
  have a: "still (w, sh) (w, sh1)" using still_control [OF assms(2) maybe_send_control(1) [OF 1]] .
  have "worker_rings w sh1" using a by (simp add: still_def)
  then have b: "still (w, sh1) (w2, sh2)" using still_drain [OF assms(1) _ 2] by blast
  have "still (w2, sh2) (w3, sh3)"
  proof (cases "new_offloading_from_working sh2 ! queueid w2 = UINT32_MAX")
    case True
    moreover have "worker_rings w2 sh2" using b by (simp add: still_def)
    ultimately show ?thesis using 3 still_refl [of w2 sh2] by simp
  next
    case False
    then obtain sha where c: "send_add R (new_offloading_from_working sh2 ! queueid w2) (q w2) sh2 = Inr sha"
      and w3: "w3 = w2\<lparr>offloading_idx := new_offloading_from_working sh2 ! queueid w2\<rparr>"
      and sh3: "sh3 = sha\<lparr>new_offloading_from_working := (new_offloading_from_working sha)[queueid w2 := UINT32_MAX]\<rparr>"
      using 3 by (auto simp: outcome_bind_Inr Let_def)
    have "worker_rings w2 sh2" using b by (simp add: still_def)
    then have "still (w2, sh2) (w2, sha)" using still_control [OF _ send_control(2) [OF c]] by blast
    then show ?thesis by (simp add: w3 sh3 still_def worker_rings_def hands_over_def)
  qed
  from still_trans [OF still_trans [OF a b] this] show ?thesis
    by (simp add: w' sh' still_def worker_rings_def hands_over_def)
qed

text \<open>When \<open>transfer_shard\<close> releases a shard.\<close>

lemma transfer_shard_releases:
  assumes "ring_ok R cont cap" and "worker_rings w sh" and "worker_transfer_shard N R fuel (w, nic, sh) = Inr (w', nic', sh')"
    and "hands_over sh sh'" and "qsize w < 2 ^ 32"
  shows "\<not> myown w' \<and> \<not> myown w \<and> min (rx_queue_count N nic) (qsize w) = 0 \<and> nic' = nic \<and> cont (ring_at sh (q w)) = []
    \<and> q w' = q w \<and> myring w' = myring w \<and> ring_at sh' (q w) = ring_at sh (q w) \<and> ring_at sh' (myring w) = ring_at sh (myring w)"
proof -
  let ?left = "of_nat (min (rx_queue_count N nic) (qsize w)) :: u32"
  obtain sh1 w2 sh2 sh3 sh4 x where 1: "maybe_send send_remove R (offloading_idx w) (q w) sh = Inr sh1"
    and 2: "receive_own N R fuel ?left (w, nic, sh1) = Inr (w2, nic', sh2)"
    and 3: "drain_q R (w2, sh2) = Inr (w', sh3)" and 4: "maybe_send send_add R (offloading_idx w') (q w') sh3 = Inr sh4"
    and 5: "sh' = (if \<not> myown w' then fold (released_shard (queueid w')) [0..<total_shards sh4] sh4 else sh4)\<lparr>transfer_shard := x\<rparr>"
    using transfer_shard_run [OF assms(3)] by blast
  have a: "still (w, sh) (w, sh1)" using still_control [OF assms(2) maybe_send_control(1) [OF 1]] .
  note f = receive_own_frame [OF 2]
  obtain r where r: "sh2 = set_ring (myring w) r sh1" using f by blast
  have w2: "worker_rings w2 sh2" "q w2 = q w" "myring w2 = myring w" using f a by (simp_all add: r still_def worker_rings_def)
  have d: "still (w2, sh2) (w', sh3)" "\<not> myown w' \<Longrightarrow> cont (ring_at sh2 (q w2)) = [] \<and> sh3 = sh2 \<and> w' = w2"
    using still_drain [OF assms(1) w2(1) 3] by auto
  have "worker_rings w' sh3" using d(1) by (simp add: still_def)
  then have e: "still (w', sh3) (w', sh4)" using still_control [OF _ maybe_send_control(2) [OF 4]] by blast
  have "\<not> hands_over sh sh4" using a d(1) e by (simp add: still_def hands_over_def r)
  then have m: "\<not> myown w'" using assms(4) 5 by (auto simp: hands_over_def)
  then have w': "w' = w2" "\<not> myown w2" using d(2) by auto
  then have l: "?left = 0" "\<not> myown w" using f by auto
  then have nic: "nic' = nic" "sh2 = sh1" "w2 = w" using 2 by (auto simp: receive_own.simps split: nat.splits)
  have "min (rx_queue_count N nic) (qsize w) = 0"
    using l(1) count_zero [of "min (rx_queue_count N nic) (qsize w)"] assms(5) by simp
  moreover have "ring_at sh' = ring_at sh4" using m by (simp add: 5 release_all_frame)
  moreover have "ring_at sh4 (q w) = ring_at sh (q w) \<and> ring_at sh4 (myring w) = ring_at sh (myring w)"
    using a e d(2) [OF m] m nic l(2) w' by (auto simp: still_def)
  moreover have "cont (ring_at sh (q w)) = []" using d(2) [OF m] a l(2) nic w' by (simp add: still_def)
  ultimately show ?thesis using m l(2) nic w' by simp
qed

lemma handle_signal_releases:
  assumes "ring_ok R cont cap" and "worker_rings w sh" and "handle_signal N R fuel (w, nic, sh) = Inr (w', nic', sh')"
    and "hands_over sh sh'" and "qsize w < 2 ^ 32"
  shows "\<not> myown w' \<and> \<not> myown w \<and> min (rx_queue_count N nic) (qsize w) = 0 \<and> nic' = nic \<and> cont (ring_at sh (q w)) = []
    \<and> q w' = q w \<and> myring w' = myring w \<and> ring_at sh' (q w) = ring_at sh (q w) \<and> ring_at sh' (myring w) = ring_at sh (myring w)"
proof (cases "controller_signal sh ! queueid w = 1")
  case False
  then show ?thesis using assms(3,4) by (auto simp: handle_signal_def check_index_Inr hands_over_def)
next
  case True
  then obtain w1 sh1 w2 sh2 w3 nic3 sh3 where
    1: "(if transfer_r sh ! queueid w = 1 then worker_transfer_r R (w, sh) else Inr (w, sh)) = Inr (w1, sh1)"
    and 2: "(if transfer_offloading sh1 ! queueid w1 = 1 then worker_transfer_offloading R (w1, sh1) else Inr (w1, sh1)) = Inr (w2, sh2)"
    and 3: "(if transfer_shard sh2 ! queueid w2 = 1 then worker_transfer_shard N R fuel (w2, nic, sh2) else Inr (w2, nic, sh2)) = Inr (w3, nic3, sh3)"
    and end': "w' = w3" "nic' = nic3" "sh' = sh3\<lparr>controller_signal := (controller_signal sh3)[queueid w3 := 0]\<rparr>"
    using assms(3) by (auto simp: handle_signal_def outcome_bind_Inr check_index_Inr)
  have a: "still (w, sh) (w1, sh1)"
    using 1 still_transfer_r [OF assms(2)] still_refl [OF assms(2)] by (auto split: if_splits)
  then have r1: "worker_rings w1 sh1" by (simp add: still_def)
  have b: "still (w1, sh1) (w2, sh2)"
    using 2 still_transfer_offloading [OF assms(1) r1] still_refl [OF r1] by (auto split: if_splits)
  have ab: "still (w, sh) (w2, sh2)" by (rule still_trans [OF a b])
  then have c: "worker_rings w2 sh2" "\<not> hands_over sh sh2" "qsize w2 = qsize w" by (simp_all add: still_def)
  then have h: "hands_over sh2 sh3" using assms(4) end' by (auto simp: hands_over_def)
  then have "worker_transfer_shard N R fuel (w2, nic, sh2) = Inr (w3, nic3, sh3)" using 3 by (auto simp: hands_over_def split: if_splits)
  from transfer_shard_releases [OF assms(1) c(1) this h] c(3) assms(5) ab show ?thesis
    by (auto simp: still_def end')
qed

lemma work_off_releases:
  assumes "ring_ok R cont cap" and "work_off crc T R (w, sh) = Inr (b, outs, w', sh')" and "hands_over sh sh'"
  shows "w' = w\<lparr>myown := False\<rparr> \<and> outs = [] \<and> cont (ring_at sh (myring w)) = [] \<and> ring_at sh' = ring_at sh"
proof -
  have n: "ring_count R r = length (cont r)" for r using assms(1) by (simp add: ring_ok_def)
  have e: "cont (ring_at sh (myring w)) = []"
  proof (rule ccontr)
    assume ne: "cont (ring_at sh (myring w)) \<noteq> []"
    let ?n = "min (length (cont (ring_at sh (myring w)))) (burst w)"
    obtain xs r where x: "ring_dequeue_burst R ?n (ring_at sh (myring w)) = (xs, r)" by fastforce
    have "\<not> hands_over sh sh'"
    proof (cases "burst w = 0")
      case True
      then show ?thesis using assms(2) ne by (simp add: work_off_def n hands_over_def)
    next
      case False
      then have "outcome_fold (extract_ptr crc T (worker_solver w)) xs ([], set_ring (myring w) r sh) = Inr (outs, sh')"
        using assms(2) ne x by (auto simp: work_off_def n Let_def outcome_bind_Inr min_def split: if_splits)
      from packets_only_ptrs [OF this] show ?thesis by (simp add: packets_only_def hands_over_def)
    qed
    then show False using assms(3) by simp
  qed
  then have "w' = w\<lparr>myown := False\<rparr>" "outs = []" "sh' = fold (settled_shard (queueid w)) [0..<total_shards sh] sh"
    using assms(2) settled_all by (auto simp: work_off_def n outcome_bind_Inr)
  then show ?thesis using e by (simp add: settle_frame)
qed

text \<open>
  C7: when a call clears the pause of a shard, or tells its new owner to go on, the worker is done with the packets it has collected
  for the hand-over. If it was receiving, the NIC had no packet for it, the queue it shares with the offloading core was empty, the call has moved no
  packet, and it goes on receiving. If it was working off its own ring, that ring was empty and the call has moved no packet. So what
  else is in the two rings was there before: nothing if they were in order, otherwise the packets that \<open>had_changes\<close> has stranded.
\<close>

theorem drained_before_handover:
  assumes "ring_ok R cont cap" and "worker_rings w sh" and "0 < qsize w" and "qsize w < 2 ^ 32"
  shows "(\<not> myown w \<longrightarrow> handle_signal N R fuel (w, nic, sh) = Inr (w1, nic1, sh1) \<longrightarrow> hands_over sh sh1 \<longrightarrow>
       rx_queue_count N nic = 0 \<and> nic1 = nic \<and> \<not> myown w1 \<and> q w1 = q w \<and> myring w1 = myring w
       \<and> cont (ring_at sh (q w)) = [] \<and> ring_at sh1 (q w) = ring_at sh (q w) \<and> ring_at sh1 (myring w) = ring_at sh (myring w)
       \<and> (own_inv cont w sh \<longrightarrow> rings_empty cont w1 sh1))
    \<and> (myown w \<longrightarrow> work_off crc T R (w, sh) = Inr (b, outs, w2, sh2) \<longrightarrow> hands_over sh sh2 \<longrightarrow>
       w2 = w\<lparr>myown := False\<rparr> \<and> outs = [] \<and> cont (ring_at sh (myring w)) = [] \<and> ring_at sh2 = ring_at sh
       \<and> (own_inv cont w sh \<longrightarrow> rings_empty cont w2 sh2))"
  using handle_signal_releases [OF assms(1,2) _ _ assms(4), of N fuel nic w1 nic1 sh1]
    work_off_releases [OF assms(1), of crc T w sh b outs w2 sh2] assms(3)
  by (auto simp: own_inv_def rings_empty_def)

lemma flush_own_inv: "own_inv cont w sh \<Longrightarrow> \<not> myown w \<Longrightarrow> flush_offloaded R (w, sh) = (w', sh') \<Longrightarrow> own_inv cont w' sh'"
  by (auto simp: flush_offloaded_def own_inv_def worker_rings_def split: if_splits)

lemma receive_run:
  assumes "worker_run_task N crc T R fuel (w, nic, sh) = Inr (b, outs, w', nic', sh')" and "\<not> myown w"
  obtains w1 nic1 sh1 batch w2 nic2 sh2 where "handle_signal N R fuel (w, nic, sh) = Inr (w1, nic1, sh1)"
    and "process N R (w1, nic1, sh1) = Inr (batch, w2, nic2, sh2)"
    and "(case batch of None \<Rightarrow> w' = w2 \<and> sh' = sh2
       | Some ms \<Rightarrow> \<exists>w3 sh3. outcome_fold (run crc T) ms (w2, [], sh2) = Inr (w3, outs, sh3) \<and> flush_offloaded R (w3, sh3) = (w', sh'))"
proof -
  have "\<exists>x. handle_signal N R fuel (w, nic, sh) = Inr x" using assms by (auto simp: worker_run_task_def outcome_bind_Inr)
  then obtain w1 nic1 sh1 where 1: "handle_signal N R fuel (w, nic, sh) = Inr (w1, nic1, sh1)" by auto
  have "\<exists>x. process N R (w1, nic1, sh1) = Inr x" using assms 1 by (auto simp: worker_run_task_def outcome_bind_Inr)
  then obtain batch w2 nic2 sh2 where 2: "process N R (w1, nic1, sh1) = Inr (batch, w2, nic2, sh2)" by auto
  show thesis
  proof (rule that [OF 1 2], cases batch)
    case None
    then show "case batch of None \<Rightarrow> w' = w2 \<and> sh' = sh2
       | Some ms \<Rightarrow> \<exists>w3 sh3. outcome_fold (run crc T) ms (w2, [], sh2) = Inr (w3, outs, sh3) \<and> flush_offloaded R (w3, sh3) = (w', sh')"
      using assms 1 2 by (simp add: worker_run_task_def)
  next
    case (Some ms)
    obtain x where x: "outcome_fold (run crc T) ms (w2, [], sh2) = Inr x"
      using assms 1 2 Some by (cases "outcome_fold (run crc T) ms (w2, [], sh2)") (simp_all add: worker_run_task_def)
    obtain w3 o3 sh3 where x3: "x = (w3, o3, sh3)" by (cases x)
    obtain wf sf where "flush_offloaded R (w3, sh3) = (wf, sf)" by fastforce
    then show "case batch of None \<Rightarrow> w' = w2 \<and> sh' = sh2
       | Some ms \<Rightarrow> \<exists>w3 sh3. outcome_fold (run crc T) ms (w2, [], sh2) = Inr (w3, outs, sh3) \<and> flush_offloaded R (w3, sh3) = (w', sh')"
      using assms 1 2 Some x x3 by (simp add: worker_run_task_def)
  qed
qed

text \<open>
  C33: every call of the task keeps the rings in order, unless it finds \<open>had_changes\<close> set after it
  has handled the controller's signal.
\<close>

theorem worker_rings_invariant:
  assumes "ring_ok R cont cap" and "own_inv cont w sh"
    and "worker_run_task N crc T R fuel (w, nic, sh) = Inr (b, outs, w', nic', sh')"
    and "\<forall>w1 nic1 sh1. handle_signal N R fuel (w, nic, sh) = Inr (w1, nic1, sh1) \<longrightarrow> had_changes sh1 ! queueid w1 \<noteq> 1"
  shows "own_inv cont w' sh'"
proof (cases "myown w")
  case True
  then have "work_off crc T R (w, sh) = Inr (b, outs, w', sh')"
    using assms(3) by (cases "work_off crc T R (w, sh)") (auto simp: worker_run_task_def)
  then show ?thesis using work_off_orderly [OF assms(1,2) True] by (simp add: orderly_def)
next
  case False
  from receive_run [OF assms(3) False] obtain w1 nic1 sh1 batch w2 nic2 sh2 where 1: "handle_signal N R fuel (w, nic, sh) = Inr (w1, nic1, sh1)"
    and 2: "process N R (w1, nic1, sh1) = Inr (batch, w2, nic2, sh2)"
    and 3: "case batch of None \<Rightarrow> w' = w2 \<and> sh' = sh2
       | Some ms \<Rightarrow> \<exists>w3 sh3. outcome_fold (run crc T) ms (w2, [], sh2) = Inr (w3, outs, sh3) \<and> flush_offloaded R (w3, sh3) = (w', sh')" .
  have own: "own_inv cont w1 sh1" using handle_signal_orderly [OF assms(1,2) False 1] by (simp add: orderly_def)
  have "had_changes sh1 ! queueid w1 \<noteq> 1" using assms(4) 1 by blast
  then have "process N R (w1, nic1, sh1) = (if myown w1 then Inr (None, w1, nic1, sh1) else let (ms, nic') = rx_burst N (burst w1) nic1
      in if ms = [] then Inr (None, w1, nic', sh1) else Inr (Some ms, w1, nic', sh1))"
    using 2 by (auto simp: process_def outcome_bind_Inr check_index_Inr)
  then have same: "w2 = w1" "sh2 = sh1" "batch \<noteq> None \<longrightarrow> \<not> myown w1"
    using 2 by (simp_all split: if_splits prod.splits)
  show ?thesis
  proof (cases batch)
    case None
    then show ?thesis using 3 own same by simp
  next
    case (Some ms)
    then obtain w3 outs3 sh3 where 4: "outcome_fold (run crc T) ms (w1, [], sh1) = Inr (w3, outs3, sh3)"
      and 5: "flush_offloaded R (w3, sh3) = (w', sh')" using 3 same by auto
    obtain ps where ps: "packets_only sh1 sh3" "w3 = w1\<lparr>off_pkts := ps\<rparr>" using packets_only_run [OF 4] by blast
    then have "own_inv cont w3 sh3" "\<not> myown w3" using own same Some by (simp_all add: own_inv_def worker_rings_def packets_only_def)
    then show ?thesis using flush_own_inv 5 by blast
  qed
qed

subsection \<open>Changes announced by another worker\<close>

lemma upd_shard_same: "f (shards sh ! s) = shards sh ! s \<Longrightarrow> upd_shard s f sh = sh"
  by (simp add: upd_shard_def)

text \<open>\<open>local_queue\<close> is never filled, so the loop of \<open>process\<close> only clears \<open>myown\<close>.\<close>

lemma take_local_queues:
  assumes "\<forall>s\<in>set ss. ring_count R (local_queue (shards sh ! s)) = 0 \<and> s < length (shards sh)"
  shows "outcome_fold (take_local_queue R) ss (w, sh) =
    Inr (if \<exists>s\<in>set ss. owner_new (shards sh ! s) = queueid w \<and> pause (shards sh ! s) = 0 then w\<lparr>myown := False\<rparr> else w, sh)"
  using assms
proof (induction ss arbitrary: w)
  case (Cons s ss)
  define P where "P = (\<lambda>s. owner_new (shards sh ! s) = queueid w \<and> pause (shards sh ! s) = 0)"
  have head: "take_local_queue R s (w, sh) = Inr (if P s then w\<lparr>myown := False\<rparr> else w, sh)"
    using Cons.prems by (simp add: take_local_queue_def Let_def upd_shard_same P_def)
  have "\<forall>s\<in>set ss. ring_count R (local_queue (shards sh ! s)) = 0 \<and> s < length (shards sh)" using Cons.prems by simp
  then have tail: "outcome_fold (take_local_queue R) ss (w, sh) = Inr (if \<exists>s\<in>set ss. P s then w\<lparr>myown := False\<rparr> else w, sh)"
    "outcome_fold (take_local_queue R) ss (w\<lparr>myown := False\<rparr>, sh) = Inr (w\<lparr>myown := False\<rparr>, sh)"
    using Cons.IH [of w] Cons.IH [of "w\<lparr>myown := False\<rparr>"] by (simp_all add: P_def cong: if_cong)
  have "outcome_fold (take_local_queue R) (s # ss) (w, sh) = Inr (if \<exists>s\<in>set (s # ss). P s then w\<lparr>myown := False\<rparr> else w, sh)"
    by (cases "P s") (simp_all add: head tail)
  then show ?case by (simp only: P_def)
qed simp

lemma transfer_shard_flags:
  fixes sh :: "('t, 'r) shared"
  assumes "worker_transfer_shard N R fuel (w, nic, sh) = Inr (w', nic', sh')"
  shows "controller_signal sh' = controller_signal sh"
proof -
  have f: "controller_signal (fold (released_shard me) ss x) = controller_signal x" for me ss and x :: "('t, 'r) shared"
    by (rule fold_frame) (simp add: released_shard_def Let_def upd_shard_def)
  obtain sh1 w2 sh2 sh3 sh4 x where 1: "maybe_send send_remove R (offloading_idx w) (q w) sh = Inr sh1"
    "receive_own N R fuel (of_nat (min (rx_queue_count N nic) (qsize w))) (w, nic, sh1) = Inr (w2, nic', sh2)"
    "drain_q R (w2, sh2) = Inr (w', sh3)" "maybe_send send_add R (offloading_idx w') (q w') sh3 = Inr sh4"
    "sh' = (if \<not> myown w' then fold (released_shard (queueid w')) [0..<total_shards sh4] sh4 else sh4)\<lparr>transfer_shard := x\<rparr>"
    using transfer_shard_run [OF assms] by blast
  have "controller_signal sh1 = controller_signal sh" "controller_signal sh4 = controller_signal sh3"
    using maybe_send_control(1) [OF 1(1)] maybe_send_control(2) [OF 1(4)] by (auto elim!: only_controlE)
  moreover have "controller_signal sh2 = controller_signal sh1" using receive_own_frame [OF 1(2)] by auto
  moreover have "controller_signal sh3 = controller_signal sh2"
    using 1(3) by (auto simp: drain_q_def Let_def outcome_bind_Inr split: if_splits)
  ultimately show ?thesis using 1(5) f by (simp split: if_splits)
qed

text \<open>The worker has an entry in each of the arrays of the cores.\<close>

definition flags_ok :: "worker \<Rightarrow> ('t, 'r) shared \<Rightarrow> bool" where
  "flags_ok w sh \<longleftrightarrow> queueid w < length (controller_signal sh) \<and> queueid w < length (transfer_r sh)
     \<and> queueid w < length (transfer_offloading sh) \<and> queueid w < length (transfer_shard sh) \<and> queueid w < length (had_changes sh)"

text \<open>
  C34: a worker that is told to take over shards while another worker has handed it one forgets its
  own ring: \<open>transfer_shard\<close> fills the ring and sets \<open>myown\<close>, then \<open>process\<close> sees \<open>had_changes\<close> and
  clears \<open>myown\<close>. The packets stay in the ring although the worker goes on receiving.
\<close>

theorem had_changes_strands_packets:
  assumes "ring_ok R cont cap" and "nic_backlog N B" and "own_inv cont w sh" and "\<not> myown w" and "offloading_ok w sh"
    and "0 < burst w" and "length (B nic) < fuel" and "length (B nic) \<le> qsize w" and "qsize w < 2 ^ 32"
    and "length (B nic) + length (cont (ring_at sh (q w))) \<le> cap (ring_at sh (myring w))"
    and "controller_signal sh ! queueid w = 1" and "transfer_r sh ! queueid w \<noteq> 1" and "transfer_offloading sh ! queueid w \<noteq> 1"
    and "transfer_shard sh ! queueid w = 1" and "had_changes sh ! queueid w = 1"
    and "\<forall>s<total_shards sh. ring_count R (local_queue (shards sh ! s)) = 0"
    and "s < total_shards sh" and "owner_new (shards sh ! s) = queueid w" and "pause (shards sh ! s) = 0"
    and "map PMbuf (B nic) @ cont (ring_at sh (q w)) \<noteq> []" and "flags_ok w sh" and "pending_flagged sh"
  shows "\<exists>w' nic' sh'. worker_run_task N crc T R fuel (w, nic, sh) = Inr (False, [], w', nic', sh') \<and> \<not> myown w'
    \<and> myring w' = myring w \<and> cont (ring_at sh' (myring w)) = map PMbuf (B nic) @ cont (ring_at sh (q w))"
proof -
  have rings: "worker_rings w sh" "cont (ring_at sh (myring w)) = []" using assms(3,4) by (simp_all add: own_inv_def)
  have "length (cont (ring_at sh (myring w))) + length (B nic) + length (cont (ring_at sh (q w))) \<le> cap (ring_at sh (myring w))"
    using assms(10) rings(2) by simp
  from transfer_shard_effect [OF assms(1,2) rings(1) assms(5-9) this assms(22)] assms(20,21) rings(2) obtain w1 nic1 sh1 where
    1: "worker_transfer_shard N R fuel (w, nic, sh) = Inr (w1, nic1, sh1)" "B nic1 = []"
    "cont (ring_at sh1 (myring w)) = map PMbuf (B nic) @ cont (ring_at sh (q w))" "w1 = w\<lparr>myown := True\<rparr>"
    "shards sh1 = shards sh" "had_changes sh1 = had_changes sh" "total_shards sh1 = total_shards sh" by (auto simp: flags_ok_def)
  have len: "queueid w < length (controller_signal sh1)" "total_shards sh \<le> length (shards sh)"
    using assms(21,22) transfer_shard_flags [OF 1(1)] by (simp_all add: flags_ok_def pending_flagged_def)
  let ?sh = "sh1\<lparr>controller_signal := (controller_signal sh1)[queueid w := 0]\<rparr>"
  have h: "handle_signal N R fuel (w, nic, sh) = Inr (w1, nic1, ?sh)"
    using assms(11-14,21) 1(1,4) len by (simp add: handle_signal_def flags_ok_def)
  have "\<forall>s\<in>set [0..<total_shards ?sh]. ring_count R (local_queue (shards ?sh ! s)) = 0 \<and> s < length (shards ?sh)" using assms(16) 1(5,7) len by simp
  moreover have "\<exists>s\<in>set [0..<total_shards ?sh]. owner_new (shards ?sh ! s) = queueid w1 \<and> pause (shards ?sh ! s) = 0"
    using assms(17-19) 1(4,5,7) by (intro bexI [of _ s]) simp_all
  ultimately have lq: "outcome_fold (take_local_queue R) [0..<total_shards ?sh] (w1, ?sh) = Inr (w1\<lparr>myown := False\<rparr>, ?sh)"
    by (simp only: take_local_queues if_True)
  let ?sh' = "?sh\<lparr>had_changes := (had_changes ?sh)[queueid w := 0]\<rparr>"
  obtain ms nic2 where rx: "rx_burst N (burst w) nic1 = (ms, nic2)" by (cases "rx_burst N (burst w) nic1")
  have "ms = []" using assms(2) 1(2) rx unfolding nic_backlog_def by (metis fst_conv take_Nil)
  then have "process N R (w1, nic1, ?sh) = Inr (None, w\<lparr>myown := False\<rparr>, nic2, ?sh')"
    using lq assms(15,21) 1(4,6) rx by (simp add: process_def flags_ok_def)
  then have "worker_run_task N crc T R fuel (w, nic, sh) = Inr (False, [], w\<lparr>myown := False\<rparr>, nic2, ?sh')"
    using h assms(4) by (simp add: worker_run_task_def)
  then show ?thesis using 1(3) by (intro exI [of _ "w\<lparr>myown := False\<rparr>"] exI [of _ nic2] exI [of _ ?sh']) simp
qed

subsection \<open>Who owns a shard\<close>

text \<open>Settling with no shard paused: this core takes every shard whose \<open>owner_new\<close> is its own number.\<close>

lemma settle_unpaused:
  assumes "\<forall>s<n. pause (shards sh ! s) = 0" and "n \<le> length (shards sh)"
  shows "shards (fold (settled_shard me) [0..<n] sh) =
    map (\<lambda>s. if s < n \<and> owner_new (shards sh ! s) = me then (shards sh ! s)\<lparr>owner_new := UINT32_MAX, owner := me\<rparr> else shards sh ! s)
      [0..<length (shards sh)]"
  using assms
proof (induction n)
  case (Suc n)
  let ?sh = "fold (settled_shard me) [0..<n] sh"
  have sh: "shards ?sh = map (\<lambda>s. if s < n \<and> owner_new (shards sh ! s) = me then (shards sh ! s)\<lparr>owner_new := UINT32_MAX, owner := me\<rparr> else shards sh ! s)
      [0..<length (shards sh)]" using Suc by simp
  then have n: "shards ?sh ! n = shards sh ! n" using Suc.prems(2) by simp
  then have "settled_shard me n ?sh = (if owner_new (shards sh ! n) = me
      then upd_shard n (\<lambda>i. i\<lparr>owner_new := UINT32_MAX, owner := me\<rparr>) ?sh else ?sh)"
    using Suc.prems(1) by (simp add: settled_shard_def)
  then have "shards (settled_shard me n ?sh) = (shards ?sh)[n := if owner_new (shards sh ! n) = me
      then (shards sh ! n)\<lparr>owner_new := UINT32_MAX, owner := me\<rparr> else shards sh ! n]"
    using n by (simp add: upd_shard_def list_update_unchanged)
  then show ?case using Suc.prems(2) sh by (auto intro!: nth_equalityI simp: nth_list_update less_Suc_eq)
qed (simp add: map_nth)

lemma settle_unpaused_ok:
  assumes "\<forall>s<n. pause (shards sh ! s) = 0" and "n \<le> length (shards sh)"
  shows "outcome_fold (settle_shard me) [0..<n] sh = Inr (fold (settled_shard me) [0..<n] sh)"
  using assms
proof (induction n)
  case (Suc n)
  let ?sh = "fold (settled_shard me) [0..<n] sh"
  have sh: "shards ?sh = map (\<lambda>s. if s < n \<and> owner_new (shards sh ! s) = me then (shards sh ! s)\<lparr>owner_new := UINT32_MAX, owner := me\<rparr> else shards sh ! s)
      [0..<length (shards sh)]" using Suc.prems by (intro settle_unpaused) auto
  have "n < length (shards ?sh)" "pause (shards ?sh ! n) = 0" using Suc.prems unfolding sh by simp_all
  then have "settle_shard me n ?sh = Inr (settled_shard me n ?sh)" by (simp add: settle_shard_def settled_shard_def)
  then show ?case using Suc by (simp add: outcome_fold_append)
qed simp

text \<open>
  C35: \<open>init_shards\<close> leaves \<open>owner_new\<close> zero, which is a valid core number: while \<open>owner\<close>, \<open>owner_new\<close> and \<open>pause\<close>
  of all shards are still as configured (no shard has been announced to another core), a worker 0 that has worked
  off its own ring takes the ownership of all shards from the other workers.
\<close>

theorem worker_0_takes_all_shards:
  assumes "configure T R env cfg mem st = Inr (c, sh0)" and "ring_ok R cont cap"
    and "total_shards sh = total_shards sh0" and "length (shards sh) = length (shards sh0)"
    and "\<forall>s<total_shards sh0. owner (shards sh ! s) = owner (shards sh0 ! s)
      \<and> owner_new (shards sh ! s) = owner_new (shards sh0 ! s) \<and> pause (shards sh ! s) = pause (shards sh0 ! s)"
    and "queueid w = 0" and "myown w" and "cont (ring_at sh (myring w)) = []"
  shows "\<exists>w' sh'. work_off crc T R (w, sh) = Inr (True, [], w', sh')
    \<and> (\<forall>s<arg_SHARDS cfg. owner (shards sh ! s) = s mod arg_W cfg \<and> owner (shards sh' ! s) = 0)"
proof -
  have sh0: "shards sh0 = map (init_shard T R (arg_W cfg)) [0..<arg_SHARDS cfg]" "total_shards sh0 = arg_SHARDS cfg"
    using configure_shards [OF assms(1)] configure_shared_ok [OF assms(1)] by simp_all
  then have sh: "total_shards sh = arg_SHARDS cfg" "length (shards sh) = arg_SHARDS cfg"
    "\<forall>s<arg_SHARDS cfg. owner (shards sh ! s) = s mod arg_W cfg \<and> owner_new (shards sh ! s) = 0 \<and> pause (shards sh ! s) = 0"
    using assms(3-5) by (simp_all add: init_shard_def)
  have "outcome_fold (settle_shard 0) [0..<total_shards sh] sh = Inr (fold (settled_shard 0) [0..<total_shards sh] sh)"
    using sh by (intro settle_unpaused_ok) simp_all
  then have "work_off crc T R (w, sh) = Inr (True, [], w\<lparr>myown := False\<rparr>, fold (settled_shard 0) [0..<total_shards sh] sh)"
    using assms(2,6,8) by (simp add: work_off_def ring_burst(6))
  moreover have "owner (shards (fold (settled_shard 0) [0..<total_shards sh] sh) ! s) = 0" if "s < arg_SHARDS cfg" for s
    using that sh by (subst settle_unpaused) simp_all
  ultimately show ?thesis using sh(3) by blast
qed

lemma take_local_queue_owners:
  "outcome_fold (take_local_queue R) ss (w, sh) = Inr (w', sh') \<Longrightarrow> owners_same sh sh'"
proof (induction ss arbitrary: w sh)
  case (Cons s ss)
  then obtain w1 sh1 where 1: "take_local_queue R s (w, sh) = Inr (w1, sh1)"
    and 2: "outcome_fold (take_local_queue R) ss (w1, sh1) = Inr (w', sh')" by (auto simp: outcome_bind_Inr)
  have "owners_same sh sh1"
    using 1 by (auto simp: take_local_queue_def Let_def outcome_bind_Inr check_index_Inr owners_same_def upd_shard_nth split: if_splits)
  then show ?case using Cons.IH [OF 2] owners_same_trans by blast
qed (simp add: owners_same_def)

lemma process_owners:
  assumes "process N R (w, nic, sh) = Inr (batch, w', nic', sh')"
  shows "owners_same sh sh'"
proof -
  obtain w1 sh1 where 1: "(if had_changes sh ! queueid w = 1
        then outcome_bind (outcome_fold (take_local_queue R) [0..<total_shards sh] (w, sh))
          (\<lambda>(w, sh). check_index (queueid w) (had_changes sh) (Inr (w, sh\<lparr>had_changes := (had_changes sh)[queueid w := 0]\<rparr>)))
        else Inr (w, sh)) = Inr (w1, sh1)" and "shards sh' = shards sh1"
    using assms by (auto simp: process_def outcome_bind_Inr check_index_Inr Let_def split: if_splits prod.splits)
  moreover have "owners_same sh sh1"
  proof (cases "had_changes sh ! queueid w = 1")
    case True
    then obtain w2 sh2 where "outcome_fold (take_local_queue R) [0..<total_shards sh] (w, sh) = Inr (w2, sh2)" "shards sh1 = shards sh2"
      using 1 by (auto simp: outcome_bind_Inr check_index_Inr)
    then show ?thesis using take_local_queue_owners by (simp add: owners_same_def)
  qed (use 1 in \<open>simp add: owners_same_def\<close>)
  ultimately show ?thesis by (simp add: owners_same_def)
qed

text \<open>
  C36: a call of the task in which the worker receives never changes the owner of a shard, not even
  when another worker has just handed it the shard (\<open>had_changes\<close>): the shard keeps its old owner
  until the new one has worked off a ring of its own.
\<close>

theorem receiving_changes_no_owner:
  assumes "ring_ok R cont cap" and "own_inv cont w sh" and "\<not> myown w"
    and "worker_run_task N crc T R fuel (w, nic, sh) = Inr (b, outs, w', nic', sh')"
  shows "owner (shards sh' ! s) = owner (shards sh ! s) \<and> owner_new (shards sh' ! s) = owner_new (shards sh ! s)"
proof -
  from receive_run [OF assms(4,3)] obtain w1 nic1 sh1 batch w2 nic2 sh2 where 1: "handle_signal N R fuel (w, nic, sh) = Inr (w1, nic1, sh1)"
    and 2: "process N R (w1, nic1, sh1) = Inr (batch, w2, nic2, sh2)"
    and 3: "case batch of None \<Rightarrow> w' = w2 \<and> sh' = sh2
       | Some ms \<Rightarrow> \<exists>w3 sh3. outcome_fold (run crc T) ms (w2, [], sh2) = Inr (w3, outs, sh3) \<and> flush_offloaded R (w3, sh3) = (w', sh')" .
  have "owners_same sh sh2"
    using handle_signal_orderly [OF assms(1-3) 1] process_owners [OF 2] owners_same_trans by blast
  moreover have "owners_same sh2 sh'"
  proof (cases batch)
    case None
    then show ?thesis using 3 by (simp add: owners_same_def)
  next
    case (Some ms)
    then obtain w3 sh3 where 4: "outcome_fold (run crc T) ms (w2, [], sh2) = Inr (w3, outs, sh3)" and 5: "flush_offloaded R (w3, sh3) = (w', sh')"
      using 3 by auto
    have "shards sh' = shards sh3" using 5 by (auto simp: flush_offloaded_def split: if_splits)
    then show ?thesis using packets_only_run [OF 4] owners_same_packets by (simp add: owners_same_def packets_only_def)
  qed
  ultimately show ?thesis using owners_same_trans by (auto simp: owners_same_def)
qed

subsection \<open>Examples\<close>

lemma ex_own_inv:
  assumes "ex_configure 8 4 2 2 = Inr (c, sh)"
  shows "own_inv fst ex_worker (ex_offloaded m sh)" "own_inv fst ex_worker sh"
  using ex_offloaded_ok [OF assms, of m] configure_rings [OF assms list_ring_ok] configure_relationship [OF assms]
  by (auto simp: own_inv_def ex_worker_def ex_config_def worker_rings_def)

text \<open>Worker 0 is told to take over shards while another worker has handed it one.\<close>

definition ex_both :: "(list_table, list_ring) shared \<Rightarrow> (list_table, list_ring) shared" where
  "ex_both sh = (ex_offloaded (ex_mbuf 0 5 7) sh)\<lparr>controller_signal := [1, 0, 0, 0], transfer_shard := [1, 0, 0, 0], had_changes := [1, 0, 0, 0]\<rparr>"

lemma ex_both_ok:
  assumes "ex_configure 8 4 2 2 = Inr (c, sh)"
  shows "own_inv fst ex_worker (ex_both sh)" "offloading_ok ex_worker (ex_both sh)"
    "ring_at (ex_both sh) (RingOf 0) = ([], 4095)" "ring_at (ex_both sh) (QueueOf 0) = ([PMbuf (ex_mbuf 0 5 7)], 4095)"
    "transfer_r (ex_both sh) = [0, 0, 0, 0]" "transfer_offloading (ex_both sh) = [0, 0, 0, 0]" "total_shards (ex_both sh) = 4"
    "\<forall>s<4. shards (ex_both sh) ! s = init_shard list_table_ops list_ring_ops 2 s"
    "flags_ok ex_worker (ex_both sh)" "pending_flagged (ex_both sh)"
proof -
  have "transfer_r sh = [0, 0, 0, 0]" "transfer_offloading sh = [0, 0, 0, 0]" "had_changes sh = [0, 0, 0, 0]"
    using configure_flags [OF assms] by (simp_all add: ex_config_def eval_nat_numeral)
  then show "flags_ok ex_worker (ex_both sh)" "pending_flagged (ex_both sh)"
    using ex_offloaded_ok(5) [OF assms, of "ex_mbuf 0 5 7"]
    by (simp_all add: flags_ok_def pending_flagged_def ex_both_def ex_offloaded_def ex_worker_def)
  show "own_inv fst ex_worker (ex_both sh)" "offloading_ok ex_worker (ex_both sh)"
    using ex_own_inv(1) [OF assms] ex_offloaded_ok(2) [OF assms]
    by (simp_all add: own_inv_def worker_rings_def offloading_ok_def ex_both_def)
  show "ring_at (ex_both sh) (RingOf 0) = ([], 4095)" "ring_at (ex_both sh) (QueueOf 0) = ([PMbuf (ex_mbuf 0 5 7)], 4095)"
    using ex_offloaded_ok(3,4) [OF assms] by (simp_all add: ex_both_def)
  show "transfer_r (ex_both sh) = [0, 0, 0, 0]" "transfer_offloading (ex_both sh) = [0, 0, 0, 0]"
    using configure_flags [OF assms] by (simp_all add: ex_both_def ex_offloaded_def ex_config_def eval_nat_numeral)
  show "total_shards (ex_both sh) = 4" "\<forall>s<4. shards (ex_both sh) ! s = init_shard list_table_ops list_ring_ops 2 s"
    using configure_shared_ok [OF assms] configure_shards [OF assms] by (simp_all add: ex_both_def ex_offloaded_def ex_config_def)
qed

theorem had_changes_strands_packets_witness:
  "\<exists>c sh w' nic' sh'. ex_configure 8 4 2 2 = Inr (c, sh)
     \<and> worker_run_task list_nic_ops ex_crc list_table_ops list_ring_ops 2 (ex_worker, [ex_mbuf 1 6 8], ex_both sh) = Inr (False, [], w', nic', sh')
     \<and> \<not> myown w' \<and> fst (ring_at sh' (RingOf 0)) = [PMbuf (ex_mbuf 1 6 8), PMbuf (ex_mbuf 0 5 7)]"
proof -
  obtain c sh where conf: "ex_configure 8 4 2 2 = Inr (c, sh)" using ex_configure_ok [of 8 2 4 2] by auto
  note ok = ex_both_ok [OF conf]
  have w: "q ex_worker = QueueOf 0" "myring ex_worker = RingOf 0" "burst ex_worker = 32" "queueid ex_worker = 0" "qsize ex_worker = 256" "\<not> myown ex_worker"
    by (simp_all add: ex_worker_def)
  have "controller_signal (ex_both sh) ! queueid ex_worker = 1" "transfer_r (ex_both sh) ! queueid ex_worker \<noteq> 1"
    "transfer_offloading (ex_both sh) ! queueid ex_worker \<noteq> 1" "transfer_shard (ex_both sh) ! queueid ex_worker = 1"
    "had_changes (ex_both sh) ! queueid ex_worker = 1"
    "\<forall>s<total_shards (ex_both sh). ring_count list_ring_ops (local_queue (shards (ex_both sh) ! s)) = 0"
    "0 < total_shards (ex_both sh)" "owner_new (shards (ex_both sh) ! 0) = queueid ex_worker" "pause (shards (ex_both sh) ! 0) = 0"
    using ok(5-8) w by (simp_all add: ex_both_def init_shard_def list_ring_ops_def)
  note flags = this
  show ?thesis
    using had_changes_strands_packets [OF list_ring_ok list_nic_backlog ok(1) w(6) ok(2) _ _ _ _ _ flags, of "[ex_mbuf 1 6 8]" 2 ex_crc list_table_ops]
      ok(3,4,9,10) w conf by (auto simp del: worker_run_task_def)
qed

theorem worker_0_takes_all_shards_witness:
  "\<exists>c sh w' sh'. ex_configure 8 4 2 2 = Inr (c, sh)
     \<and> work_off ex_crc list_table_ops list_ring_ops (ex_worker\<lparr>myown := True\<rparr>, sh) = Inr (True, [], w', sh')
     \<and> owner (shards sh ! 1) = 1 \<and> owner (shards sh' ! 1) = 0"
proof -
  obtain c sh where conf: "ex_configure 8 4 2 2 = Inr (c, sh)" using ex_configure_ok [of 8 2 4 2] by auto
  have "fst (ring_at sh (RingOf 0)) = []" using configure_rings [OF conf list_ring_ok] by (simp add: ex_config_def)
  then show ?thesis
    using worker_0_takes_all_shards [OF conf list_ring_ok refl refl, of "ex_worker\<lparr>myown := True\<rparr>" ex_crc] conf
    by (fastforce simp: ex_worker_def ex_config_def)
qed

text \<open>Worker 0 is told to take over shards.\<close>

definition ex_signal :: "(list_table, list_ring) shared \<Rightarrow> (list_table, list_ring) shared" where
  "ex_signal sh = (ex_offloaded (ex_mbuf 0 5 7) sh)\<lparr>controller_signal := [1, 0, 0, 0], transfer_shard := [1, 0, 0, 0]\<rparr>"

lemma ex_signal_ok:
  assumes "ex_configure 8 4 2 2 = Inr (c, sh)"
  shows "own_inv fst ex_worker (ex_signal sh)"
    "\<exists>sh1. handle_signal list_nic_ops list_ring_ops 2 (ex_worker, [ex_mbuf 1 6 8], ex_signal sh) = Inr (ex_worker\<lparr>myown := True\<rparr>, [], sh1)
       \<and> had_changes sh1 = [0, 0, 0, 0]"
    "\<exists>sh1. worker_run_task list_nic_ops ex_crc list_table_ops list_ring_ops 2 (ex_worker, [ex_mbuf 1 6 8], ex_signal sh)
       = Inr (False, [], ex_worker\<lparr>myown := True\<rparr>, [], sh1)"
proof -
  have flags: "transfer_r sh = [0, 0, 0, 0]" "transfer_offloading sh = [0, 0, 0, 0]" "had_changes sh = [0, 0, 0, 0]"
    using configure_flags [OF assms] by (simp_all add: ex_config_def eval_nat_numeral)
  show own: "own_inv fst ex_worker (ex_signal sh)"
    using ex_own_inv(1) [OF assms] by (simp add: own_inv_def worker_rings_def ex_signal_def)
  have w: "worker_rings ex_worker (ex_signal sh)" "offloading_ok ex_worker (ex_signal sh)" "0 < burst ex_worker" "length [ex_mbuf 1 6 8] < 2"
    "length [ex_mbuf 1 6 8] \<le> qsize ex_worker" "qsize ex_worker < 2 ^ 32"
    "length (fst (ring_at (ex_signal sh) (myring ex_worker))) + length [ex_mbuf 1 6 8] + length (fst (ring_at (ex_signal sh) (q ex_worker)))
       \<le> snd (ring_at (ex_signal sh) (myring ex_worker))" "pending_flagged (ex_signal sh)" "queueid ex_worker < length (transfer_shard (ex_signal sh))"
    using ex_offloaded_ok [OF assms, of "ex_mbuf 0 5 7"] by (simp_all add: worker_rings_def offloading_ok_def ex_signal_def ex_worker_def pending_flagged_def)
  from transfer_shard_effect [OF list_ring_ok list_nic_backlog w] obtain sh1 where
    1: "worker_transfer_shard list_nic_ops list_ring_ops 2 (ex_worker, [ex_mbuf 1 6 8], ex_signal sh) = Inr (ex_worker\<lparr>myown := True\<rparr>, [], sh1)"
    "had_changes sh1 = had_changes (ex_signal sh)" by auto
  then have cs: "controller_signal sh1 = [1, 0, 0, 0]" using transfer_shard_flags [OF 1(1)] by (simp add: ex_signal_def)
  let ?sh = "sh1\<lparr>controller_signal := (controller_signal sh1)[0 := 0]\<rparr>"
  have q: "queueid ex_worker = 0" "\<not> myown ex_worker" by (simp_all add: ex_worker_def)
  have h: "handle_signal list_nic_ops list_ring_ops 2 (ex_worker, [ex_mbuf 1 6 8], ex_signal sh) = Inr (ex_worker\<lparr>myown := True\<rparr>, [], ?sh)"
    "had_changes ?sh = [0, 0, 0, 0]"
    using 1 q flags cs by (simp_all add: handle_signal_def ex_signal_def ex_offloaded_def)
  then show "\<exists>sh1. handle_signal list_nic_ops list_ring_ops 2 (ex_worker, [ex_mbuf 1 6 8], ex_signal sh) = Inr (ex_worker\<lparr>myown := True\<rparr>, [], sh1)
       \<and> had_changes sh1 = [0, 0, 0, 0]" by blast
  have "process list_nic_ops list_ring_ops (ex_worker\<lparr>myown := True\<rparr>, [], ?sh) = Inr (None, ex_worker\<lparr>myown := True\<rparr>, [], ?sh)"
    using h(2) q by (simp add: process_def)
  then have "worker_run_task list_nic_ops ex_crc list_table_ops list_ring_ops 2 (ex_worker, [ex_mbuf 1 6 8], ex_signal sh)
       = Inr (False, [], ex_worker\<lparr>myown := True\<rparr>, [], ?sh)"
    using h(1) q by (simp add: worker_run_task_def)
  then show "\<exists>sh1. worker_run_task list_nic_ops ex_crc list_table_ops list_ring_ops 2 (ex_worker, [ex_mbuf 1 6 8], ex_signal sh)
       = Inr (False, [], ex_worker\<lparr>myown := True\<rparr>, [], sh1)" by blast
qed

theorem worker_rings_invariant_witness:
  "\<exists>c sh w' nic' sh'. ex_configure 8 4 2 2 = Inr (c, sh)
     \<and> worker_run_task list_nic_ops ex_crc list_table_ops list_ring_ops 2 (ex_worker, [ex_mbuf 1 6 8], ex_signal sh) = Inr (False, [], w', nic', sh')
     \<and> myown w' \<and> own_inv fst w' sh'"
proof -
  obtain c sh where conf: "ex_configure 8 4 2 2 = Inr (c, sh)" using ex_configure_ok [of 8 2 4 2] by auto
  note ok = ex_signal_ok [OF conf]
  obtain sh1 where run: "worker_run_task list_nic_ops ex_crc list_table_ops list_ring_ops 2 (ex_worker, [ex_mbuf 1 6 8], ex_signal sh)
       = Inr (False, [], ex_worker\<lparr>myown := True\<rparr>, [], sh1)" using ok(3) by blast
  have q: "queueid ex_worker = 0" by (simp add: ex_worker_def)
  have "own_inv fst (ex_worker\<lparr>myown := True\<rparr>) sh1"
    by (rule worker_rings_invariant [OF list_ring_ok ok(1) run]) (use ok(2) q in auto)
  then show ?thesis using conf run
    by (intro exI [of _ c] exI [of _ sh] exI [of _ "ex_worker\<lparr>myown := True\<rparr>"] exI [of _ "[]"] exI [of _ sh1]) simp
qed

theorem receiving_changes_no_owner_witness:
  "\<exists>c sh w' nic' sh'. ex_configure 8 4 2 2 = Inr (c, sh)
     \<and> worker_run_task list_nic_ops ex_crc list_table_ops list_ring_ops 2 (ex_worker, [ex_mbuf 1 6 8], ex_signal sh) = Inr (False, [], w', nic', sh')
     \<and> owner (shards sh' ! 1) = 1"
proof -
  obtain c sh where conf: "ex_configure 8 4 2 2 = Inr (c, sh)" using ex_configure_ok [of 8 2 4 2] by auto
  note ok = ex_signal_ok [OF conf]
  obtain sh1 where run: "worker_run_task list_nic_ops ex_crc list_table_ops list_ring_ops 2 (ex_worker, [ex_mbuf 1 6 8], ex_signal sh)
       = Inr (False, [], ex_worker\<lparr>myown := True\<rparr>, [], sh1)" using ok(3) by blast
  have "owner (shards (ex_signal sh) ! 1) = 1"
    using configure_shards [OF conf] by (simp add: ex_config_def ex_signal_def ex_offloaded_def init_shard_def)
  moreover have "\<not> myown ex_worker" by (simp add: ex_worker_def)
  ultimately have "owner (shards sh1 ! 1) = 1"
    using receiving_changes_no_owner [OF list_ring_ok ok(1) _ run, of 1] by simp
  then show ?thesis using conf run by blast
qed

text \<open>Worker 0 has worked off its ring, and shard 0 is to go to worker 1.\<close>

definition ex_leaving :: "(list_table, list_ring) shared \<Rightarrow> (list_table, list_ring) shared" where
  "ex_leaving sh = upd_shard 0 (\<lambda>i. i\<lparr>pause := 1, owner_new := 1\<rparr>) sh"

lemma settle_other: "t \<noteq> s \<Longrightarrow> shards (settled_shard me s sh) ! t = shards sh ! t"
  by (simp add: settled_shard_def Let_def upd_shard_nth)

lemma settle_others: "t \<notin> set ss \<Longrightarrow> shards (fold (settled_shard me) ss sh) ! t = shards sh ! t"
  by (induction ss arbitrary: sh) (simp_all add: settle_other)

theorem drained_before_handover_witness:
  "\<exists>c sh w' sh'. ex_configure 8 4 2 2 = Inr (c, sh)
     \<and> work_off ex_crc list_table_ops list_ring_ops (ex_worker\<lparr>myown := True\<rparr>, ex_leaving sh) = Inr (True, [], w', sh')
     \<and> pause (shards sh' ! 0) = 0 \<and> rings_empty fst w' sh'"
proof -
  obtain c sh where conf: "ex_configure 8 4 2 2 = Inr (c, sh)" using ex_configure_ok [of 8 2 4 2] by auto
  let ?w = "ex_worker\<lparr>myown := True\<rparr>" and ?sh = "ex_leaving sh"
  have w: "q ?w = QueueOf 0" "myring ?w = RingOf 0" "queueid ?w = 0" by (simp_all add: ex_worker_def)
  have rings: "ring_at ?sh (RingOf 0) = ([], 4095)" "ring_at ?sh (QueueOf 0) = ([], 4095)"
    using configure_rings [OF conf list_ring_ok] by (simp_all add: ex_config_def ex_leaving_def prod_eq_iff)
  have s0: "shards ?sh ! 0 = (init_shard list_table_ops list_ring_ops 2 0)\<lparr>pause := 1, owner_new := 1\<rparr>" "total_shards ?sh = 4" "length (shards ?sh) = 4"
    using configure_shards [OF conf] configure_shared_ok [OF conf] by (simp_all add: ex_config_def ex_leaving_def upd_shard_nth)
  have own: "own_inv fst ?w ?sh" using ex_own_inv(2) [OF conf] rings w by (simp add: own_inv_def worker_rings_def ex_leaving_def)
  let ?sh' = "fold (settled_shard 0) [0..<4] ?sh"
  have "shared_ok 2 2 sh" using configure_shared_ok [OF conf] by (simp add: ex_config_def)
  then have "pending_flagged ?sh"
    by (intro pending_flaggedI) (auto simp: shared_ok_def ex_leaving_def upd_shard_nth upd_shard_def nth_list_update)
  then have "outcome_fold (settle_shard 0) [0..<4] ?sh = Inr ?sh'" using settle_all_ok [of ?sh 0] s0(2) by simp
  then have run: "work_off ex_crc list_table_ops list_ring_ops (?w, ?sh) = Inr (True, [], ex_worker, ?sh')"
    using rings w s0 by (simp add: work_off_def list_ring_ops_def) (simp add: ex_worker_def)
  have "[0..<4] = 0 # [1..<4]" by (simp add: eval_nat_numeral)
  then have "shards ?sh' ! 0 = shards (settled_shard 0 0 ?sh) ! 0" by (simp add: settle_others)
  then have p: "pause (shards ?sh' ! 0) = 0"
    using s0 by (simp add: settled_shard_def upd_shard_nth init_shard_def UINT32_MAX_def)
  then have "hands_over ?sh ?sh'" using s0 by (auto simp: hands_over_def intro!: exI [of _ 0])
  moreover have "worker_rings ?w ?sh" "0 < qsize ?w" "qsize ?w < 2 ^ 32" using own by (simp_all add: own_inv_def ex_worker_def)
  note drained_before_handover [OF list_ring_ok this, of undefined undefined undefined undefined undefined undefined ex_crc list_table_ops True "[]" ex_worker ?sh']
  ultimately have "rings_empty fst ex_worker ?sh'" using own run by simp
  then show ?thesis using conf run p by blast
qed

end
