(* ===== verification/IDS_Lexer.thy ===== *)
theory IDS_Lexer
  imports Prelude
begin

text \<open>
  \<open>DyIDS::lex\<close> (\<open>dyids.cc\<close>): the scanner the IDS runs on a payload, a goto program over the
  pointers \<open>YYCURSOR\<close> and \<open>YYMARKER\<close>. Each label of the source is a constructor of \<open>label\<close>,
  \<open>lex_step\<close> is the code between one label and the next jump, and \<open>lex\<close> runs it from
  \<open>first_group\<close>. The memory readable from the payload on is a list of bytes: a read past its end
  is the fault \<open>OutOfBounds\<close>, so the model shows where the C++ reads beyond the packet.

  The specification is \<open>contains_signature\<close>: the bytes \<open>01 03\<close> followed, anywhere later, by a
  byte \<open>0b\<close>, all before the first zero byte.
\<close>

datatype label = First_group | YY2 | YY4 | YY5 | YY6 | YY7 | YY8 | YY9 | YY10 | YY12 | YY13 | YY15

datatype jump = Return int | Goto label nat nat nat

text \<open>\<open>yych = *p;\<close> followed by a \<open>switch\<close>.\<close>

definition read_byte :: "u8 list \<Rightarrow> nat \<Rightarrow> (u8 \<Rightarrow> jump) \<Rightarrow> jump outcome" where
  "read_byte mem p k = check_index p mem (Inr (k (mem ! p)))"

text \<open>The arguments after the label are \<open>YYCURSOR\<close>, \<open>YYMARKER\<close> and \<open>yyaccept\<close>.\<close>

fun lex_step :: "u8 list \<Rightarrow> label \<Rightarrow> nat \<Rightarrow> nat \<Rightarrow> nat \<Rightarrow> jump outcome" where
  "lex_step mem First_group c m a = read_byte mem c (\<lambda>yych.
     if yych = 0x00 then Goto YY2 c m 0 else if yych = 0x01 then Goto YY4 c m 0 else Goto YY6 c m 0)"
| "lex_step mem YY2 c m a = Inr (Return 0)"
| "lex_step mem YY4 c m a = read_byte mem (Suc c) (\<lambda>yych.
     if yych = 0x00 then Goto YY5 (Suc c) (Suc c) 0 else if yych = 0x01 then Goto YY7 (Suc c) (Suc c) 0
     else if yych = 0x03 then Goto YY10 (Suc c) (Suc c) 0 else Goto YY9 (Suc c) (Suc c) 0)"
| "lex_step mem YY5 c m a = Inr (Goto First_group c m a)"
| "lex_step mem YY6 c m a = read_byte mem (Suc c) (\<lambda>yych.
     if yych = 0x00 then Goto YY5 (Suc c) (Suc c) 0 else if yych = 0x01 then Goto YY7 (Suc c) (Suc c) 0
     else Goto YY9 (Suc c) (Suc c) 0)"
| "lex_step mem YY7 c m a = read_byte mem (Suc c) (\<lambda>yych.
     if yych = 0x01 then Goto YY12 (Suc c) m a else if yych = 0x03 then Goto YY10 (Suc c) m a
     else Goto YY8 (Suc c) m a)"
| "lex_step mem YY8 c m a = Inr (if a = 0 then Goto YY5 m m a else Goto YY15 m m a)"
| "lex_step mem YY9 c m a = read_byte mem (Suc c) (\<lambda>yych.
     if yych = 0x01 then Goto YY12 (Suc c) m a else Goto YY8 (Suc c) m a)"
| "lex_step mem YY10 c m a = read_byte mem (Suc c) (\<lambda>yych.
     if yych = 0x00 then Goto YY8 (Suc c) m a else if yych = 0x0b then Goto YY13 (Suc c) m a
     else Goto YY10 (Suc c) m a)"
| "lex_step mem YY12 c m a = read_byte mem (Suc c) (\<lambda>yych.
     if yych = 0x03 then Goto YY10 (Suc c) m a else Goto YY8 (Suc c) m a)"
| "lex_step mem YY13 c m a = read_byte mem (Suc c) (\<lambda>yych.
     if yych = 0x00 then Goto YY15 (Suc c) (Suc c) 1 else if yych = 0x0b then Goto YY13 (Suc c) (Suc c) 1
     else Goto YY10 (Suc c) (Suc c) 1)"
| "lex_step mem YY15 c m a = Inr (Return 1)"

text \<open>
  Termination. An attempt at one position moves the cursor right and, when it fails, returns to
  the marker, which lies further right than the attempt's start: first component. Between two
  moves of the marker the cursor only grows until the jump back: second component.
\<close>

fun attempt_start :: "label \<Rightarrow> nat \<Rightarrow> nat \<Rightarrow> nat" where
  "attempt_start First_group c m = c"
| "attempt_start YY2 c m = c"
| "attempt_start YY4 c m = c"
| "attempt_start YY5 c m = c"
| "attempt_start YY6 c m = c"
| "attempt_start YY8 c m = m"
| "attempt_start l c m = min c m"

fun label_rank :: "nat \<Rightarrow> label \<Rightarrow> nat \<Rightarrow> nat" where
  "label_rank n YY2 c = 0"
| "label_rank n YY4 c = 0"
| "label_rank n YY6 c = 0"
| "label_rank n YY15 c = 0"
| "label_rank n First_group c = 1"
| "label_rank n YY5 c = 2"
| "label_rank n YY8 c = 3"
| "label_rank n l c = 4 + (n - c)"

definition lex_order :: "((u8 list \<times> label \<times> nat \<times> nat \<times> nat) \<times> (u8 list \<times> label \<times> nat \<times> nat \<times> nat)) set" where
  "lex_order = measures [\<lambda>(mem, l, c, m, a). length mem - attempt_start l c m,
     \<lambda>(mem, l, c, m, a). label_rank (length mem) l c]"

lemma lex_step_decreases:
  "lex_step mem l c m a = Inr (Goto l' c' m' a') \<Longrightarrow> ((mem, l', c', m', a'), (mem, l, c, m, a)) \<in> lex_order"
  by (cases l) (auto simp: lex_order_def read_byte_def check_index_def split: if_splits)

lemma wf_lex_order: "wf lex_order"
  by (simp add: lex_order_def)

function lex_run :: "u8 list \<Rightarrow> label \<Rightarrow> nat \<Rightarrow> nat \<Rightarrow> nat \<Rightarrow> int outcome" where
  "lex_run mem l c m a = (case lex_step mem l c m a of
     Inl e \<Rightarrow> Inl e
   | Inr (Return v) \<Rightarrow> Inr v
   | Inr (Goto l' c' m' a') \<Rightarrow> lex_run mem l' c' m' a')"
  by pat_completeness auto
termination
  by (relation lex_order) (simp_all add: wf_lex_order lex_step_decreases)

declare lex_run.simps [simp del]

definition lex :: "u8 list \<Rightarrow> int outcome" where
  "lex payload = lex_run payload First_group 0 0 0"

subsection \<open>The specification\<close>

definition contains_signature :: "u8 list \<Rightarrow> bool" where
  "contains_signature t \<longleftrightarrow> (\<exists>i j. Suc i < j \<and> j < length t \<and> t ! i = 0x01 \<and> t ! Suc i = 0x03 \<and> t ! j = 0x0b)"

text \<open>The bytes before the first zero byte.\<close>

definition payload_text :: "u8 list \<Rightarrow> u8 list" where
  "payload_text mem = takeWhile (\<lambda>b. b \<noteq> 0) mem"

definition text_end :: "u8 list \<Rightarrow> nat" where
  "text_end mem = length (payload_text mem)"

lemma before_end: "i < text_end mem \<Longrightarrow> mem ! i \<noteq> 0 \<and> i < length mem"
proof -
  assume i: "i < text_end mem"
  then have "mem ! i = payload_text mem ! i" by (simp add: text_end_def payload_text_def takeWhile_nth)
  moreover have "payload_text mem ! i \<noteq> 0"
    using i nth_mem [of i "payload_text mem"] set_takeWhileD by (fastforce simp: text_end_def payload_text_def)
  moreover have "text_end mem \<le> length mem" by (simp add: text_end_def payload_text_def length_takeWhile_le)
  ultimately show ?thesis using i by simp
qed

lemma at_end:
  "text_end mem < length mem \<longleftrightarrow> 0 \<in> set mem"
  "text_end mem < length mem \<Longrightarrow> mem ! text_end mem = 0"
  "text_end mem \<le> length mem"
proof -
  show le: "text_end mem \<le> length mem" by (simp add: text_end_def payload_text_def length_takeWhile_le)
  show "text_end mem < length mem \<Longrightarrow> mem ! text_end mem = 0"
    using nth_length_takeWhile [of "\<lambda>b. b \<noteq> 0" mem] by (simp add: text_end_def payload_text_def)
  show "text_end mem < length mem \<longleftrightarrow> 0 \<in> set mem"
  proof
    assume "text_end mem < length mem"
    then show "0 \<in> set mem" using nth_mem nth_length_takeWhile [of "\<lambda>b. b \<noteq> 0" mem]
      by (fastforce simp: text_end_def payload_text_def)
  next
    assume "0 \<in> set mem"
    then have "payload_text mem \<noteq> mem" by (auto simp: payload_text_def takeWhile_eq_all_conv)
    then have "text_end mem \<noteq> length mem"
      by (metis payload_text_def takeWhile_eq_take take_all_iff text_end_def order_refl)
    with le show "text_end mem < length mem" by simp
  qed
qed

text \<open>The signature read off the memory, from position \<open>p\<close> on.\<close>

definition header_at :: "u8 list \<Rightarrow> nat \<Rightarrow> bool" where
  "header_at mem i \<longleftrightarrow> Suc i < text_end mem \<and> mem ! i = 0x01 \<and> mem ! Suc i = 0x03"

definition trailer_after :: "u8 list \<Rightarrow> nat \<Rightarrow> bool" where
  "trailer_after mem k \<longleftrightarrow> (\<exists>j. k < j \<and> j < text_end mem \<and> mem ! j = 0x0b)"

definition found_from :: "u8 list \<Rightarrow> nat \<Rightarrow> bool" where
  "found_from mem p \<longleftrightarrow> (\<exists>i\<ge>p. header_at mem i \<and> trailer_after mem (Suc i))"

lemma found_from_0: "found_from mem 0 \<longleftrightarrow> contains_signature (payload_text mem)"
proof -
  have "payload_text mem ! i = mem ! i" if "i < text_end mem" for i
    using that by (simp add: text_end_def payload_text_def takeWhile_nth)
  then show ?thesis
    unfolding found_from_def header_at_def trailer_after_def contains_signature_def text_end_def [symmetric]
    by (auto 4 4 intro: less_trans)
qed

lemma found_from_Suc: "found_from mem p \<longleftrightarrow> (header_at mem p \<and> trailer_after mem (Suc p)) \<or> found_from mem (Suc p)"
  unfolding found_from_def by (metis Suc_leD le_eq_less_or_eq less_eq_Suc_le order_refl)

lemma trailer_after_Suc: "Suc k < text_end mem \<Longrightarrow>
  trailer_after mem k \<longleftrightarrow> mem ! Suc k = 0x0b \<or> trailer_after mem (Suc k)"
  unfolding trailer_after_def by (metis Suc_lessD Suc_lessI lessI)

lemma no_trailer_at_end: "text_end mem \<le> Suc k \<Longrightarrow> \<not> trailer_after mem k"
  by (auto simp: trailer_after_def)

subsection \<open>What each label computes\<close>

text \<open>The result when the signature is found, and in general: a fault without a zero byte.\<close>

definition result :: "u8 list \<Rightarrow> bool \<Rightarrow> int outcome" where
  "result mem found = (if 0 \<in> set mem then Inr (if found then 1 else 0) else Inl OutOfBounds)"

lemma read_byte_in: "p < text_end mem \<Longrightarrow> read_byte mem p k = Inr (k (mem ! p))"
  using before_end [of p mem] by (simp add: read_byte_def)

lemma read_byte_end: "read_byte mem (text_end mem) k = (if 0 \<in> set mem then Inr (k 0) else Inl OutOfBounds)"
  using at_end [of mem] by (auto simp: read_byte_def check_index_def)

lemma Suc_less_cases: "c < n \<Longrightarrow> (Suc c = n \<Longrightarrow> P) \<Longrightarrow> (Suc c < n \<Longrightarrow> P) \<Longrightarrow> P"
  by (cases "Suc c = n") auto

lemma run_accepting:
  "c < text_end mem \<Longrightarrow> lex_run mem YY13 c m a = result mem True \<and> lex_run mem YY10 c m 1 = result mem True"
proof (induction "text_end mem - c" arbitrary: c m a rule: less_induct)
  case less
  from less.prems show ?case
  proof (rule Suc_less_cases)
    assume e: "Suc c = text_end mem"
    have "lex_run mem YY15 c' m' a' = Inr 1" for c' m' a' by (subst lex_run.simps) simp
    then show ?thesis using e read_byte_end [of mem]
      by (simp add: lex_run.simps [of mem YY13 c] lex_run.simps [of mem YY10 c] lex_run.simps [of mem YY8] result_def)
  next
    assume s: "Suc c < text_end mem"
    then have "lex_run mem YY13 (Suc c) m' a' = result mem True" "lex_run mem YY10 (Suc c) m' 1 = result mem True" for m' a'
      using less.hyps [of "Suc c"] by auto
    then show ?thesis using s before_end [of "Suc c" mem]
      by (simp add: lex_run.simps [of mem YY13 c] lex_run.simps [of mem YY10 c] read_byte_in)
  qed
qed

lemma run_searching:
  "c < text_end mem \<Longrightarrow> lex_run mem YY10 c m 0 =
     (if trailer_after mem c then result mem True
      else if 0 \<in> set mem then lex_run mem First_group m m 0 else Inl OutOfBounds)"
proof (induction "text_end mem - c" arbitrary: c rule: less_induct)
  case less
  from less.prems show ?case
  proof (rule Suc_less_cases)
    assume e: "Suc c = text_end mem"
    then show ?thesis using read_byte_end [of mem] no_trailer_at_end [of mem c]
      by (simp add: lex_run.simps [of mem YY10 c] lex_run.simps [of mem YY8] lex_run.simps [of mem YY5])
  next
    assume s: "Suc c < text_end mem"
    then show ?thesis using less.hyps [of "Suc c"] before_end [of "Suc c" mem] run_accepting [OF s]
      by (simp add: lex_run.simps [of mem YY10 c] read_byte_in trailer_after_Suc)
  qed
qed

text \<open>A failed attempt: back to the marker and on from there.\<close>

lemma run_YY8: "lex_run mem YY8 c m 0 = lex_run mem First_group m m 0"
  by (simp add: lex_run.simps [of mem YY8] lex_run.simps [of mem YY5])

lemma run_YY5: "lex_run mem YY5 c m 0 = lex_run mem First_group c m 0"
  by (simp add: lex_run.simps [of mem YY5])

text \<open>
  One attempt from \<open>p\<close>, once the rest from \<open>p + 1\<close> is known: what the labels after the first two
  bytes compute.
\<close>

definition rest_ok :: "u8 list \<Rightarrow> nat \<Rightarrow> bool" where
  "rest_ok mem m \<longleftrightarrow> lex_run mem First_group m m 0 = result mem (found_from mem m)"

lemma found_from_le: "found_from mem q \<Longrightarrow> p \<le> q \<Longrightarrow> found_from mem p"
  unfolding found_from_def by (meson order_trans)

lemma run_header:
  assumes "rest_ok mem (Suc p)" and "p \<le> i" and "header_at mem i" and "header_at mem p \<Longrightarrow> i = p"
  shows "lex_run mem YY10 (Suc i) (Suc p) 0 = result mem (found_from mem p)"
proof (cases "trailer_after mem (Suc i)")
  case True
  then have "found_from mem p" using assms(2,3) by (auto simp: found_from_def)
  then show ?thesis using True assms(3) by (simp add: run_searching header_at_def)
next
  case False
  then have "found_from mem p \<longleftrightarrow> found_from mem (Suc p)" using assms(4) found_from_Suc [of mem p] by auto
  then show ?thesis using False assms by (simp add: run_searching header_at_def rest_ok_def result_def)
qed

lemma run_fail:
  assumes "rest_ok mem (Suc p)" and "\<not> header_at mem p"
  shows "lex_run mem First_group (Suc p) (Suc p) 0 = result mem (found_from mem p)"
  using assms found_from_Suc [of mem p] by (simp add: rest_ok_def)

text \<open>The labels after two bytes, neither of which closes a header at \<open>p\<close>.\<close>

lemma run_YY12:
  assumes "rest_ok mem (Suc p)" and "\<not> header_at mem p" and "p \<le> c" and "c < text_end mem" and "mem ! c = 0x01"
  shows "lex_run mem YY12 c (Suc p) 0 = result mem (found_from mem p)"
  using assms(4)
proof (rule Suc_less_cases)
  assume e: "Suc c = text_end mem"
  then show ?thesis using run_fail [OF assms(1,2)]
    by (simp add: lex_run.simps [of mem YY12] read_byte_end run_YY8 result_def)
next
  assume s: "Suc c < text_end mem"
  have "mem ! Suc c = 3 \<Longrightarrow> lex_run mem YY10 (Suc c) (Suc p) 0 = result mem (found_from mem p)"
    using s assms by (intro run_header) (auto simp: header_at_def)
  then show ?thesis using s run_fail [OF assms(1,2)]
    by (auto simp: lex_run.simps [of mem YY12] read_byte_in run_YY8)
qed

lemma run_YY9:
  assumes "rest_ok mem (Suc p)" and "\<not> header_at mem p" and "p \<le> c" and "c < text_end mem"
  shows "lex_run mem YY9 c (Suc p) 0 = result mem (found_from mem p)"
  using assms(4)
proof (rule Suc_less_cases)
  assume e: "Suc c = text_end mem"
  then show ?thesis using run_fail [OF assms(1,2)]
    by (simp add: lex_run.simps [of mem YY9] read_byte_end run_YY8 result_def)
next
  assume s: "Suc c < text_end mem"
  then show ?thesis using run_fail [OF assms(1,2)] run_YY12 [OF assms(1,2), of "Suc c"] assms(3)
    by (simp add: lex_run.simps [of mem YY9] read_byte_in run_YY8)
qed

lemma run_YY7:
  assumes "rest_ok mem (Suc p)" and "\<not> header_at mem p" and "p \<le> c" and "c < text_end mem" and "mem ! c = 0x01"
  shows "lex_run mem YY7 c (Suc p) 0 = result mem (found_from mem p)"
  using assms(4)
proof (rule Suc_less_cases)
  assume e: "Suc c = text_end mem"
  then show ?thesis using run_fail [OF assms(1,2)]
    by (simp add: lex_run.simps [of mem YY7] read_byte_end run_YY8 result_def)
next
  assume s: "Suc c < text_end mem"
  have "mem ! Suc c = 3 \<Longrightarrow> lex_run mem YY10 (Suc c) (Suc p) 0 = result mem (found_from mem p)"
    using s assms by (intro run_header) (auto simp: header_at_def)
  then show ?thesis using s run_fail [OF assms(1,2)] run_YY12 [OF assms(1,2), of "Suc c"] assms(3)
    by (simp add: lex_run.simps [of mem YY7] read_byte_in run_YY8)
qed

lemma run_attempt:
  assumes "rest_ok mem (Suc p)" and "p < text_end mem"
  shows "lex_run mem First_group p m a = result mem (found_from mem p)"
  using assms(2)
proof (rule Suc_less_cases)
  assume e: "Suc p = text_end mem"
  then have "\<not> header_at mem p" by (simp add: header_at_def)
  then show ?thesis using e before_end [OF assms(2)] run_fail [OF assms(1)]
    by (simp add: lex_run.simps [of mem First_group p] lex_run.simps [of mem YY4] lex_run.simps [of mem YY6]
        read_byte_in read_byte_end run_YY5 result_def)
next
  assume s: "Suc p < text_end mem"
  have head: "lex_run mem YY10 (Suc p) (Suc p) 0 = result mem (found_from mem p)" if "mem ! p = 1" "mem ! Suc p = 3"
    using that s assms by (intro run_header) (auto simp: header_at_def)
  have no: "mem ! p \<noteq> 1 \<or> mem ! Suc p \<noteq> 3 \<Longrightarrow> \<not> header_at mem p" by (auto simp: header_at_def)
  show ?thesis
    using s before_end [OF assms(2)] before_end [OF s] head run_YY7 [OF assms(1) no, of "Suc p"] run_YY9 [OF assms(1) no, of "Suc p"]
    by (auto simp: lex_run.simps [of mem First_group p] lex_run.simps [of mem YY4] lex_run.simps [of mem YY6] read_byte_in)
qed

lemma run_from: "p \<le> text_end mem \<Longrightarrow> lex_run mem First_group p m a = result mem (found_from mem p)"
proof (induction "text_end mem - p" arbitrary: p m a rule: less_induct)
  case less
  show ?case
  proof (cases "p = text_end mem")
    case True
    moreover have "lex_run mem YY2 p m' a' = Inr 0" for m' a' by (subst lex_run.simps) simp
    moreover have "\<not> found_from mem (text_end mem)" by (auto simp: found_from_def header_at_def)
    ultimately show ?thesis by (simp add: lex_run.simps [of mem First_group "text_end mem"] read_byte_end result_def)
  next
    case False
    with less.prems have p: "p < text_end mem" by simp
    then have "rest_ok mem (Suc p)" using less.hyps [of "Suc p"] by (simp add: rest_ok_def)
    then show ?thesis using p by (rule run_attempt)
  qed
qed

subsection \<open>The scanner\<close>

lemma lex_outcome:
  "lex payload = (if 0 \<in> set payload
     then Inr (if contains_signature (payload_text payload) then 1 else 0) else Inl OutOfBounds)"
  using run_from [of 0 payload] by (simp add: lex_def result_def found_from_0)

text \<open>
  C21: the scanner answers exactly when the memory holds a zero byte at or after the payload, and
  then it answers 1 if the bytes before the first zero contain the signature and 0 otherwise. A
  payload without a zero byte makes it read beyond the end of the packet: neither its caller nor
  the scanner checks the length.
\<close>

theorem lex_correct:
  "lex payload = (if 0 \<in> set payload
     then Inr (if contains_signature (payload_text payload) then 1 else 0) else Inl OutOfBounds)"
  by (rule lex_outcome)

end
