(* ===== verification/DyIDS.thy ===== *)
theory DyIDS
  imports IDS_Lexer Flow_Element
begin

text \<open>
  The element \<open>DyIDS\<close> (\<open>dyids.cc\<close>): for every packet it runs the scanner on the TCP payload and
  records the sequence number in one of two rings of \<open>DYIDS_ENTRIES\<close> entries kept per flow, one
  for the payloads with the signature and one for the others.
\<close>

definition DYIDS_ENTRIES :: nat where
  "DYIDS_ENTRIES = 1024"

record DyIDS =
  ids_handle :: nat
  ids_offset :: u32

text \<open>\<open>malloc\<close> of the state: the counters are cleared, the rings are not.\<close>

definition new_ids_state :: IDSState where
  "new_ids_state = \<lparr>found = 0, not_found = 0, matched = replicate DYIDS_ENTRIES None,
     unmatched = replicate DYIDS_ENTRIES None\<rparr>"

text \<open>Fields of \<open>click_tcp\<close>: \<open>th_off\<close> is the high half of byte 12, \<open>th_seq\<close> is kept as it is stored.\<close>

definition th_off :: "u8 list \<Rightarrow> nat" where
  "th_off mem = unat (drop_bit 4 (mem ! 12))"

definition th_seq :: "u8 list \<Rightarrow> u32" where
  "th_seq mem = le32 mem 4"

definition ids_payload :: "DyIDS \<Rightarrow> u8 list \<Rightarrow> u8 list" where
  "ids_payload el mem = drop (th_off mem * 4 + unat (ids_offset el)) mem"

definition ids_UpdateState :: "DyIDS \<Rightarrow> packet \<Rightarrow> IDSState \<Rightarrow> IDSState outcome" where
  "ids_UpdateState el p st = check_index 12 (tcp_mem p) (outcome_bind (lex (ids_payload el (tcp_mem p)))
     (\<lambda>ret. Inr (if ret \<noteq> 0
        then st\<lparr>matched := (matched st)[unat (found st) mod DYIDS_ENTRIES := Some (th_seq (tcp_mem p))],
                found := found st + 1\<rparr>
        else st\<lparr>unmatched := (unmatched st)[unat (not_found st) mod DYIDS_ENTRIES := Some (th_seq (tcp_mem p))],
                not_found := not_found st + 1\<rparr>)))"

text \<open>The last line is no check of the source: there the object of \<open>DyNAPT\<close> is used as an \<open>IDSState\<close> (undefined behaviour).\<close>

fun ids_step :: "DyIDS \<Rightarrow> packet \<Rightarrow> slot \<Rightarrow> slot outcome" where
  "ids_step el p NoState = outcome_bind (ids_UpdateState el p new_ids_state) (\<lambda>st. Inr (IDSSlot st))"
| "ids_step el p (IDSSlot st) = outcome_bind (ids_UpdateState el p st) (\<lambda>st. Inr (IDSSlot st))"
| "ids_step el p (NAPTSlot st) = Inl WrongType"

definition ids_simple_action :: "DyIDS \<Rightarrow> packet \<Rightarrow> global_mem \<Rightarrow> global_mem outcome" where
  "ids_simple_action el p g = with_slot (ids_handle el) (ids_step el p) p g"

definition ids_push_batch :: "DyIDS \<Rightarrow> packet list \<Rightarrow> global_mem \<Rightarrow> (packet list \<times> global_mem) outcome" where
  "ids_push_batch el ps g = outcome_bind (outcome_fold (ids_simple_action el) ps g) (\<lambda>g'. Inr (ps, g'))"

definition ids_configure :: "int \<Rightarrow> nat \<Rightarrow> u32 \<Rightarrow> DyIDS outcome" where
  "ids_configure args_complete HANDLE OFFSET =
     (if args_complete < 0 then Inl (ReturnError (-1)) else Inr \<lparr>ids_handle = HANDLE, ids_offset = OFFSET\<rparr>)"

interpretation ids: flow_element "ids_handle el" "ids_step el" "ids_simple_action el"
  by unfold_locales (simp add: ids_simple_action_def with_slot_ok)

lemma ids_push_batch_Inr:
  "ids_push_batch el ps g = Inr (out, g') \<longleftrightarrow> out = ps \<and> ids.batch el ps g = Inr g'"
  by (auto simp: ids_push_batch_def ids.batch_def outcome_bind_Inr)

subsection \<open>What a flow's state records\<close>

text \<open>The scanner's verdict on a packet, and the packets on which it comes to one.\<close>

definition ids_matches :: "DyIDS \<Rightarrow> packet \<Rightarrow> bool" where
  "ids_matches el p \<longleftrightarrow> contains_signature (payload_text (ids_payload el (tcp_mem p)))"

definition ids_scannable :: "DyIDS \<Rightarrow> packet \<Rightarrow> bool" where
  "ids_scannable el p \<longleftrightarrow> 12 < length (tcp_mem p) \<and> 0 \<in> set (ids_payload el (tcp_mem p))"

text \<open>A ring that holds the latest \<open>DYIDS_ENTRIES\<close> elements of the log \<open>xs\<close>, and nothing else.\<close>

definition ring_holds :: "'a option list \<Rightarrow> 'a list \<Rightarrow> bool" where
  "ring_holds r xs \<longleftrightarrow> length r = DYIDS_ENTRIES
     \<and> (\<forall>j<length xs. length xs \<le> j + DYIDS_ENTRIES \<longrightarrow> r ! (j mod DYIDS_ENTRIES) = Some (xs ! j))
     \<and> (\<forall>i<DYIDS_ENTRIES. length xs \<le> i \<longrightarrow> r ! i = None)"

lemma ring_holds_Nil: "ring_holds (replicate DYIDS_ENTRIES None) []"
  by (simp add: ring_holds_def)

lemma ring_holds_snoc:
  assumes "ring_holds r xs"
  shows "ring_holds (r[unat (of_nat (length xs) :: u32) mod DYIDS_ENTRIES := Some x]) (xs @ [x])"
proof -
  let ?n = "length xs" and ?N = DYIDS_ENTRIES
  have N: "0 < ?N" "?N = 1024" by (simp_all add: DYIDS_ENTRIES_def)
  have idx: "unat (of_nat ?n :: u32) mod ?N = ?n mod ?N"
    by (simp add: N unat_of_nat mod_mod_cancel)
  have "r[?n mod ?N := Some x] ! (j mod ?N) = Some ((xs @ [x]) ! j)" if "j \<le> ?n" "Suc ?n \<le> j + ?N" for j
  proof (cases "j = ?n")
    case True
    then show ?thesis using assms N by (simp add: ring_holds_def)
  next
    case False
    have "j mod ?N \<noteq> ?n mod ?N"
    proof
      assume "j mod ?N = ?n mod ?N"
      then have "?N dvd ?n - j" using that(1) by (metis mod_eq_dvd_iff_nat)
      moreover have "0 < ?n - j" "?n - j < ?N" using False that by auto
      ultimately show False by (simp add: nat_dvd_not_less)
    qed
    then show ?thesis using assms False that N by (simp add: ring_holds_def nth_append)
  qed
  moreover have "r[?n mod ?N := Some x] ! i = None" if "i < ?N" "Suc ?n \<le> i" for i
    using that assms by (simp add: ring_holds_def)
  ultimately show ?thesis using assms idx by (simp add: ring_holds_def less_Suc_eq_le)
qed

text \<open>The state after the packets \<open>ps\<close> of one flow.\<close>

definition ids_log :: "DyIDS \<Rightarrow> packet list \<Rightarrow> IDSState \<Rightarrow> bool" where
  "ids_log el ps st \<longleftrightarrow> (let M = filter (ids_matches el) ps; U = filter (\<lambda>p. \<not> ids_matches el p) ps
     in found st = of_nat (length M) \<and> ring_holds (matched st) (map (th_seq \<circ> tcp_mem) M)
      \<and> not_found st = of_nat (length U) \<and> ring_holds (unmatched st) (map (th_seq \<circ> tcp_mem) U))"

lemma ids_log_new: "ids_log el [] new_ids_state"
  by (simp add: ids_log_def new_ids_state_def ring_holds_Nil)

lemma ids_UpdateState_ok:
  assumes "ids_log el ps st" and "ids_scannable el p"
  shows "\<exists>st'. ids_UpdateState el p st = Inr st' \<and> ids_log el (ps @ [p]) st'"
proof -
  have "lex (ids_payload el (tcp_mem p)) = Inr (if ids_matches el p then 1 else 0)"
    using assms(2) by (simp add: lex_outcome ids_scannable_def ids_matches_def)
  then show ?thesis
    using assms ring_holds_snoc [of "matched st"] ring_holds_snoc [of "unmatched st"]
    by (force simp: ids_UpdateState_def ids_log_def ids_scannable_def Let_def)
qed

lemma ids_UpdateState_scannable: "ids_UpdateState el p st = Inr st' \<Longrightarrow> ids_scannable el p"
  by (auto simp: ids_UpdateState_def check_index_Inr outcome_bind_Inr lex_outcome ids_scannable_def split: if_splits)

text \<open>What the slot of a flow holds after its packets \<open>ps\<close>.\<close>

fun ids_slot_log :: "DyIDS \<Rightarrow> packet list \<Rightarrow> slot \<Rightarrow> bool" where
  "ids_slot_log el ps NoState \<longleftrightarrow> ps = []"
| "ids_slot_log el ps (IDSSlot st) \<longleftrightarrow> ids_log el ps st"
| "ids_slot_log el ps (NAPTSlot st) \<longleftrightarrow> False"

lemma ids_step_ok:
  assumes "ids_slot_log el ps x"
  shows "ids_scannable el p \<Longrightarrow> \<exists>x'. ids_step el p x = Inr x'"
    and "ids_step el p x = Inr x' \<Longrightarrow> ids_scannable el p \<and> ids_slot_log el (ps @ [p]) x'"
proof -
  have "\<exists>st. ids_log el ps st \<and> ids_step el p x = outcome_bind (ids_UpdateState el p st) (\<lambda>st. Inr (IDSSlot st))"
    using assms ids_log_new by (cases x) auto
  then obtain st where st: "ids_log el ps st"
    "ids_step el p x = outcome_bind (ids_UpdateState el p st) (\<lambda>st. Inr (IDSSlot st))" by blast
  show "ids_scannable el p \<Longrightarrow> \<exists>x'. ids_step el p x = Inr x'"
    using ids_UpdateState_ok [OF st(1), of p] st(2) by auto
  show "ids_step el p x = Inr x' \<Longrightarrow> ids_scannable el p \<and> ids_slot_log el (ps @ [p]) x'"
    using ids_UpdateState_ok [OF st(1), of p] ids_UpdateState_scannable st(2) by (fastforce simp: outcome_bind_Inr)
qed

lemma ids_steps_log:
  "ids_slot_log el old x \<Longrightarrow> outcome_fold (ids_step el) ps x = Inr x' \<Longrightarrow> ids_slot_log el (old @ ps) x'"
proof (induction ps arbitrary: old x)
  case Nil
  then show ?case by simp
next
  case (Cons p ps)
  then obtain y where "ids_step el p x = Inr y" "outcome_fold (ids_step el) ps y = Inr x'"
    by (auto simp: outcome_bind_Inr)
  with Cons.IH [of "old @ [p]" y] ids_step_ok(2) [OF Cons.prems(1)] show ?case by simp
qed

lemma ids_steps_succeed:
  "ids_slot_log el old x \<Longrightarrow> \<forall>p\<in>set ps. ids_scannable el p \<Longrightarrow> \<exists>x'. outcome_fold (ids_step el) ps x = Inr x'"
proof (induction ps arbitrary: old x)
  case Nil
  then show ?case by simp
next
  case (Cons p ps)
  then obtain y where y: "ids_step el p x = Inr y" using ids_step_ok(1) [OF Cons.prems(1), of p] by auto
  with Cons.IH [of "old @ [p]" y] ids_step_ok(2) [OF Cons.prems(1) y] Cons.prems(2) show ?case by simp
qed

lemma ids_batch_scannable: "ids.batch el ps g = Inr g' \<Longrightarrow> (\<And>a. \<exists>old. ids_slot_log el old (g a ! ids_handle el)) \<Longrightarrow>
   \<forall>p\<in>set ps. ids_scannable el p \<and> (\<exists>a. for_flow a p \<and> ids_handle el < length (g a))"
proof (induction ps arbitrary: g)
  case Nil
  then show ?case by simp
next
  case (Cons p ps)
  from Cons.prems(1) obtain a x where a: "for_flow a p" "ids_handle el < length (g a)"
    "ids_step el p (g a ! ids_handle el) = Inr x" "ids.batch el ps (g(a := (g a)[ids_handle el := x])) = Inr g'"
    by (auto simp: ids.batch_Cons)
  let ?g = "g(a := (g a)[ids_handle el := x])"
  obtain old where "ids_slot_log el old (g a ! ids_handle el)" using Cons.prems(2) by blast
  note ok = ids_step_ok(2) [OF this a(3)]
  have "\<exists>old. ids_slot_log el old (?g b ! ids_handle el)" for b using ok Cons.prems(2) [of b] a(2) by auto
  note IH = Cons.IH [OF a(4) this]
  have "length (?g b) = length (g b)" for b by simp
  then show ?case using IH ok a(1,2) by auto
qed

subsection \<open>The element\<close>

text \<open>
  C22: a batch of any flows leaves in every flow's slot the record of exactly that flow's packets, in
  order: the counters of the payloads with and without the signature (modulo 2^32), and the
  sequence numbers of the last 1024 packets of each kind. The batch is passed on unchanged and the
  slots of the other network functions are untouched.
\<close>

theorem ids_batch_records_flow:
  assumes "ids_slot_log el old (g a ! ids_handle el)" and "ids_handle el < length (g a)"
    and "ids_push_batch el ps g = Inr (out, g')"
  shows "out = ps \<and> ids_slot_log el (old @ filter (for_flow a) ps) (g' a ! ids_handle el)
    \<and> (\<forall>h. h \<noteq> ids_handle el \<longrightarrow> g' a ! h = g a ! h)"
proof -
  have b: "out = ps" "ids.batch el ps g = Inr g'" using assms(3) by (auto simp: ids_push_batch_Inr)
  show ?thesis
    using b(1) ids_steps_log [OF assms(1) ids.batch_flow [OF b(2) assms(2)]] ids.batch_frame [OF b(2), of a] by simp
qed

text \<open>
  C23: a batch is processed without a fault exactly when every packet has a flow whose array has the
  element's slot, and a payload with a zero byte in readable memory: otherwise the scanner reads
  beyond the packet.
\<close>

theorem ids_batch_succeeds_iff:
  assumes "\<And>a. \<exists>old. ids_slot_log el old (g a ! ids_handle el)"
  shows "(\<exists>r. ids_push_batch el ps g = Inr r) \<longleftrightarrow>
    (\<forall>p\<in>set ps. ids_scannable el p \<and> (\<exists>a. for_flow a p \<and> ids_handle el < length (g a)))"
proof
  assume "\<exists>r. ids_push_batch el ps g = Inr r"
  then obtain g' where "ids.batch el ps g = Inr g'" by (auto simp: ids_push_batch_Inr)
  then show "\<forall>p\<in>set ps. ids_scannable el p \<and> (\<exists>a. for_flow a p \<and> ids_handle el < length (g a))"
    by (rule ids_batch_scannable [OF _ assms])
next
  assume ok: "\<forall>p\<in>set ps. ids_scannable el p \<and> (\<exists>a. for_flow a p \<and> ids_handle el < length (g a))"
  have "\<exists>x. outcome_fold (ids_step el) (filter (for_flow a) ps) (g a ! ids_handle el) = Inr x" for a
    using assms [of a] ids_steps_succeed [of el _ _ "filter (for_flow a) ps"] ok by auto
  with ok have "\<exists>g'. ids.batch el ps g = Inr g'" by (intro ids.batch_succeeds) auto
  then show "\<exists>r. ids_push_batch el ps g = Inr r" by (auto simp: ids_push_batch_Inr)
qed

text \<open>
  The example: two packets of two flows with a header of 20 bytes; the first payload is
  \<open>01 03 0b 00\<close>, the second \<open>01 03 00\<close>.
\<close>

definition ex_ids :: DyIDS where
  "ex_ids = \<lparr>ids_handle = 0, ids_offset = 0\<rparr>"

definition ex_tcp :: "u8 list" where
  "ex_tcp = [0, 80, 0, 81, 1, 2, 3, 4, 0, 0, 0, 0, 0x50, 0, 0, 0, 0, 0, 0, 0]"

definition ex_batch :: "packet list" where
  "ex_batch = [\<lparr>PERFCTR_ANNO = Some 7, tcp_mem = ex_tcp @ [1, 3, 11, 0]\<rparr>,
     \<lparr>PERFCTR_ANNO = Some 8, tcp_mem = ex_tcp @ [1, 3, 0]\<rparr>]"

definition ex_global :: global_mem where
  "ex_global = (\<lambda>_. [NoState, NoState])"

lemma ex_ids_scannable: "p \<in> set ex_batch \<Longrightarrow> ids_scannable ex_ids p"
  by (auto simp: ex_batch_def ex_tcp_def ids_scannable_def ids_payload_def th_off_def ex_ids_def)

theorem ids_batch_succeeds_iff_witness: "\<exists>r. ids_push_batch ex_ids ex_batch ex_global = Inr r"
proof (subst ids_batch_succeeds_iff)
  show "\<exists>old. ids_slot_log ex_ids old (ex_global a ! ids_handle ex_ids)" for a
    by (simp add: ex_global_def ex_ids_def)
  show "\<forall>p\<in>set ex_batch. ids_scannable ex_ids p \<and> (\<exists>a. for_flow a p \<and> ids_handle ex_ids < length (ex_global a))"
    using ex_ids_scannable by (auto simp: ex_batch_def for_flow_def ex_global_def ex_ids_def)
qed

lemma ex_ids_batch: "\<exists>g'. ids_push_batch ex_ids ex_batch ex_global = Inr (ex_batch, g')"
proof -
  have "ids_slot_log ex_ids [] (ex_global a ! ids_handle ex_ids)" for a by (simp add: ex_global_def ex_ids_def)
  then have "\<exists>x. outcome_fold (ids_step ex_ids) (filter (for_flow a) ex_batch) (ex_global a ! ids_handle ex_ids) = Inr x" for a
    using ids_steps_succeed [of ex_ids "[]" _ "filter (for_flow a) ex_batch"] ex_ids_scannable by simp
  then have "\<exists>g'. ids.batch ex_ids ex_batch ex_global = Inr g'"
    by (intro ids.batch_succeeds) (auto simp: ex_batch_def for_flow_def ex_global_def ex_ids_def)
  then show ?thesis by (auto simp: ids_push_batch_Inr)
qed

theorem ids_batch_records_flow_witness:
  "\<exists>g'. ids_push_batch ex_ids ex_batch ex_global = Inr (ex_batch, g') \<and> ids_slot_log ex_ids [hd ex_batch] (g' 7 ! 0)"
proof -
  obtain g' where b: "ids_push_batch ex_ids ex_batch ex_global = Inr (ex_batch, g')" using ex_ids_batch by blast
  have "ids_slot_log ex_ids ([] @ filter (for_flow 7) ex_batch) (g' 7 ! ids_handle ex_ids)"
    using ids_batch_records_flow [OF _ _ b, of "[]" 7] by (simp add: ex_global_def ex_ids_def)
  moreover have "filter (for_flow 7) ex_batch = [hd ex_batch]" by (simp add: ex_batch_def for_flow_def)
  ultimately show ?thesis using b by (simp add: ex_ids_def)
qed

end
