(* ===== verification/DyNAPT.thy ===== *)
theory DyNAPT
  imports Flow_Element
begin

text \<open>
  The element \<open>DyNAPT\<close> (\<open>dynapt.cc\<close>). As committed it counts packets per flow: the code of
  \<open>new_flow\<close> that would allocate an endpoint and the rewriting in \<open>update_state\<close> are commented
  out. The port allocator \<open>GetEndpoint\<close> is compiled and modelled here too. The parser of dotted
  addresses (Click's \<open>IPAddress\<close>) is the parameter \<open>ip_addr\<close>.
\<close>

definition kPortRange :: nat where
  "kPortRange = 65535"

record DyNAPT =
  napt_handle :: nat
  dst_addrs :: "u32 list"
  port_lists :: "bool list list"

definition ext_addrs :: "string list" where
  "ext_addrs = [
    ''10.0.0.1'', ''10.0.0.10'', ''10.0.0.100'',
    ''1.0.0.1'', ''1.0.0.10'', ''1.0.0.100'',
    ''10.0.1.1'', ''10.0.10.10'', ''10.0.100.100'',
    ''1.0.1.1'', ''1.0.10.10'', ''1.0.100.100'',
    ''10.1.1.1'', ''10.10.10.10'', ''10.100.100.100'',
    ''1.1.1.1'', ''1.10.10.10'', ''1.100.100.100'',
    ''172.16.0.1'', ''172.16.0.10'', ''172.16.0.100'',
    ''17.16.0.1'', ''17.16.0.10'', ''17.16.0.100'',
    ''172.16.1.1'', ''172.16.10.10'', ''172.16.100.100'',
    ''17.16.1.1'', ''17.16.10.10'', ''17.16.100.100'',
    ''172.160.0.1'', ''172.160.0.10'', ''172.160.0.100'',
    ''17.160.0.1'', ''17.160.0.10'', ''17.160.0.100'',
    ''192.0.10.1'', ''192.10.10.10'', ''192.100.10.100'',
    ''19.0.10.1'', ''19.10.10.10'', ''19.100.10.100'',
    ''192.168.10.1'', ''192.168.10.10'', ''192.168.10.100'',
    ''19.168.10.1'', ''19.168.10.10'', ''19.168.10.100'',
    ''192.168.100.1'', ''192.168.100.10'', ''192.168.100.100'',
    ''19.168.100.1'', ''19.168.100.10'', ''19.168.100.100'']"

definition napt_add_addr :: "(string \<Rightarrow> u32) \<Rightarrow> string \<Rightarrow> DyNAPT \<Rightarrow> DyNAPT" where
  "napt_add_addr ip_addr e el = el\<lparr>dst_addrs := dst_addrs el @ [ip_addr e],
     port_lists := port_lists el @ [replicate kPortRange True]\<rparr>"

definition napt_configure :: "(string \<Rightarrow> u32) \<Rightarrow> int \<Rightarrow> nat \<Rightarrow> DyNAPT \<Rightarrow> DyNAPT outcome" where
  "napt_configure ip_addr args_complete HANDLE el =
     (if args_complete < 0 then Inl (ReturnError (-1))
      else Inr (fold (napt_add_addr ip_addr) ext_addrs (el\<lparr>napt_handle := HANDLE\<rparr>)))"

subsection \<open>The port allocator\<close>

text \<open>
  The loop of \<open>GetEndpoint\<close> from iteration \<open>i\<close> on: the first port of the list, in the order
  \<open>(start_port + i) % kPortRange\<close>, that is free. \<open>port_lists[idx]\<close> has \<open>kPortRange\<close> entries.
\<close>

function scan_ports :: "bool list \<Rightarrow> nat \<Rightarrow> nat \<Rightarrow> nat option" where
  "scan_ports ports start i = (if i < kPortRange
     then let port = (start + i) mod kPortRange in if ports ! port then Some port else scan_ports ports start (Suc i)
     else None)"
  by pat_completeness auto
termination
  by (relation "measure (\<lambda>(_, _, i). kPortRange - i)") auto

declare scan_ports.simps [simp del]

text \<open>
  \<open>click_random(0, kPortRange)\<close> answers some \<open>r \<le> kPortRange\<close>; the start port is a \<open>uint16_t\<close>, so
  that \<open>1 + 65535\<close> is 0.
\<close>

definition start_port :: "nat \<Rightarrow> u16" where
  "start_port r = 1 + of_nat r"

definition GetEndpoint :: "nat \<Rightarrow> nat \<Rightarrow> DyNAPT \<Rightarrow> ((bool \<times> u32 \<times> u16) \<times> DyNAPT) outcome" where
  "GetEndpoint r idx el = check_index idx (port_lists el) (check_index idx (dst_addrs el)
     (case scan_ports (port_lists el ! idx) (unat (start_port r)) 0 of
        Some port \<Rightarrow> Inr ((True, dst_addrs el ! idx, of_nat port),
          el\<lparr>port_lists := (port_lists el)[idx := (port_lists el ! idx)[port := False]]\<rparr>)
      | None \<Rightarrow> Inr ((False, 0, 0), el)))"

definition napt_ok :: "DyNAPT \<Rightarrow> bool" where
  "napt_ok el \<longleftrightarrow> length (dst_addrs el) = length (port_lists el)
     \<and> (\<forall>ports\<in>set (port_lists el). length ports = kPortRange)"

lemma scan_ports_Some:
  "scan_ports ports start i = Some port \<Longrightarrow> port < kPortRange \<and> ports ! port"
proof (induction ports start i rule: scan_ports.induct)
  case (1 ports start i)
  then show ?case
    by (subst (asm) (2) scan_ports.simps) (auto simp: Let_def kPortRange_def split: if_splits)
qed

lemma scan_ports_None:
  "scan_ports ports start i = None \<Longrightarrow> i \<le> j \<Longrightarrow> j < kPortRange \<Longrightarrow> \<not> ports ! ((start + j) mod kPortRange)"
proof (induction ports start i rule: scan_ports.induct)
  case (1 ports start i)
  have i: "i < kPortRange" using 1 by simp
  then have none: "\<not> ports ! ((start + i) mod kPortRange)" "scan_ports ports start (Suc i) = None"
    using 1(2) by (auto simp: scan_ports.simps [of _ _ i] Let_def split: if_splits)
  show ?case
  proof (cases "j = i")
    case False
    then show ?thesis using 1 none i by simp
  qed (use none in simp)
qed

text \<open>The scan visits every port: it wraps around at the end of the range.\<close>

lemma scan_ports_visits: "p < kPortRange \<Longrightarrow> \<exists>j<kPortRange. (start + j) mod kPortRange = p"
proof -
  assume p: "p < kPortRange"
  let ?n = kPortRange and ?s = "start mod kPortRange"
  have n: "0 < ?n" by (simp add: kPortRange_def)
  have "(start + (p + (?n - ?s)) mod ?n) mod ?n = (?s + (p + (?n - ?s))) mod ?n" by (simp add: mod_simps)
  also have "?s + (p + (?n - ?s)) = p + ?n" using mod_less_divisor [OF n, of start] by linarith
  finally show ?thesis using n p by (intro exI [of _ "(p + (?n - ?s)) mod ?n"]) simp
qed

lemma scan_ports_complete:
  "scan_ports ports start 0 = None \<Longrightarrow> p < kPortRange \<Longrightarrow> \<not> ports ! p"
  using scan_ports_visits [of p start] scan_ports_None [of ports start 0] by auto

definition free_ports :: "nat \<Rightarrow> DyNAPT \<Rightarrow> nat set" where
  "free_ports idx el = {p. p < kPortRange \<and> port_lists el ! idx ! p}"

lemma finite_free_ports [simp]: "finite (free_ports idx el)"
  by (simp add: free_ports_def)

lemma GetEndpoint_cases:
  assumes "napt_ok el" and "idx < length (port_lists el)"
  obtains (taken) port el' where "GetEndpoint r idx el = Inr ((True, dst_addrs el ! idx, of_nat port), el')"
      "port \<in> free_ports idx el" "free_ports idx el' = free_ports idx el - {port}"
      "\<forall>i. i \<noteq> idx \<longrightarrow> port_lists el' ! i = port_lists el ! i" "dst_addrs el' = dst_addrs el"
      "napt_ok el'" "length (port_lists el') = length (port_lists el)" "napt_handle el' = napt_handle el"
    | (exhausted) "GetEndpoint r idx el = Inr ((False, 0, 0), el)" "free_ports idx el = {}"
proof (cases "scan_ports (port_lists el ! idx) (unat (start_port r)) 0")
  case None
  then show ?thesis using assms scan_ports_complete [OF None]
    by (intro exhausted) (auto simp: GetEndpoint_def napt_ok_def free_ports_def)
next
  case (Some port)
  let ?el' = "el\<lparr>port_lists := (port_lists el)[idx := (port_lists el ! idx)[port := False]]\<rparr>"
  have len: "length (port_lists el ! idx) = kPortRange" using assms by (simp add: napt_ok_def)
  have "free_ports idx ?el' = free_ports idx el - {port}"
    using assms(2) len by (auto simp: free_ports_def nth_update split: if_splits)
  moreover have "napt_ok ?el'" using assms len set_update_subset_insert [of "port_lists el" idx "(port_lists el ! idx)[port := False]"]
    by (auto simp: napt_ok_def)
  ultimately show ?thesis using scan_ports_Some [OF Some] Some assms
    by (intro taken [of port ?el']) (auto simp: GetEndpoint_def napt_ok_def free_ports_def)
qed

text \<open>A sequence of calls with the random numbers \<open>rs\<close>, and the answers.\<close>

fun get_endpoints :: "nat \<Rightarrow> nat list \<Rightarrow> DyNAPT \<Rightarrow> ((bool \<times> u32 \<times> u16) list \<times> DyNAPT) outcome" where
  "get_endpoints idx [] el = Inr ([], el)"
| "get_endpoints idx (r # rs) el = outcome_bind (GetEndpoint r idx el) (\<lambda>(x, el').
     outcome_bind (get_endpoints idx rs el') (\<lambda>(xs, el''). Inr (x # xs, el'')))"

lemma port_inj: "p < kPortRange \<Longrightarrow> q < kPortRange \<Longrightarrow> (of_nat p :: u16) = of_nat q \<Longrightarrow> p = q"
  by (simp add: kPortRange_def word_of_nat_eq_iff take_bit_nat_eq_self)

lemma get_endpoints_ok:
  "napt_ok el \<Longrightarrow> idx < length (port_lists el) \<Longrightarrow>
    \<exists>ps el'. get_endpoints idx rs el = Inr (map (\<lambda>p. (True, dst_addrs el ! idx, of_nat p)) ps
        @ replicate (length rs - length ps) (False, 0, 0), el')
      \<and> distinct ps \<and> set ps \<subseteq> free_ports idx el \<and> length ps = min (length rs) (card (free_ports idx el))"
proof (induction rs arbitrary: el)
  case Nil
  then show ?case by simp
next
  case (Cons r rs)
  from Cons.prems show ?case
  proof (cases rule: GetEndpoint_cases [where r = r])
    case (taken port el')
    from Cons.IH [of el'] taken Cons.prems(2) obtain ps el'' where ps:
      "get_endpoints idx rs el' = Inr (map (\<lambda>p. (True, dst_addrs el' ! idx, of_nat p)) ps
        @ replicate (length rs - length ps) (False, 0, 0), el'')"
      "distinct ps" "set ps \<subseteq> free_ports idx el'" "length ps = min (length rs) (card (free_ports idx el'))"
      by auto
    have "card (free_ports idx el) = Suc (card (free_ports idx el'))"
      using card_Suc_Diff1 [OF finite_free_ports taken(2)] by (simp only: taken(3))
    then show ?thesis using ps taken by (intro exI [of _ "port # ps"] exI [of _ el'']) auto
  next
    case exhausted
    from Cons.IH [OF Cons.prems] exhausted show ?thesis by auto
  qed
qed

lemma napt_add_addrs:
  "dst_addrs (fold (napt_add_addr ip_addr) es el) = dst_addrs el @ map ip_addr es
   \<and> port_lists (fold (napt_add_addr ip_addr) es el) = port_lists el @ replicate (length es) (replicate kPortRange True)
   \<and> napt_handle (fold (napt_add_addr ip_addr) es el) = napt_handle el"
  by (induction es arbitrary: el) (auto simp: napt_add_addr_def)

lemma napt_configure_ok:
  assumes "napt_configure ip_addr ac h el0 = Inr el" and "dst_addrs el0 = []" and "port_lists el0 = []"
  shows "dst_addrs el = map ip_addr ext_addrs \<and> port_lists el = replicate (length ext_addrs) (replicate kPortRange True)
    \<and> napt_handle el = h"
proof -
  have "el = fold (napt_add_addr ip_addr) ext_addrs (el0\<lparr>napt_handle := h\<rparr>)"
    using assms(1) by (simp add: napt_configure_def split: if_splits)
  then show ?thesis using napt_add_addrs [of ip_addr ext_addrs "el0\<lparr>napt_handle := h\<rparr>"] assms(2,3) by simp
qed

text \<open>
  C24: from \<open>configure\<close> on, any sequence of \<open>GetEndpoint\<close> calls on one address, whatever the random
  start ports, answers pairwise different ports below 65535 until all 65535 are taken, and failure
  after that: no port is handed out twice and none is missed.
\<close>

theorem endpoints_distinct_until_exhausted:
  assumes "napt_configure ip_addr ac h \<lparr>napt_handle = 0, dst_addrs = [], port_lists = []\<rparr> = Inr el"
    and "idx < 54"
  shows "\<exists>ps el'. get_endpoints idx rs el = Inr (map (\<lambda>p. (True, ip_addr (ext_addrs ! idx), of_nat p)) ps
        @ replicate (length rs - 65535) (False, 0, 0), el')
      \<and> length ps = min (length rs) 65535 \<and> (\<forall>p\<in>set ps. p < 65535) \<and> distinct (map (of_nat :: nat \<Rightarrow> u16) ps)"
proof -
  have n: "length ext_addrs = 54" by (simp add: ext_addrs_def)
  note el = napt_configure_ok [OF assms(1)]
  have ok: "napt_ok el" using el by (simp add: napt_ok_def)
  have idx: "idx < length (port_lists el)" using el assms(2) n by simp
  have free: "free_ports idx el = {..<65535}" using el assms(2) n by (auto simp: free_ports_def kPortRange_def)
  from get_endpoints_ok [OF ok idx, of rs] free obtain ps el' where ps:
    "get_endpoints idx rs el = Inr (map (\<lambda>p. (True, dst_addrs el ! idx, of_nat p)) ps
        @ replicate (length rs - length ps) (False, 0, 0), el')"
    "distinct ps" "set ps \<subseteq> {..<65535}" "length ps = min (length rs) 65535" by auto
  have "inj_on (of_nat :: nat \<Rightarrow> u16) (set ps)"
    using ps(3) port_inj by (auto simp: inj_on_def kPortRange_def)
  with ps show ?thesis using el assms(2) n by (auto simp: distinct_map min_def)
qed

definition ex_napt :: DyNAPT where
  "ex_napt = \<lparr>napt_handle = 1, dst_addrs = map (\<lambda>_. 0) ext_addrs,
     port_lists = replicate (length ext_addrs) (replicate kPortRange True)\<rparr>"

lemma ex_napt_configure:
  "napt_configure (\<lambda>_. 0) 0 1 \<lparr>napt_handle = 0, dst_addrs = [], port_lists = []\<rparr> = Inr ex_napt"
proof -
  obtain el where el: "napt_configure (\<lambda>_. 0) 0 1 \<lparr>napt_handle = 0, dst_addrs = [], port_lists = []\<rparr> = Inr el"
    by (simp add: napt_configure_def)
  then show ?thesis using napt_configure_ok [OF el] by (simp add: ex_napt_def)
qed

theorem endpoints_distinct_until_exhausted_witness:
  "\<exists>p q el'. get_endpoints 0 [7, 7] ex_napt = Inr ([(True, 0, of_nat p), (True, 0, of_nat q)], el')
     \<and> p \<noteq> q \<and> p < 65535 \<and> q < 65535"
proof -
  from endpoints_distinct_until_exhausted [OF ex_napt_configure, of 0 "[7, 7]"] obtain ps el' where
    "get_endpoints 0 [7, 7] ex_napt = Inr (map (\<lambda>p. (True, 0, of_nat p)) ps, el')" "length ps = 2"
    "\<forall>p\<in>set ps. p < 65535" "distinct (map (of_nat :: nat \<Rightarrow> u16) ps)" by auto
  moreover obtain p q where "ps = [p, q]" using \<open>length ps = 2\<close> by (auto simp: numeral_2_eq_2 length_Suc_conv)
  ultimately show ?thesis by auto
qed

subsection \<open>The packet counter\<close>

definition napt_new_flow :: NAPTState where
  "napt_new_flow = \<lparr>napt_src_port = None, napt_dst_port = None, napt_src_addr = None, napt_dst_addr = None,
     napt_count = 0\<rparr>"

definition napt_update_state :: "NAPTState \<Rightarrow> NAPTState" where
  "napt_update_state st = st\<lparr>napt_count := napt_count st + 1\<rparr>"

text \<open>The last line is no check of the source: there the object of \<open>DyIDS\<close> is used as a \<open>NAPTState\<close> (undefined behaviour).\<close>

fun napt_step :: "packet \<Rightarrow> slot \<Rightarrow> slot outcome" where
  "napt_step p NoState = Inr (NAPTSlot (napt_update_state napt_new_flow))"
| "napt_step p (NAPTSlot st) = Inr (NAPTSlot (napt_update_state st))"
| "napt_step p (IDSSlot st) = Inl WrongType"

definition napt_simple_action :: "DyNAPT \<Rightarrow> packet \<Rightarrow> global_mem \<Rightarrow> global_mem outcome" where
  "napt_simple_action el p g = with_slot (napt_handle el) (napt_step p) p g"

definition napt_push_batch :: "DyNAPT \<Rightarrow> packet list \<Rightarrow> global_mem \<Rightarrow> (packet list \<times> global_mem) outcome" where
  "napt_push_batch el ps g = outcome_bind (outcome_fold (napt_simple_action el) ps g) (\<lambda>g'. Inr (ps, g'))"

interpretation napt: flow_element "napt_handle el" napt_step "napt_simple_action el"
  by unfold_locales (simp add: napt_simple_action_def with_slot_ok)

lemma napt_push_batch_Inr:
  "napt_push_batch el ps g = Inr (out, g') \<longleftrightarrow> out = ps \<and> napt.batch el ps g = Inr g'"
  by (auto simp: napt_push_batch_def napt.batch_def outcome_bind_Inr)

fun napt_slot_count :: "nat \<Rightarrow> slot \<Rightarrow> bool" where
  "napt_slot_count n NoState \<longleftrightarrow> n = 0"
| "napt_slot_count n (NAPTSlot st) \<longleftrightarrow> napt_count st = of_nat n"
| "napt_slot_count n (IDSSlot st) \<longleftrightarrow> False"

lemma napt_step_count: "napt_slot_count n x \<Longrightarrow> \<exists>x'. napt_step p x = Inr x' \<and> napt_slot_count (Suc n) x'"
  by (cases x) (auto simp: napt_update_state_def napt_new_flow_def)

lemma napt_steps_count:
  "napt_slot_count n x \<Longrightarrow> \<exists>x'. outcome_fold napt_step ps x = Inr x' \<and> napt_slot_count (n + length ps) x'"
proof (induction ps arbitrary: n x)
  case Nil
  then show ?case by simp
next
  case (Cons p ps)
  from napt_step_count [OF Cons.prems, of p] obtain y where "napt_step p x = Inr y" "napt_slot_count (Suc n) y" by blast
  with Cons.IH [OF this(2)] show ?case by simp
qed

end
