(* ===== verification/Service_Chain.thy ===== *)
theory Service_Chain
  imports DyIDS DyNAPT
begin

text \<open>
  The network functions one after the other, as a configuration connects them: the batch \<open>DyIDS\<close>
  pushes to its output reaches \<open>DyNAPT\<close>. Elements with different handles do not interfere.
\<close>

definition chain_push_batch :: "DyIDS \<Rightarrow> DyNAPT \<Rightarrow> packet list \<Rightarrow> global_mem \<Rightarrow> (packet list \<times> global_mem) outcome" where
  "chain_push_batch ids napt ps g =
     outcome_bind (ids_push_batch ids ps g) (\<lambda>(out, g'). napt_push_batch napt out g')"

lemma chain_Inr: "chain_push_batch i n ps g = Inr (out, g'') \<longleftrightarrow>
    out = ps \<and> (\<exists>g'. ids.batch i ps g = Inr g' \<and> napt.batch n ps g' = Inr g'')"
  by (auto simp: chain_push_batch_def outcome_bind_Inr ids_push_batch_Inr napt_push_batch_Inr)

text \<open>
  C25: with different handles, a batch that runs through both functions leaves in each flow's two
  slots what each function alone records of that flow's packets: the IDS its log and the NAPT its
  packet count modulo 2^32.
\<close>

theorem chain_records_both:
  assumes "ids_handle i \<noteq> napt_handle n" and "ids_handle i < length (g a)" and "napt_handle n < length (g a)"
    and "ids_slot_log i old (g a ! ids_handle i)" and "napt_slot_count k (g a ! napt_handle n)"
    and "chain_push_batch i n ps g = Inr (out, g'')"
  shows "out = ps \<and> ids_slot_log i (old @ filter (for_flow a) ps) (g'' a ! ids_handle i)
    \<and> napt_slot_count (k + length (filter (for_flow a) ps)) (g'' a ! napt_handle n)"
proof -
  from assms(6) obtain g' where out: "out = ps" and 1: "ids.batch i ps g = Inr g'" and 2: "napt.batch n ps g' = Inr g''"
    by (auto simp: chain_Inr)
  have len: "napt_handle n < length (g' a)" using assms(3) ids.batch_frame [OF 1, of a] by simp
  have "ids_slot_log i (old @ filter (for_flow a) ps) (g'' a ! ids_handle i)"
    using ids_steps_log [OF assms(4) ids.batch_flow [OF 1 assms(2)]] napt.batch_frame [OF 2, of a] assms(1) by simp
  moreover have "napt_slot_count k (g' a ! napt_handle n)" using assms(1,5) ids.batch_frame [OF 1, of a] by simp
  then have "napt_slot_count (k + length (filter (for_flow a) ps)) (g'' a ! napt_handle n)"
    using napt_steps_count [of k "g' a ! napt_handle n" "filter (for_flow a) ps"] napt.batch_flow [OF 2 len] by auto
  ultimately show ?thesis using out by simp
qed

lemma ex_chain: "\<exists>g''. chain_push_batch ex_ids ex_napt ex_batch ex_global = Inr (ex_batch, g'')"
proof -
  obtain g' where 1: "ids.batch ex_ids ex_batch ex_global = Inr g'" using ex_ids_batch by (auto simp: ids_push_batch_Inr)
  have len: "length (g' a) = 2" "g' a ! 1 = NoState" for a
    using ids.batch_frame [OF 1, of a] by (auto simp: ex_global_def ex_ids_def)
  have "napt_slot_count 0 (g' a ! 1)" for a by (simp only: len napt_slot_count.simps)
  then have "\<exists>x. outcome_fold napt_step (filter (for_flow a) ex_batch) (g' a ! 1) = Inr x" for a
    using napt_steps_count [of 0 "g' a ! 1" "filter (for_flow a) ex_batch"] by blast
  then have "\<exists>g''. napt.batch ex_napt ex_batch g' = Inr g''"
    using len by (intro napt.batch_succeeds) (auto simp: ex_batch_def for_flow_def ex_napt_def)
  then show ?thesis using 1 by (auto simp: chain_Inr)
qed

theorem chain_records_both_witness:
  "\<exists>g''. chain_push_batch ex_ids ex_napt ex_batch ex_global = Inr (ex_batch, g'')
     \<and> ids_slot_log ex_ids [hd ex_batch] (g'' 7 ! 0) \<and> napt_slot_count 1 (g'' 7 ! 1)"
proof -
  obtain g'' where c: "chain_push_batch ex_ids ex_napt ex_batch ex_global = Inr (ex_batch, g'')"
    using ex_chain by blast
  have "filter (for_flow 7) ex_batch = [hd ex_batch]" by (simp add: ex_batch_def for_flow_def)
  then show ?thesis
    using chain_records_both [OF _ _ _ _ _ c, of 7 "[]" 0] c by (simp add: ex_ids_def ex_napt_def ex_global_def)
qed

end
