(* ===== verification/Generator.thy ===== *)
theory Generator
  imports Prelude
begin

text \<open>
  The traffic generator \<open>FastUDPFlows\<close> (\<open>generator/fastudpflows.cc\<close> and \<open>.hh\<close>): at start it makes one
  UDP packet per flow, and each \<open>pull\<close> hands out a clone of one of them, in bursts of \<open>FLOWBURST\<close>
  packets of a flow, up to \<open>LIMIT\<close> packets at the configured rate. After \<open>FLOWSIZE\<close> packets of a
  flow its ports change.

  Click's \<open>GapRate\<close>, random numbers, clock, packet allocation and checksum functions are parameters.
  A packet is the record of the header fields the code writes; fields hold the value of the C++ field,
  so that 16-bit fields in network order are swapped. \<open>clone\<close> shares the bytes and \<open>uniqueify\<close>
  copies them before a change, so that a clone is a value. The element runs on one thread, so that
  \<open>per_thread<state_t>\<close> is one state.
\<close>

subsection \<open>State\<close>

record gen_packet =
  pk_len :: u32
  eth_dhost :: "u8 list"
  eth_shost :: "u8 list"
  eth_type :: u16
  gp_ip_v :: nat
  gp_ip_hl :: nat
  gp_ip_tos :: u8
  gp_ip_len :: u16
  gp_ip_id :: u16
  gp_ip_off :: u16
  gp_ip_ttl :: u8
  gp_ip_p :: u8
  gp_ip_sum :: u16
  gp_ip_src :: u32
  gp_ip_dst :: u32
  uh_sport :: u16
  uh_dport :: u16
  uh_ulen :: u16
  uh_sum :: u16
  dst_ip_anno :: u32

record flow_t =
  flow_packet :: gen_packet
  flow_count :: nat

text \<open>
  What surrounds the element: whether \<open>Packet::make\<close> succeeds for flow \<open>i\<close>, the results of the
  calls of \<open>click_random\<close>, of the clock and of \<open>click_jiffies\<close>, and the checksums of a packet's
  headers (with a zero checksum field).
\<close>

record gen_env =
  packet_made :: "nat \<Rightarrow> bool"
  click_random :: "nat \<Rightarrow> u32"
  time_now :: "nat \<Rightarrow> nat"
  click_jiffies :: "nat \<Rightarrow> nat"
  ip_cksum :: "gen_packet \<Rightarrow> u16"
  udp_cksum :: "gen_packet \<Rightarrow> u16"

record 'g gap_ops =
  gap_new :: 'g
  need_update :: "nat \<Rightarrow> 'g \<Rightarrow> bool \<times> 'g"
  gap_advance :: "'g \<Rightarrow> 'g"
  set_rate :: "nat \<Rightarrow> 'g \<Rightarrow> 'g"
  max_rate :: nat

text \<open>\<open>index\<close> and \<open>burst_count\<close> are those of \<open>_last_flow\<close>; the last three fields count calls of the environment.\<close>

record 'g generator =
  gap :: 'g
  sent :: u32
  limit :: u32
  active :: bool
  stop :: bool
  rate_limited :: bool
  len :: u32
  ethh_dhost :: "u8 list"
  ethh_shost :: "u8 list"
  ethh_type :: u16
  nflows :: nat
  ipcount :: nat
  flowsize :: nat
  flowburst :: u32
  use_cksum :: bool
  sequential :: bool
  seq_ports :: bool
  sportstart :: u16
  dport :: u16
  first_jiffies :: nat
  last_jiffies :: nat
  index :: u32
  burst_count :: u32
  flows :: "flow_t list option"
  randoms :: nat
  ticks :: nat
  driver_stopped :: bool

definition NO_LIMIT :: u32 where "NO_LIMIT = 0xFFFFFFFF"

subsection \<open>Configuration\<close>

text \<open>The values \<open>Args\<close> reads; \<open>complete\<close> is what \<open>complete()\<close> returns.\<close>

record gen_args =
  RATE :: nat
  LIMIT :: int
  LENGTH_ARG :: int
  SRCETH :: "u8 list"
  DSTETH :: "u8 list"
  FLOWS :: nat
  FLOWSIZE :: nat
  IPCOUNT :: nat
  FLOWBURST :: u32
  CHECKSUM :: bool
  SEQUENTIAL :: bool
  ACTIVE :: bool
  STOP :: bool
  SEQ_PORTS :: bool
  SPORTSTART :: u16
  DPORT :: u16
  complete :: int

definition set_length :: "u32 \<Rightarrow> 'g generator \<Rightarrow> 'g generator" where
  "set_length n g = g\<lparr>len := if n < 60 then 60 else n\<rparr>"

definition limit_of :: "int \<Rightarrow> u32" where
  "limit_of l = (if l \<ge> 0 then of_int l else NO_LIMIT)"

definition gen_configure :: "'g gap_ops \<Rightarrow> gen_args \<Rightarrow> 'g generator outcome" where
  "gen_configure G a = (if complete a < 0 then Inl (ReturnError (-1))
     else Inr (set_length (of_int (LENGTH_ARG a))
       (\<lparr>gap = (if RATE a \<noteq> 0 then set_rate G (RATE a) (gap_new G) else gap_new G), sent = 0, limit = limit_of (LIMIT a),
        active = ACTIVE a, stop = STOP a, rate_limited = (RATE a \<noteq> 0), len = 0,
        ethh_dhost = DSTETH a, ethh_shost = SRCETH a, ethh_type = htons 0x0800,
        nflows = FLOWS a, ipcount = IPCOUNT a, flowsize = FLOWSIZE a, flowburst = FLOWBURST a, use_cksum = CHECKSUM a,
        sequential = SEQUENTIAL a, seq_ports = SEQ_PORTS a, sportstart = SPORTSTART a, dport = DPORT a,
        first_jiffies = 0, last_jiffies = 0, index = 0, burst_count = 1, flows = None, randoms = 0, ticks = 0,
        driver_stopped = False\<rparr>)))"

subsection \<open>The packets of the flows\<close>

text \<open>\<open>(x & 0xFF00) >> 8 | (x & 0x00FF) << 8\<close> is the exchange of the two bytes.\<close>

definition with_udp_sum :: "gen_env \<Rightarrow> bool \<Rightarrow> gen_packet \<Rightarrow> gen_packet" where
  "with_udp_sum E ck p = (let p0 = p\<lparr>uh_sum := 0\<rparr> in if ck then p0\<lparr>uh_sum := udp_cksum E p0\<rparr> else p0)"

definition random_port :: "u32 \<Rightarrow> u16" where
  "random_port r = of_nat ((unat r div 4) mod 0xFFFF)"

definition flow_packet_of :: "gen_env \<Rightarrow> 'g generator \<Rightarrow> nat \<Rightarrow> nat \<Rightarrow> gen_packet" where
  "flow_packet_of E g k i = (let
       saddr = click_random E k; daddr = of_nat (unat (click_random E (Suc k)) mod ipcount g);
       p = \<lparr>pk_len = len g, eth_dhost = ethh_dhost g, eth_shost = ethh_shost g, eth_type = ethh_type g,
            gp_ip_v = 4, gp_ip_hl = 5, gp_ip_tos = 0, gp_ip_len = htons (ucast (len g - 14)), gp_ip_id = 0, gp_ip_off = 0, gp_ip_ttl = 250,
            gp_ip_p = 17, gp_ip_sum = 0, gp_ip_src = saddr, gp_ip_dst = daddr,
            uh_sport = (if seq_ports g then htons (sportstart g + of_nat i) else random_port (click_random E (k + 2))),
            uh_dport = (if seq_ports g then htons (dport g) else random_port (click_random E (k + 3))),
            uh_ulen = htons (ucast (len g - 34)), uh_sum = 0, dst_ip_anno = daddr\<rparr>
     in with_udp_sum E (use_cksum g) (p\<lparr>gp_ip_sum := ip_cksum E p\<rparr>))"

text \<open>One pass of the loop of \<open>initialize\<close> takes two random numbers, and two more for random ports.\<close>

definition init_flow :: "gen_env \<Rightarrow> nat \<Rightarrow> 'g generator \<times> flow_t list \<Rightarrow> ('g generator \<times> flow_t list) outcome" where
  "init_flow E i = (\<lambda>(g, fs).
     if \<not> packet_made E i then Inl (ReturnError (-1))
     else if ipcount g = 0 then Inl DivisionByZero
     else Inr (g\<lparr>randoms := randoms g + (if seq_ports g then 2 else 4)\<rparr>,
       fs @ [\<lparr>flow_packet = flow_packet_of E g (randoms g) i, flow_count = 0\<rparr>]))"

definition gen_initialize :: "gen_env \<Rightarrow> 'g generator \<Rightarrow> 'g generator outcome" where
  "gen_initialize E g = outcome_bind (outcome_fold (init_flow E) [0..<nflows g] (g\<lparr>sent := 0\<rparr>, []))
     (\<lambda>(g, fs). Inr (g\<lparr>flows := Some fs\<rparr>))"

subsection \<open>Handing out packets\<close>

text \<open>\<open>(_sequential ? port + 1 : click_random() >> 2) % 0xFFFF\<close>\<close>

definition next_port :: "bool \<Rightarrow> u32 \<Rightarrow> u16 \<Rightarrow> u16" where
  "next_port sq r p = (if sq then of_nat ((unat p + 1) mod 0xFFFF) else random_port r)"

definition change_ports :: "gen_env \<Rightarrow> nat \<Rightarrow> flow_t list \<Rightarrow> 'g generator \<Rightarrow> flow_t list \<times> 'g generator" where
  "change_ports E i fs g = (let p = flow_packet (fs ! i);
       p' = with_udp_sum E (use_cksum g) (p\<lparr>uh_sport := next_port (sequential g) (click_random E (randoms g)) (uh_sport p),
              uh_dport := next_port (sequential g) (click_random E (Suc (randoms g))) (uh_dport p)\<rparr>)
     in (fs[i := (fs ! i)\<lparr>flow_packet := p'\<rparr>], if sequential g then g else g\<lparr>randoms := randoms g + 2\<rparr>))"

text \<open>The choice of the flow.\<close>

definition next_flow :: "gen_env \<Rightarrow> 'g generator \<Rightarrow> nat \<times> 'g generator" where
  "next_flow E g =
     (if burst_count g < flowburst g then (unat (index g) mod nflows g, g\<lparr>burst_count := burst_count g + 1\<rparr>)
      else if sequential g then (unat (index g) mod nflows g, g\<lparr>index := index g + 1, burst_count := 1\<rparr>)
      else ((unat (click_random E (randoms g)) div 4) mod nflows g, g\<lparr>randoms := Suc (randoms g), burst_count := 1\<rparr>))"

definition take_from_flow :: "gen_env \<Rightarrow> nat \<Rightarrow> flow_t list \<Rightarrow> 'g generator \<Rightarrow> gen_packet \<times> 'g generator" where
  "take_from_flow E i fs g = (let
       (fs1, g1) = (if flow_count (fs ! i) \<ge> flowsize g
          then let (fs', g') = change_ports E i fs g in (fs'[i := (fs' ! i)\<lparr>flow_count := 0\<rparr>], g') else (fs, g));
       fs2 = fs1[i := (fs1 ! i)\<lparr>flow_count := Suc (flow_count (fs1 ! i))\<rparr>]
     in (flow_packet (fs2 ! i), g1\<lparr>flows := Some fs2\<rparr>))"

definition get_packet :: "gen_env \<Rightarrow> 'g generator \<Rightarrow> (gen_packet \<times> 'g generator) outcome" where
  "get_packet E g = (if nflows g = 0 then Inl DivisionByZero
     else case flows g of None \<Rightarrow> Inl NullPointer
     | Some fs \<Rightarrow> let (i, g1) = next_flow E g in check_index i fs (Inr (take_from_flow E i fs g1)))"

text \<open>\<open>pull\<close>: the \<open>ticks\<close> advance with every call, each reads the clock of its own tick.\<close>

definition limit_reached :: "'g generator \<Rightarrow> bool" where
  "limit_reached g \<longleftrightarrow> limit g \<noteq> NO_LIMIT \<and> sent g \<ge> limit g"

definition count_sent :: "nat \<Rightarrow> 'g generator \<Rightarrow> 'g generator" where
  "count_sent j g = (let
       g1 = g\<lparr>sent := sent g + 1\<rparr>;
       g2 = (if sent g1 = 1 then g1\<lparr>first_jiffies := j\<rparr> else g1)
     in if limit_reached g2 then g2\<lparr>last_jiffies := j, driver_stopped := driver_stopped g2 \<or> stop g2\<rparr> else g2)"

definition gen_pull :: "gen_env \<Rightarrow> 'g gap_ops \<Rightarrow> 'g generator \<Rightarrow> (gen_packet option \<times> 'g generator) outcome" where
  "gen_pull E G g = (let g0 = g\<lparr>ticks := Suc (ticks g)\<rparr>; t = ticks g in
     if \<not> active g \<or> limit_reached g then Inr (None, g0)
     else let (due, g1) = (if rate_limited g
                then let (b, r) = need_update G (time_now E t) (gap g) in (b, g0\<lparr>gap := if b then gap_advance G r else r\<rparr>)
                else (True, g0))
       in if due then outcome_bind (get_packet E g1) (\<lambda>(p, g2). Inr (Some p, count_sent (click_jiffies E t) g2))
          else Inr (None, g1))"

text \<open>\<open>MAKE_BATCH\<close>: pull until there is no packet or \<open>max\<close> of them.\<close>

fun pull_batch :: "gen_env \<Rightarrow> 'g gap_ops \<Rightarrow> nat \<Rightarrow> 'g generator \<Rightarrow> (gen_packet list \<times> 'g generator) outcome" where
  "pull_batch E G 0 g = Inr ([], g)"
| "pull_batch E G (Suc n) g = outcome_bind (gen_pull E G g) (\<lambda>(p, g'). case p of None \<Rightarrow> Inr ([], g')
     | Some x \<Rightarrow> outcome_bind (pull_batch E G n g') (\<lambda>(xs, g''). Inr (x # xs, g'')))"

text \<open>\<open>run_task\<close>: the batch that is pushed, and whether the task asks to run again at once.\<close>

definition gen_run_task :: "gen_env \<Rightarrow> 'g gap_ops \<Rightarrow> bool \<Rightarrow> 'g generator \<Rightarrow> (bool \<times> gen_packet list \<times> 'g generator) outcome" where
  "gen_run_task E G in_batch_mode g =
     outcome_bind (pull_batch E G (if in_batch_mode then 32 else 1) g) (\<lambda>(ps, g'). Inr (ps \<noteq> [], ps, g'))"

subsection \<open>Handlers\<close>

definition gen_reset :: "'g generator \<Rightarrow> 'g generator" where
  "gen_reset g = g\<lparr>sent := 0, first_jiffies := 0, last_jiffies := 0\<rparr>"

text \<open>The argument of a write handler is \<open>None\<close> when it does not parse.\<close>

definition limit_write :: "int option \<Rightarrow> 'g generator \<Rightarrow> 'g generator outcome" where
  "limit_write s g = (case s of None \<Rightarrow> Inl (ReturnError (-1)) | Some l \<Rightarrow> Inr (g\<lparr>limit := limit_of l\<rparr>))"

definition rate_write :: "'g gap_ops \<Rightarrow> nat option \<Rightarrow> 'g generator \<Rightarrow> 'g generator outcome" where
  "rate_write G s g = (case s of None \<Rightarrow> Inl (ReturnError (-1))
     | Some r \<Rightarrow> if r > max_rate G then Inl (ReturnError (-1)) else Inr (g\<lparr>gap := set_rate G r (gap g)\<rparr>))"

definition active_write :: "bool option \<Rightarrow> 'g generator \<Rightarrow> 'g generator outcome" where
  "active_write s g = (case s of None \<Rightarrow> Inl (ReturnError (-1))
     | Some b \<Rightarrow> Inr (if b then gen_reset (g\<lparr>active := b\<rparr>) else g\<lparr>active := b\<rparr>))"

definition cleanup_flows :: "'g generator \<Rightarrow> 'g generator" where
  "cleanup_flows g = g\<lparr>flows := None\<rparr>"

text \<open>\<open>initialize(0)\<close> would report an error through the null error handler.\<close>

definition length_write :: "gen_env \<Rightarrow> u32 option \<Rightarrow> 'g generator \<Rightarrow> 'g generator outcome" where
  "length_write E s g = (case s of None \<Rightarrow> Inl (ReturnError (-1))
     | Some n \<Rightarrow> if n = len g then Inr g
         else (case gen_initialize E (cleanup_flows (set_length n g)) of
             Inl e \<Rightarrow> Inl (if e = ReturnError (-1) then NullPointer else e) | Inr g' \<Rightarrow> Inr g'))"

definition eth_write :: "bool \<Rightarrow> u8 list option \<Rightarrow> 'g generator \<Rightarrow> 'g generator outcome" where
  "eth_write dst s g = (case s of None \<Rightarrow> Inl (ReturnError (-1))
     | Some a \<Rightarrow> let g1 = (if dst then g\<lparr>ethh_dhost := a\<rparr> else g\<lparr>ethh_shost := a\<rparr>) in
         Inr (g1\<lparr>flows := map_option (map (\<lambda>f. f\<lparr>flow_packet := (flow_packet f)
           \<lparr>eth_dhost := ethh_dhost g1, eth_shost := ethh_shost g1\<rparr>\<rparr>)) (flows g1)\<rparr>))"

text \<open>The \<open>rate\<close> handler: unsigned arithmetic, with \<open>hz = CLICK_HZ\<close>.\<close>

definition rate_read :: "u32 \<Rightarrow> 'g generator \<Rightarrow> u32" where
  "rate_read hz g = (if last_jiffies g = 0 then 0
     else let d = int (last_jiffies g) - int (first_jiffies g) in (sent g * hz) div of_int (if d < 1 then 1 else d))"

subsection \<open>What one packet does\<close>

text \<open>The ports of a flow are changed; sequentially, this does not depend on the random numbers.\<close>

definition advance :: "gen_env \<Rightarrow> bool \<Rightarrow> bool \<Rightarrow> nat \<Rightarrow> gen_packet \<Rightarrow> gen_packet" where
  "advance E ck sq r p = with_udp_sum E ck (p\<lparr>uh_sport := next_port sq (click_random E r) (uh_sport p),
     uh_dport := next_port sq (click_random E (Suc r)) (uh_dport p)\<rparr>)"

definition flow_step :: "nat \<Rightarrow> (gen_packet \<Rightarrow> gen_packet) \<Rightarrow> flow_t \<Rightarrow> flow_t" where
  "flow_step F adv f = (if F \<le> flow_count f then f\<lparr>flow_packet := adv (flow_packet f), flow_count := 1\<rparr>
     else f\<lparr>flow_count := Suc (flow_count f)\<rparr>)"

lemma take_from_flow_step:
  assumes "i < length fs"
  shows "\<exists>r. take_from_flow E i fs g = (flow_packet (flow_step (flowsize g) (advance E (use_cksum g) (sequential g) (randoms g)) (fs ! i)),
    g\<lparr>randoms := r, flows := Some (fs[i := flow_step (flowsize g) (advance E (use_cksum g) (sequential g) (randoms g)) (fs ! i)])\<rparr>)"
proof (cases "flowsize g \<le> flow_count (fs ! i)")
  case True
  then show ?thesis using assms
    by (auto simp: take_from_flow_def change_ports_def Let_def flow_step_def advance_def intro!: exI [of _ "if sequential g then randoms g else randoms g + 2"])
next
  case False
  then show ?thesis using assms
    by (auto simp: take_from_flow_def Let_def flow_step_def intro!: exI [of _ "randoms g"])
qed

text \<open>The flows are there, one for each index.\<close>

definition gen_ok :: "'g generator \<Rightarrow> bool" where
  "gen_ok g \<longleftrightarrow> 0 < nflows g \<and> (\<exists>fs. flows g = Some fs \<and> length fs = nflows g)"

text \<open>What no packet changes.\<close>

definition same_setup :: "'g generator \<Rightarrow> 'g generator \<Rightarrow> bool" where
  "same_setup g g' \<longleftrightarrow> limit g' = limit g \<and> active g' = active g \<and> stop g' = stop g \<and> rate_limited g' = rate_limited g
     \<and> nflows g' = nflows g \<and> flowsize g' = flowsize g \<and> flowburst g' = flowburst g \<and> use_cksum g' = use_cksum g
     \<and> sequential g' = sequential g"

lemma same_setup_refl: "same_setup g g"
  by (simp add: same_setup_def)

lemma same_setup_trans: "same_setup a b \<Longrightarrow> same_setup b c \<Longrightarrow> same_setup a c"
  by (simp add: same_setup_def)

lemma next_flow_frame:
  assumes "next_flow E g = (i, g')"
  shows "same_setup g g'" "flows g' = flows g" "sent g' = sent g" "driver_stopped g' = driver_stopped g" "0 < nflows g \<Longrightarrow> i < nflows g"
  using assms by (auto simp: next_flow_def same_setup_def split: if_splits)

lemma get_packet_ok:
  assumes "gen_ok g"
  shows "\<exists>i g1 fs p g'. next_flow E g = (i, g1) \<and> i < nflows g \<and> flows g = Some fs \<and> length fs = nflows g
    \<and> p = flow_packet (flow_step (flowsize g) (advance E (use_cksum g) (sequential g) (randoms g1)) (fs ! i))
    \<and> get_packet E g = Inr (p, g')
    \<and> flows g' = Some (fs[i := flow_step (flowsize g) (advance E (use_cksum g) (sequential g) (randoms g1)) (fs ! i)])
    \<and> index g' = index g1 \<and> burst_count g' = burst_count g1
    \<and> gen_ok g' \<and> same_setup g g' \<and> sent g' = sent g \<and> driver_stopped g' = driver_stopped g"
proof -
  obtain fs where fs: "flows g = Some fs" "length fs = nflows g" "0 < nflows g" using assms by (auto simp: gen_ok_def)
  obtain i g1 where n: "next_flow E g = (i, g1)" by (cases "next_flow E g")
  note f = next_flow_frame [OF n]
  have i: "i < length fs" using f(5) fs by simp
  from take_from_flow_step [OF i, of E g1] obtain r where
    t: "take_from_flow E i fs g1 = (flow_packet (flow_step (flowsize g1) (advance E (use_cksum g1) (sequential g1) (randoms g1)) (fs ! i)),
    g1\<lparr>randoms := r, flows := Some (fs[i := flow_step (flowsize g1) (advance E (use_cksum g1) (sequential g1) (randoms g1)) (fs ! i)])\<rparr>)" by blast
  show ?thesis
    using fs i n t f by (intro exI [of _ i] exI [of _ g1] exI [of _ fs]) (simp add: get_packet_def same_setup_def gen_ok_def)
qed

subsection \<open>What one call of \<open>pull\<close> does\<close>

lemma count_sent_frame:
  "same_setup g (count_sent j g)" "flows (count_sent j g) = flows g" "sent (count_sent j g) = sent g + 1"
  "index (count_sent j g) = index g" "burst_count (count_sent j g) = burst_count g"
  "driver_stopped (count_sent j g) \<longleftrightarrow> driver_stopped g \<or> stop g \<and> limit g \<noteq> NO_LIMIT \<and> limit g \<le> sent g + 1"
  by (auto simp: count_sent_def Let_def same_setup_def limit_reached_def)

text \<open>A pull that hands out nothing changes the clock and the rate only.\<close>

lemma gen_pull_cases:
  assumes "gen_ok g"
  obtains (none) g' where "gen_pull E G g = Inr (None, g')" "\<not> active g \<or> limit_reached g \<or> rate_limited g"
      "same_setup g g'" "sent g' = sent g" "driver_stopped g' = driver_stopped g" "gen_ok g'"
  | (packet) g1 p g2 where "gen_pull E G g = Inr (Some p, count_sent (click_jiffies E (ticks g)) g2)" "active g" "\<not> limit_reached g"
      "get_packet E g1 = Inr (p, g2)" "same_setup g g1" "sent g1 = sent g" "driver_stopped g1 = driver_stopped g" "gen_ok g1"
      "flows g1 = flows g" "index g1 = index g" "burst_count g1 = burst_count g"
proof -
  let ?g0 = "g\<lparr>ticks := Suc (ticks g)\<rparr>"
  consider (closed) "\<not> active g \<or> limit_reached g" | (free) "active g" "\<not> limit_reached g" "\<not> rate_limited g"
    | (limited) "active g" "\<not> limit_reached g" "rate_limited g" by blast
  then show thesis
  proof cases
    case closed
    have "gen_pull E G g = Inr (None, ?g0)" using closed by (simp add: gen_pull_def)
    then show thesis using closed assms by (intro none [of ?g0]) (auto simp: same_setup_def gen_ok_def)
  next
    case free
    have ok: "gen_ok ?g0" using assms by (simp add: gen_ok_def)
    obtain p g2 where p: "get_packet E ?g0 = Inr (p, g2)" using get_packet_ok [OF ok] by blast
    have "gen_pull E G g = Inr (Some p, count_sent (click_jiffies E (ticks g)) g2)" using free p by (simp add: gen_pull_def)
    then show thesis using free p ok by (intro packet [of p g2 ?g0]) (auto simp: same_setup_def)
  next
    case limited
    obtain b r where n: "need_update G (time_now E (ticks g)) (gap g) = (b, r)" by (cases "need_update G (time_now E (ticks g)) (gap g)")
    let ?g1 = "?g0\<lparr>gap := if b then gap_advance G r else r\<rparr>"
    have ok: "gen_ok ?g1" using assms by (simp add: gen_ok_def)
    obtain p g2 where p: "get_packet E ?g1 = Inr (p, g2)" using get_packet_ok [OF ok] by blast
    show thesis
    proof (cases b)
      case True
      then have "gen_pull E G g = Inr (Some p, count_sent (click_jiffies E (ticks g)) g2)" using limited p n by (simp add: gen_pull_def)
      then show thesis using limited p ok by (intro packet [of p g2 ?g1]) (auto simp: same_setup_def)
    next
      case False
      then have "gen_pull E G g = Inr (None, ?g1)" using limited n by (simp add: gen_pull_def)
      then show thesis using limited ok by (intro none [of ?g1]) (auto simp: same_setup_def)
    qed
  qed
qed

subsection \<open>The limit\<close>

fun pull_batches :: "gen_env \<Rightarrow> 'g gap_ops \<Rightarrow> nat list \<Rightarrow> 'g generator \<Rightarrow> (gen_packet list \<times> 'g generator) outcome" where
  "pull_batches E G [] g = Inr ([], g)"
| "pull_batches E G (k # ks) g = outcome_bind (pull_batch E G k g) (\<lambda>(xs, g').
     outcome_bind (pull_batches E G ks g') (\<lambda>(ys, g''). Inr (xs @ ys, g'')))"

text \<open>Between \<open>g\<close> and \<open>g'\<close>, \<open>n\<close> packets were sent within the limit.\<close>

definition sent_between :: "'g generator \<Rightarrow> nat \<Rightarrow> 'g generator \<Rightarrow> bool" where
  "sent_between g n g' \<longleftrightarrow> gen_ok g' \<and> same_setup g g' \<and> unat (sent g') = unat (sent g) + n \<and> sent g' \<le> limit g
     \<and> (driver_stopped g' \<longleftrightarrow> driver_stopped g \<or> stop g \<and> 0 < n \<and> sent g' = limit g)"

lemma sent_between_trans:
  assumes "sent_between a m b" and "sent_between b n c"
  shows "sent_between a (m + n) c"
proof -
  have b: "limit b = limit a" "stop b = stop a" "sent b \<le> limit a" "unat (sent b) = unat (sent a) + m" using assms(1) by (simp_all add: sent_between_def same_setup_def)
  have c: "sent c \<le> limit a" "unat (sent c) = unat (sent b) + n" using assms(2) b(1) by (simp_all add: sent_between_def)
  have "n = 0 \<Longrightarrow> sent c = sent b" using c(2) by (simp add: word_unat_eq_iff)
  moreover have "sent b = limit a \<Longrightarrow> n = 0" using c by (simp add: word_le_nat_alt)
  ultimately have "n = 0 \<and> sent c = sent b \<or> 0 < n \<and> sent b \<noteq> limit a" by (cases "n = 0") auto
  then have "driver_stopped c \<longleftrightarrow> driver_stopped a \<or> stop a \<and> 0 < m + n \<and> sent c = limit a"
    using assms b(1,2) unfolding sent_between_def by (elim disjE) auto
  moreover have "same_setup a c" using assms same_setup_trans by (auto simp: sent_between_def)
  ultimately show ?thesis using assms(2) b(4) c by (simp add: sent_between_def)
qed

lemma sent_between_0: "sent_between a 0 b \<longleftrightarrow> gen_ok b \<and> same_setup a b \<and> sent b = sent a \<and> sent b \<le> limit a \<and> driver_stopped b = driver_stopped a"
  by (auto simp: sent_between_def word_unat_eq_iff)

lemma pull_sends:
  assumes "gen_ok g" and "limit g \<noteq> NO_LIMIT" and "sent g \<le> limit g"
  shows "\<exists>p g'. gen_pull E G g = Inr (p, g') \<and> sent_between g (case p of None \<Rightarrow> 0 | Some _ \<Rightarrow> 1) g'
    \<and> (active g \<and> \<not> rate_limited g \<longrightarrow> (p = None \<longleftrightarrow> sent g = limit g))"
  using assms(1)
proof (cases rule: gen_pull_cases [where E = E and G = G])
  case (none g')
  then have "sent_between g 0 g'" using assms(3) by (simp add: sent_between_0)
  then show ?thesis using none(1,2) assms(3) by (intro exI [of _ None] exI [of _ g']) (auto simp: limit_reached_def)
next
  case (packet g1 p g2)
  have less: "sent g < limit g" using packet(3) assms(2) by (simp add: limit_reached_def)
  then have "unat (sent g) < unat (limit g)" by (simp add: word_less_nat_alt)
  moreover have "unat (limit g) < 2 ^ 32" using unsigned_less [of "limit g"] by simp
  ultimately have suc: "unat (sent g + 1) = unat (sent g) + 1" by (simp add: unat_word_ariths)
  then have le: "sent g + 1 \<le> limit g" using less by (simp add: word_less_nat_alt word_le_nat_alt)
  obtain i ga fs where g2: "gen_ok g2" "same_setup g1 g2" "sent g2 = sent g1" "driver_stopped g2 = driver_stopped g1"
    using get_packet_ok [OF packet(8), of E] packet(4) by auto
  have su: "same_setup g g2" using packet(5) g2(2) same_setup_trans by blast
  let ?g = "count_sent (click_jiffies E (ticks g)) g2"
  have "sent_between g 1 ?g" unfolding sent_between_def
    using count_sent_frame [where g = g2 and j = "click_jiffies E (ticks g)"] g2 su packet(6,7) suc le assms(2)
    by (auto simp: gen_ok_def same_setup_def)
  then show ?thesis using packet(1) less by (intro exI [of _ "Some p"] exI [of _ ?g]) auto
qed

lemma pull_batch_sends:
  assumes "gen_ok g" and "limit g \<noteq> NO_LIMIT" and "sent g \<le> limit g"
  shows "\<exists>ps g'. pull_batch E G n g = Inr (ps, g') \<and> sent_between g (length ps) g' \<and> length ps \<le> n
    \<and> (active g \<and> \<not> rate_limited g \<longrightarrow> length ps = min n (unat (limit g) - unat (sent g)))"
  using assms
proof (induction n arbitrary: g)
  case 0
  then show ?case by (simp add: sent_between_0 same_setup_refl)
next
  case (Suc n)
  from pull_sends [OF Suc.prems] obtain p g1 where 1: "gen_pull E G g = Inr (p, g1)"
    "sent_between g (case p of None \<Rightarrow> 0 | Some _ \<Rightarrow> 1) g1" "active g \<and> \<not> rate_limited g \<longrightarrow> (p = None \<longleftrightarrow> sent g = limit g)" by blast
  show ?case
  proof (cases p)
    case None
    then show ?thesis using 1 by (intro exI [of _ "[]"] exI [of _ g1]) auto
  next
    case (Some x)
    have g1: "gen_ok g1" "limit g1 \<noteq> NO_LIMIT" "sent g1 \<le> limit g1" "unat (sent g1) = Suc (unat (sent g))" "limit g1 = limit g"
      "active g1 = active g" "rate_limited g1 = rate_limited g"
      using 1(2) Some Suc.prems by (auto simp: sent_between_def same_setup_def)
    from Suc.IH [OF g1(1-3)] obtain ps g2 where 2: "pull_batch E G n g1 = Inr (ps, g2)" "sent_between g1 (length ps) g2" "length ps \<le> n"
      "active g1 \<and> \<not> rate_limited g1 \<longrightarrow> length ps = min n (unat (limit g1) - unat (sent g1))" by blast
    have "sent_between g (length (x # ps)) g2" using sent_between_trans [OF 1(2) 2(2)] Some by simp
    moreover have "unat (sent g1) \<le> unat (limit g)" using g1(3,5) by (simp add: word_le_nat_alt)
    ultimately show ?thesis using 1(1) Some 2 g1 by (intro exI [of _ "x # ps"] exI [of _ g2]) auto
  qed
qed

lemma min_split: "min k (l - s) + min n (l - (s + min k (l - s))) = min (k + n) (l - (s :: nat))"
proof -
  have "min k x + min n (x - min k x) = min (k + n) x" for x :: nat
    by (cases "k \<le> x") (auto simp: min_def)
  from this [of "l - s"] show ?thesis by simp
qed

lemma pull_batches_sends:
  assumes "gen_ok g" and "limit g \<noteq> NO_LIMIT" and "sent g \<le> limit g"
  shows "\<exists>ps g'. pull_batches E G ks g = Inr (ps, g') \<and> sent_between g (length ps) g' \<and> length ps \<le> sum_list ks
    \<and> (active g \<and> \<not> rate_limited g \<longrightarrow> length ps = min (sum_list ks) (unat (limit g) - unat (sent g)))"
  using assms
proof (induction ks arbitrary: g)
  case Nil
  then show ?case by (simp add: sent_between_0 same_setup_refl)
next
  case (Cons k ks)
  from pull_batch_sends [OF Cons.prems] obtain xs g1 where 1: "pull_batch E G k g = Inr (xs, g1)" "sent_between g (length xs) g1" "length xs \<le> k"
    "active g \<and> \<not> rate_limited g \<longrightarrow> length xs = min k (unat (limit g) - unat (sent g))" by blast
  have g1: "gen_ok g1" "limit g1 \<noteq> NO_LIMIT" "sent g1 \<le> limit g1" "unat (sent g1) = unat (sent g) + length xs" "limit g1 = limit g"
    "active g1 = active g" "rate_limited g1 = rate_limited g"
    using 1(2) Cons.prems by (auto simp: sent_between_def same_setup_def)
  from Cons.IH [OF g1(1-3)] obtain ys g2 where 2: "pull_batches E G ks g1 = Inr (ys, g2)" "sent_between g1 (length ys) g2"
    "length ys \<le> sum_list ks" "active g1 \<and> \<not> rate_limited g1 \<longrightarrow> length ys = min (sum_list ks) (unat (limit g1) - unat (sent g1))" by blast
  have "sent_between g (length (xs @ ys)) g2" using sent_between_trans [OF 1(2) 2(2)] by simp
  moreover have "pull_batches E G (k # ks) g = Inr (xs @ ys, g2)" using 1(1) 2(1) by simp
  moreover have "length (xs @ ys) \<le> sum_list (k # ks)" using 1(3) 2(3) by simp
  moreover have "length (xs @ ys) = min (sum_list (k # ks)) (unat (limit g) - unat (sent g))" if a: "active g \<and> \<not> rate_limited g"
  proof -
    have "length xs = min k (unat (limit g) - unat (sent g))" "length ys = min (sum_list ks) (unat (limit g) - (unat (sent g) + length xs))"
      using a 1(4) 2(4) g1(4-7) by simp_all
    then show ?thesis by (simp add: min_split)
  qed
  ultimately show ?case by blast
qed

subsection \<open>Start-up\<close>

text \<open>What \<open>initialize\<close> makes of the flows.\<close>

lemma init_flows_ok:
  assumes "\<forall>i<n. packet_made E i" and "0 < ipcount g"
  shows "outcome_fold (init_flow E) [0..<n] (g, []) = Inr (g\<lparr>randoms := randoms g + n * (if seq_ports g then 2 else 4)\<rparr>,
    map (\<lambda>i. \<lparr>flow_packet = flow_packet_of E g (randoms g + i * (if seq_ports g then 2 else 4)) i, flow_count = 0\<rparr>) [0..<n])"
  using assms(1)
proof (induction n)
  case (Suc n)
  let ?d = "if seq_ports g then 2 else 4 :: nat"
  let ?f = "\<lambda>i. \<lparr>flow_packet = flow_packet_of E g (randoms g + i * ?d) i, flow_count = 0\<rparr>"
  have cong: "flow_packet_of E (g\<lparr>randoms := r\<rparr>) k i = flow_packet_of E g k i" for r k i
    by (simp add: flow_packet_of_def Let_def)
  have "init_flow E n (g\<lparr>randoms := randoms g + n * ?d\<rparr>, map ?f [0..<n]) = Inr (g\<lparr>randoms := randoms g + Suc n * ?d\<rparr>, map ?f [0..<n] @ [?f n])"
    using Suc.prems assms(2) by (simp add: init_flow_def cong)
  then show ?case using Suc by (simp add: outcome_fold_append)
qed simp

lemma gen_initialize_ok:
  assumes "\<forall>i<nflows g. packet_made E i" and "0 < ipcount g"
  shows "gen_initialize E g = Inr (g\<lparr>sent := 0, randoms := randoms g + nflows g * (if seq_ports g then 2 else 4),
    flows := Some (map (\<lambda>i. \<lparr>flow_packet = flow_packet_of E g (randoms g + i * (if seq_ports g then 2 else 4)) i, flow_count = 0\<rparr>) [0..<nflows g])\<rparr>)"
proof -
  have cong: "flow_packet_of E (g\<lparr>sent := 0\<rparr>) k i = flow_packet_of E g k i" for k i
    by (simp add: flow_packet_of_def Let_def)
  show ?thesis using init_flows_ok [of "nflows g" E "g\<lparr>sent := 0\<rparr>"] assms by (simp add: gen_initialize_def cong)
qed

lemma gen_start:
  assumes "gen_configure G a = Inr g0" and "\<forall>i<FLOWS a. packet_made E i" and "0 < FLOWS a" and "0 < IPCOUNT a"
  obtains g fs where "gen_initialize E g0 = Inr g" and "gen_ok g" and "sent g = 0" and "driver_stopped g = False" and "index g = 0" and "burst_count g = 1"
    and "limit g = limit_of (LIMIT a)" and "active g = ACTIVE a" and "stop g = STOP a" and "rate_limited g = (RATE a \<noteq> 0)" and "nflows g = FLOWS a"
    and "sequential g = SEQUENTIAL a" and "flowsize g = FLOWSIZE a" and "flowburst g = FLOWBURST a" and "use_cksum g = CHECKSUM a"
    and "flows g = Some fs" and "length fs = FLOWS a"
    and "\<forall>i<FLOWS a. fs ! i = \<lparr>flow_packet = flow_packet_of E g0 (i * (if SEQ_PORTS a then 2 else 4)) i, flow_count = 0\<rparr>"
proof -
  have g0: "nflows g0 = FLOWS a" "ipcount g0 = IPCOUNT a" "randoms g0 = 0" "seq_ports g0 = SEQ_PORTS a" "driver_stopped g0 = False" "index g0 = 0"
    "burst_count g0 = 1" "limit g0 = limit_of (LIMIT a)" "active g0 = ACTIVE a" "stop g0 = STOP a" "rate_limited g0 = (RATE a \<noteq> 0)"
    "sequential g0 = SEQUENTIAL a" "flowsize g0 = FLOWSIZE a" "flowburst g0 = FLOWBURST a" "use_cksum g0 = CHECKSUM a"
    using assms(1) by (auto simp: gen_configure_def set_length_def split: if_splits)
  have "\<forall>i<nflows g0. packet_made E i" "0 < ipcount g0" using assms(2,4) g0 by simp_all
  note init = gen_initialize_ok [OF this]
  define fs where "fs = map (\<lambda>i. \<lparr>flow_packet = flow_packet_of E g0 (randoms g0 + i * (if seq_ports g0 then 2 else 4)) i, flow_count = 0\<rparr>) [0..<nflows g0]"
  have fs: "length fs = FLOWS a"
    "\<forall>i<FLOWS a. fs ! i = \<lparr>flow_packet = flow_packet_of E g0 (i * (if SEQ_PORTS a then 2 else 4)) i, flow_count = 0\<rparr>"
    using g0 by (simp_all add: fs_def)
  show thesis by (rule that [OF init [folded fs_def] _ _ _ _ _ _ _ _ _ _ _ _ _ _ _ fs]) (use g0 assms(3) fs(1) in \<open>simp_all add: gen_ok_def\<close>)
qed

text \<open>
  C37: from start-up on, whatever the batch sizes, the generator never sends more than \<open>LIMIT\<close> packets
  and counts what it sends; without a rate it sends exactly as many as are asked for up to the limit;
  with \<open>STOP\<close> it stops the driver exactly when the limit is reached.
\<close>

theorem generator_respects_limit:
  assumes "gen_configure G a = Inr g0" and "\<forall>i<FLOWS a. packet_made E i" and "0 < FLOWS a" and "0 < IPCOUNT a"
    and "0 \<le> LIMIT a" and "LIMIT a < 2 ^ 31"
  shows "\<exists>g ps g'. gen_initialize E g0 = Inr g \<and> pull_batches E G ks g = Inr (ps, g')
    \<and> length ps \<le> nat (LIMIT a) \<and> unat (sent g') = length ps
    \<and> (driver_stopped g' \<longleftrightarrow> STOP a \<and> ps \<noteq> [] \<and> length ps = nat (LIMIT a))
    \<and> (ACTIVE a \<and> RATE a = 0 \<longrightarrow> length ps = min (sum_list ks) (nat (LIMIT a)))"
proof -
  obtain g fs where g: "gen_initialize E g0 = Inr g" "gen_ok g" "sent g = 0" "driver_stopped g = False"
    "limit g = limit_of (LIMIT a)" "active g = ACTIVE a" "stop g = STOP a" "rate_limited g = (RATE a \<noteq> 0)"
    by (rule gen_start [OF assms(1-4)])
  obtain l where l: "LIMIT a = int l" "l < 2 ^ 31" using assms(5,6) by (intro that [of "nat (LIMIT a)"]) (simp_all add: nat_less_iff)
  have lim: "limit g = of_nat l" "unat (limit g) = l" using g(5) l by (simp_all add: limit_of_def unat_of_nat take_bit_eq_mod)
  have "limit g \<noteq> NO_LIMIT"
  proof
    assume "limit g = NO_LIMIT"
    then have "l = unat NO_LIMIT" using lim(2) by simp
    then show False using l(2) by (simp add: NO_LIMIT_def)
  qed
  from pull_batches_sends [OF g(2) this, of E G ks] obtain ps g' where
    p: "pull_batches E G ks g = Inr (ps, g')" "sent_between g (length ps) g'"
    "active g \<and> \<not> rate_limited g \<longrightarrow> length ps = min (sum_list ks) (unat (limit g) - unat (sent g))" using g(3) by auto
  have s: "unat (sent g') = length ps" "sent g' \<le> limit g" "driver_stopped g' \<longleftrightarrow> STOP a \<and> 0 < length ps \<and> sent g' = limit g"
    using p(2) g(3,4,7) by (auto simp: sent_between_def)
  have "length ps \<le> l" "sent g' = limit g \<longleftrightarrow> length ps = l" using s(1,2) lim(2) by (auto simp: word_le_nat_alt word_unat_eq_iff)
  then have "length ps \<le> nat (LIMIT a)" "driver_stopped g' \<longleftrightarrow> STOP a \<and> ps \<noteq> [] \<and> length ps = nat (LIMIT a)"
    using s(3) l(1) by auto
  moreover have "ACTIVE a \<and> RATE a = 0 \<longrightarrow> length ps = min (sum_list ks) (nat (LIMIT a))"
    using p(3) g(3,6,8) l(1) lim(2) by simp
  ultimately show ?thesis using g(1) p(1) s(1) by blast
qed

subsection \<open>The order of the flows\<close>

text \<open>
  Sequentially, packet \<open>k\<close> belongs to flow \<open>k div b\<close>, modulo the number of flows, with bursts of
  \<open>b\<close> packets; \<open>index\<close> is a \<open>uint32_t\<close>.
\<close>

definition burst_of :: "u32 \<Rightarrow> nat" where
  "burst_of fb = max 1 (unat fb)"

definition flow_at :: "nat \<Rightarrow> u32 \<Rightarrow> nat \<Rightarrow> nat" where
  "flow_at n fb k = (k div burst_of fb mod 2 ^ 32) mod n"

text \<open>The packets of flow \<open>i\<close> among the first \<open>k\<close>, and the flow after \<open>c\<close> packets.\<close>

definition earlier :: "nat \<Rightarrow> u32 \<Rightarrow> nat \<Rightarrow> nat \<Rightarrow> nat" where
  "earlier n fb i k = card {j. j < k \<and> flow_at n fb j = i}"

lemma earlier_Suc: "earlier n fb i (Suc k) = (if flow_at n fb k = i then Suc (earlier n fb i k) else earlier n fb i k)"
proof -
  have "{j. j < Suc k \<and> flow_at n fb j = i} = (if flow_at n fb k = i then insert k {j. j < k \<and> flow_at n fb j = i} else {j. j < k \<and> flow_at n fb j = i})"
    by (auto simp: less_Suc_eq)
  then show ?thesis by (simp add: earlier_def)
qed

definition flow_after :: "(gen_packet \<Rightarrow> gen_packet) \<Rightarrow> nat \<Rightarrow> gen_packet \<Rightarrow> nat \<Rightarrow> flow_t" where
  "flow_after adv F p c = (if c = 0 then \<lparr>flow_packet = p, flow_count = 0\<rparr>
     else \<lparr>flow_packet = (adv ^^ ((c - 1) div F)) p, flow_count = Suc ((c - 1) mod F)\<rparr>)"

lemma flow_after_Suc:
  assumes "0 < F"
  shows "flow_step F adv (flow_after adv F p c) = flow_after adv F p (Suc c)" "flow_packet (flow_after adv F p (Suc c)) = (adv ^^ (c div F)) p"
proof -
  show "flow_packet (flow_after adv F p (Suc c)) = (adv ^^ (c div F)) p" by (simp add: flow_after_def)
  show "flow_step F adv (flow_after adv F p c) = flow_after adv F p (Suc c)"
  proof (cases c)
    case 0
    then show ?thesis using assms by (simp add: flow_after_def flow_step_def)
  next
    case (Suc m)
    have d: "Suc m div F = (if Suc (m mod F) = F then Suc (m div F) else m div F)" "Suc m mod F = (if Suc (m mod F) = F then 0 else Suc (m mod F))"
      by (simp_all add: div_Suc mod_Suc)
    have "F \<le> Suc (m mod F) \<longleftrightarrow> Suc (m mod F) = F" using assms mod_less_divisor [of F m] by linarith
    then show ?thesis using Suc by (simp add: flow_after_def flow_step_def d)
  qed
qed

text \<open>The state before packet \<open>k\<close>, from the packets \<open>ps\<close> the flows had at first.\<close>

definition seq_state :: "gen_env \<Rightarrow> gen_packet list \<Rightarrow> nat \<Rightarrow> 'g generator \<Rightarrow> bool" where
  "seq_state E ps k g \<longleftrightarrow> 0 < nflows g \<and> length ps = nflows g \<and> sequential g \<and> 0 < flowsize g
     \<and> index g = of_nat (k div burst_of (flowburst g)) \<and> burst_count g = of_nat (Suc (k mod burst_of (flowburst g)))
     \<and> flows g = Some (map (\<lambda>i. flow_after (advance E (use_cksum g) True 0) (flowsize g) (ps ! i) (earlier (nflows g) (flowburst g) i k)) [0..<nflows g])"

lemma advance_seq: "advance E ck True r = advance E ck True 0"
  by (intro ext) (simp add: advance_def next_port_def)

lemma next_flow_seq:
  assumes "sequential g" and "index g = of_nat (k div burst_of (flowburst g))" and "burst_count g = of_nat (Suc (k mod burst_of (flowburst g)))"
  shows "\<exists>g1. next_flow E g = (flow_at (nflows g) (flowburst g) k, g1) \<and> index g1 = of_nat (Suc k div burst_of (flowburst g))
    \<and> burst_count g1 = of_nat (Suc (Suc k mod burst_of (flowburst g)))"
proof -
  let ?b = "burst_of (flowburst g)"
  have b: "0 < ?b" "?b < 2 ^ 32" using unsigned_less [of "flowburst g"] by (auto simp: burst_of_def)
  have mod: "Suc (k mod ?b) \<le> ?b" using b(1) by (simp add: Suc_leI)
  have fl: "unat (index g) mod nflows g = flow_at (nflows g) (flowburst g) k"
    by (simp add: assms(2) flow_at_def unat_of_nat take_bit_eq_mod)
  have bc: "unat (burst_count g) = Suc (k mod ?b)" using mod b(2) by (simp add: assms(3) unat_of_nat take_bit_eq_mod del: of_nat_Suc)
  have less: "burst_count g < flowburst g \<longleftrightarrow> Suc (k mod ?b) \<noteq> ?b"
    using bc mod unfolding word_less_nat_alt by (auto simp: burst_of_def max_def split: if_splits)
  show ?thesis
  proof (cases "Suc (k mod ?b) = ?b")
    case True
    then have "Suc k div ?b = Suc (k div ?b)" "Suc k mod ?b = 0" by (simp_all add: div_Suc mod_Suc)
    then show ?thesis using True less fl assms(1,2) by (simp add: next_flow_def)
  next
    case False
    then have "Suc k div ?b = k div ?b" "Suc k mod ?b = Suc (k mod ?b)" by (simp_all add: div_Suc mod_Suc)
    then show ?thesis using False less fl assms(2,3) by (simp add: next_flow_def)
  qed
qed

lemma next_flow_ticks: "next_flow E (g\<lparr>ticks := t\<rparr>) = (let (i, g1) = next_flow E g in (i, g1\<lparr>ticks := t\<rparr>))"
  by (simp add: next_flow_def Let_def)

lemma free_pull:
  assumes "gen_ok g" and "active g" and "\<not> rate_limited g" and "unat (sent g) < unat (limit g)"
  shows "\<exists>i g1 fs p g'. next_flow E g = (i, g1) \<and> i < nflows g \<and> flows g = Some fs
    \<and> p = flow_packet (flow_step (flowsize g) (advance E (use_cksum g) (sequential g) (randoms g1)) (fs ! i))
    \<and> gen_pull E G g = Inr (Some p, g')
    \<and> flows g' = Some (fs[i := flow_step (flowsize g) (advance E (use_cksum g) (sequential g) (randoms g1)) (fs ! i)])
    \<and> index g' = index g1 \<and> burst_count g' = burst_count g1 \<and> gen_ok g' \<and> same_setup g g' \<and> unat (sent g') = Suc (unat (sent g))"
proof -
  let ?g = "g\<lparr>ticks := Suc (ticks g)\<rparr>"
  have "gen_ok ?g" using assms(1) by (simp add: gen_ok_def)
  from get_packet_ok [OF this, of E] obtain i g1 fs p g' where
    1: "next_flow E ?g = (i, g1)" "i < nflows g" "flows g = Some fs"
    "p = flow_packet (flow_step (flowsize g) (advance E (use_cksum g) (sequential g) (randoms g1)) (fs ! i))"
    "get_packet E ?g = Inr (p, g')"
    "flows g' = Some (fs[i := flow_step (flowsize g) (advance E (use_cksum g) (sequential g) (randoms g1)) (fs ! i)])"
    "index g' = index g1" "burst_count g' = burst_count g1" "gen_ok g'" "same_setup ?g g'" "sent g' = sent g" by auto
  have "\<not> limit_reached g" using assms(4) by (auto simp: limit_reached_def word_le_nat_alt)
  then have pull: "gen_pull E G g = Inr (Some p, count_sent (click_jiffies E (ticks g)) g')"
    using assms(2,3) 1(5) by (simp add: gen_pull_def)
  obtain g2 where nx: "next_flow E g = (i, g2)" "index g2 = index g1" "burst_count g2 = burst_count g1" "randoms g2 = randoms g1"
  proof -
    obtain j g2 where j: "next_flow E g = (j, g2)" by (cases "next_flow E g")
    have "(i, g1) = (j, g2\<lparr>ticks := Suc (ticks g)\<rparr>)" using next_flow_ticks [where E = E and g = g] j 1(1) by simp
    then show thesis using that [of g2] j by simp
  qed
  have "unat (limit g) < 2 ^ 32" using unsigned_less [of "limit g"] by simp
  then have "unat (sent g) + 1 < 2 ^ 32" using assms(4) by simp
  then have "unat (sent g + 1) = Suc (unat (sent g))" by (simp add: unat_word_ariths)
  moreover have "same_setup g (count_sent (click_jiffies E (ticks g)) g')" "gen_ok (count_sent (click_jiffies E (ticks g)) g')"
    using 1(9,10) count_sent_frame(1,2) [where g = g' and j = "click_jiffies E (ticks g)"] by (simp_all add: same_setup_def gen_ok_def)
  ultimately show ?thesis using nx 1(2-4,6-8,11) pull count_sent_frame(2-5) [where g = g' and j = "click_jiffies E (ticks g)"]
    by (intro exI [of _ i] exI [of _ g2] exI [of _ fs] exI [of _ p] exI [of _ "count_sent (click_jiffies E (ticks g)) g'"]) simp
qed

lemma seq_pull:
  assumes st: "seq_state E qs k g" and "active g" and "\<not> rate_limited g" and "unat (sent g) < unat (limit g)"
  shows "\<exists>g'. gen_pull E G g = Inr (Some ((advance E (use_cksum g) True 0 ^^ (earlier (nflows g) (flowburst g) (flow_at (nflows g) (flowburst g) k) k div flowsize g))
        (qs ! flow_at (nflows g) (flowburst g) k)), g')
    \<and> seq_state E qs (Suc k) g' \<and> same_setup g g' \<and> unat (sent g') = Suc (unat (sent g))"
proof -
  let ?i = "flow_at (nflows g) (flowburst g) k" and ?adv = "advance E (use_cksum g) True 0" and ?F = "flowsize g"
  let ?fs = "\<lambda>k. map (\<lambda>i. flow_after ?adv ?F (qs ! i) (earlier (nflows g) (flowburst g) i k)) [0..<nflows g]"
  have g: "0 < nflows g" "sequential g" "0 < ?F" "flows g = Some (?fs k)" using st by (simp_all add: seq_state_def)
  then have ok: "gen_ok g" by (simp add: gen_ok_def)
  from free_pull [OF ok assms(2-4), of E G] obtain i g1 fs p g' where
    1: "next_flow E g = (i, g1)" "i < nflows g" "flows g = Some fs"
    "p = flow_packet (flow_step ?F (advance E (use_cksum g) (sequential g) (randoms g1)) (fs ! i))"
    "gen_pull E G g = Inr (Some p, g')"
    "flows g' = Some (fs[i := flow_step ?F (advance E (use_cksum g) (sequential g) (randoms g1)) (fs ! i)])"
    "index g' = index g1" "burst_count g' = burst_count g1" "same_setup g g'" "unat (sent g') = Suc (unat (sent g))" by blast
  have st': "index g = of_nat (k div burst_of (flowburst g))" "burst_count g = of_nat (Suc (k mod burst_of (flowburst g)))"
    using st by (simp_all add: seq_state_def)
  from next_flow_seq [OF g(2) st', of E] 1(1) have nx: "i = ?i"
    "index g1 = of_nat (Suc k div burst_of (flowburst g))" "burst_count g1 = of_nat (Suc (Suc k mod burst_of (flowburst g)))" by auto
  have fs: "fs = ?fs k" using 1(3) g(4) by simp
  have adv: "advance E (use_cksum g) (sequential g) (randoms g1) = ?adv" using g(2) advance_seq [of E "use_cksum g" "randoms g1"] by simp
  have fi: "flow_step ?F ?adv (fs ! i) = flow_after ?adv ?F (qs ! i) (Suc (earlier (nflows g) (flowburst g) i k))"
    using flow_after_Suc(1) [OF g(3)] 1(2) by (simp add: fs)
  have "fs[i := flow_step ?F ?adv (fs ! i)] = ?fs (Suc k)"
    unfolding fi using 1(2) nx(1) by (intro nth_equalityI) (auto simp: fs nth_list_update earlier_Suc)
  then have "seq_state E qs (Suc k) g'"
    using st 1(6-9) nx adv by (simp add: seq_state_def same_setup_def)
  moreover have "p = (?adv ^^ (earlier (nflows g) (flowburst g) ?i k div ?F)) (qs ! ?i)"
    using 1(4) fi adv flow_after_Suc(2) [OF g(3)] nx(1) by simp
  ultimately show ?thesis using 1(5,9,10) by blast
qed

lemma seq_batch:
  assumes "seq_state E qs k g" and "active g" and "\<not> rate_limited g" and "unat (sent g) + n \<le> unat (limit g)"
  shows "\<exists>g'. pull_batch E G n g = Inr (map (\<lambda>j. (advance E (use_cksum g) True 0
        ^^ (earlier (nflows g) (flowburst g) (flow_at (nflows g) (flowburst g) j) j div flowsize g)) (qs ! flow_at (nflows g) (flowburst g) j)) [k..<k + n], g')"
  using assms
proof (induction n arbitrary: k g)
  case (Suc n)
  have "unat (sent g) < unat (limit g)" using Suc.prems(4) by simp
  from seq_pull [OF Suc.prems(1-3) this, of G] obtain g1 where
    1: "gen_pull E G g = Inr (Some ((advance E (use_cksum g) True 0 ^^ (earlier (nflows g) (flowburst g) (flow_at (nflows g) (flowburst g) k) k div flowsize g))
        (qs ! flow_at (nflows g) (flowburst g) k)), g1)" "seq_state E qs (Suc k) g1" "same_setup g g1" "unat (sent g1) = Suc (unat (sent g))" by blast
  then have g1: "active g1" "\<not> rate_limited g1" "unat (sent g1) + n \<le> unat (limit g1)" "nflows g1 = nflows g" "flowburst g1 = flowburst g"
    "use_cksum g1 = use_cksum g" "flowsize g1 = flowsize g" using Suc.prems by (simp_all add: same_setup_def)
  have "[k..<k + Suc n] = k # [Suc k..<Suc k + n]" by (simp add: upt_conv_Cons)
  then show ?case using Suc.IH [OF 1(2) g1(1-3)] 1(1) by (auto simp: g1)
qed simp

text \<open>
  C38: with \<open>SEQUENTIAL\<close> and no rate, packet \<open>k\<close> is one of flow \<open>(k div b) mod n\<close>, in bursts of
  \<open>b = FLOWBURST\<close>, with the headers \<open>initialize\<close> gave the flow and its ports advanced once for each
  \<open>FLOWSIZE\<close> packets of the flow sent before.
\<close>

theorem sequential_bursts:
  assumes "gen_configure G a = Inr g0" and "\<forall>i<FLOWS a. packet_made E i" and "0 < FLOWS a" and "0 < IPCOUNT a"
    and "SEQUENTIAL a" and "RATE a = 0" and "ACTIVE a" and "0 < FLOWSIZE a" and "n \<le> unat (limit_of (LIMIT a))"
  shows "\<exists>g ps g'. gen_initialize E g0 = Inr g \<and> pull_batch E G n g = Inr (ps, g') \<and> length ps = n
    \<and> (\<forall>k<n. let i = flow_at (FLOWS a) (FLOWBURST a) k in
         ps ! k = (advance E (CHECKSUM a) True 0 ^^ (earlier (FLOWS a) (FLOWBURST a) i k div FLOWSIZE a))
           (flow_packet_of E g0 (i * (if SEQ_PORTS a then 2 else 4)) i))"
proof -
  obtain g fs where g: "gen_initialize E g0 = Inr g" "gen_ok g" "sent g = 0" "index g = 0" "burst_count g = 1"
    "limit g = limit_of (LIMIT a)" "active g = ACTIVE a" "rate_limited g = (RATE a \<noteq> 0)" "nflows g = FLOWS a"
    "sequential g = SEQUENTIAL a" "flowsize g = FLOWSIZE a" "flowburst g = FLOWBURST a" "use_cksum g = CHECKSUM a"
    "flows g = Some fs" "length fs = FLOWS a"
    and fs: "\<forall>i<FLOWS a. fs ! i = \<lparr>flow_packet = flow_packet_of E g0 (i * (if SEQ_PORTS a then 2 else 4)) i, flow_count = 0\<rparr>"
    by (rule gen_start [OF assms(1-4)])
  define qs where "qs = map (\<lambda>i. flow_packet_of E g0 (i * (if SEQ_PORTS a then 2 else 4)) i) [0..<FLOWS a]"
  have "fs = map (\<lambda>i. flow_after (advance E (use_cksum g) True 0) (flowsize g) (qs ! i) (earlier (nflows g) (flowburst g) i 0)) [0..<nflows g]"
    using fs g(9,15) by (intro nth_equalityI) (simp_all add: flow_after_def earlier_def qs_def)
  then have "seq_state E qs 0 g" using g assms(3,5,8) by (simp add: seq_state_def qs_def)
  from seq_batch [OF this, of n G] g assms(6,7,9) obtain g' where
    run: "pull_batch E G n g = Inr (map (\<lambda>j. (advance E (CHECKSUM a) True 0
        ^^ (earlier (FLOWS a) (FLOWBURST a) (flow_at (FLOWS a) (FLOWBURST a) j) j div FLOWSIZE a)) (qs ! flow_at (FLOWS a) (FLOWBURST a) j)) [0..<n], g')"
    by auto
  have "flow_at (FLOWS a) (FLOWBURST a) k < FLOWS a" for k using assms(3) by (simp add: flow_at_def)
  then have "qs ! flow_at (FLOWS a) (FLOWBURST a) k = flow_packet_of E g0 (flow_at (FLOWS a) (FLOWBURST a) k * (if SEQ_PORTS a then 2 else 4)) (flow_at (FLOWS a) (FLOWBURST a) k)" for k
    by (simp add: qs_def)
  then show ?thesis using g(1) run by (intro exI conjI) (assumption, assumption, simp, simp add: Let_def)
qed

text \<open>Without \<open>SEQUENTIAL\<close>, \<open>index\<close> stays 0. A flow is told by its addresses, which a change of ports keeps.\<close>

definition addresses :: "gen_packet \<Rightarrow> u32 \<times> u32" where
  "addresses p = (gp_ip_src p, gp_ip_dst p)"

lemma addresses_step: "addresses (flow_packet (flow_step F (advance E ck sq r) f)) = addresses (flow_packet f)"
  by (simp add: flow_step_def advance_def with_udp_sum_def addresses_def Let_def)

definition rand_state :: "u32 \<times> u32 \<Rightarrow> nat \<Rightarrow> 'g generator \<Rightarrow> bool" where
  "rand_state ad k g \<longleftrightarrow> 0 < nflows g \<and> \<not> sequential g \<and> index g = 0 \<and> burst_count g = of_nat (Suc (k mod burst_of (flowburst g)))
     \<and> (\<exists>fs. flows g = Some fs \<and> length fs = nflows g \<and> addresses (flow_packet (fs ! 0)) = ad)"

lemma next_flow_rand:
  assumes "\<not> sequential g" and "index g = 0" and "burst_count g = of_nat (Suc (k mod burst_of (flowburst g)))" and "next_flow E g = (i, g1)"
  shows "index g1 = 0" "burst_count g1 = of_nat (Suc (Suc k mod burst_of (flowburst g)))" "Suc k mod burst_of (flowburst g) \<noteq> 0 \<Longrightarrow> i = 0"
proof -
  let ?b = "burst_of (flowburst g)"
  have b: "0 < ?b" "?b < 2 ^ 32" using unsigned_less [of "flowburst g"] by (auto simp: burst_of_def)
  have mod: "Suc (k mod ?b) \<le> ?b" using b(1) by (simp add: Suc_leI)
  have bc: "unat (burst_count g) = Suc (k mod ?b)" using mod b(2) by (simp add: assms(3) unat_of_nat take_bit_eq_mod del: of_nat_Suc)
  have less: "burst_count g < flowburst g \<longleftrightarrow> Suc (k mod ?b) \<noteq> ?b"
    using bc mod unfolding word_less_nat_alt by (auto simp: burst_of_def max_def split: if_splits)
  have suc: "Suc k mod ?b = (if Suc (k mod ?b) = ?b then 0 else Suc (k mod ?b))" by (simp add: mod_Suc)
  show "index g1 = 0" "burst_count g1 = of_nat (Suc (Suc k mod ?b))" "Suc k mod ?b \<noteq> 0 \<Longrightarrow> i = 0"
    using assms less suc by (auto simp: next_flow_def split: if_splits)
qed

lemma rand_batch:
  assumes "rand_state ad k g" and "active g" and "\<not> rate_limited g" and "unat (sent g) + n \<le> unat (limit g)"
  shows "\<exists>ps g'. pull_batch E G n g = Inr (ps, g') \<and> length ps = n
    \<and> (\<forall>j<n. Suc (k + j) mod burst_of (flowburst g) \<noteq> 0 \<longrightarrow> addresses (ps ! j) = ad)"
  using assms
proof (induction n arbitrary: k g)
  case (Suc n)
  have ok: "gen_ok g" using Suc.prems(1) by (auto simp: rand_state_def gen_ok_def)
  have "unat (sent g) < unat (limit g)" using Suc.prems(4) by simp
  from free_pull [OF ok Suc.prems(2,3) this, of E G] obtain i g1 fs p g' where
    1: "next_flow E g = (i, g1)" "i < nflows g" "flows g = Some fs"
    "p = flow_packet (flow_step (flowsize g) (advance E (use_cksum g) (sequential g) (randoms g1)) (fs ! i))"
    "gen_pull E G g = Inr (Some p, g')"
    "flows g' = Some (fs[i := flow_step (flowsize g) (advance E (use_cksum g) (sequential g) (randoms g1)) (fs ! i)])"
    "index g' = index g1" "burst_count g' = burst_count g1" "same_setup g g'" "unat (sent g') = Suc (unat (sent g))" by blast
  have st: "\<not> sequential g" "index g = 0" "burst_count g = of_nat (Suc (k mod burst_of (flowburst g)))"
    "length fs = nflows g" "addresses (flow_packet (fs ! 0)) = ad" "0 < nflows g" using Suc.prems(1) 1(3) by (auto simp: rand_state_def)
  note nx = next_flow_rand [OF st(1-3) 1(1)]
  have "addresses (flow_packet (fs[i := flow_step (flowsize g) (advance E (use_cksum g) (sequential g) (randoms g1)) (fs ! i)] ! 0)) = ad"
    using 1(2) st(4,5) by (cases "i = 0") (simp_all add: addresses_step)
  then have "rand_state ad (Suc k) g'" using 1(6-9) nx(1,2) st by (simp add: rand_state_def same_setup_def)
  moreover have "active g'" "\<not> rate_limited g'" "unat (sent g') + n \<le> unat (limit g')" "flowburst g' = flowburst g"
    using 1(9,10) Suc.prems by (simp_all add: same_setup_def)
  ultimately obtain ps g2 where 2: "pull_batch E G n g' = Inr (ps, g2)" "length ps = n"
    "\<forall>j<n. Suc (Suc k + j) mod burst_of (flowburst g) \<noteq> 0 \<longrightarrow> addresses (ps ! j) = ad" using Suc.IH [of "Suc k" g'] by auto
  have "addresses p = ad" if "Suc k mod burst_of (flowburst g) \<noteq> 0" using nx(3) [OF that] 1(4) st(5) by (simp add: addresses_step)
  then have "\<forall>j<Suc n. Suc (k + j) mod burst_of (flowburst g) \<noteq> 0 \<longrightarrow> addresses ((p # ps) ! j) = ad"
    using 2(3) by (auto simp: less_Suc_eq_0_disj)
  then show ?case using 1(5) 2(1,2) by (intro exI [of _ "p # ps"] exI [of _ g2]) simp
qed simp

text \<open>
  C39: without \<open>SEQUENTIAL\<close> the flow of a burst is not kept: with \<open>FLOWBURST\<close> \<open>b\<close>, of each \<open>b\<close> packets
  only the last is of a random flow, all others are of the first flow.
\<close>

theorem random_bursts_use_first_flow:
  assumes "gen_configure G a = Inr g0" and "\<forall>i<FLOWS a. packet_made E i" and "0 < FLOWS a" and "0 < IPCOUNT a"
    and "\<not> SEQUENTIAL a" and "RATE a = 0" and "ACTIVE a" and "n \<le> unat (limit_of (LIMIT a))"
  shows "\<exists>g ps g'. gen_initialize E g0 = Inr g \<and> pull_batch E G n g = Inr (ps, g') \<and> length ps = n
    \<and> (\<forall>k<n. Suc k mod burst_of (FLOWBURST a) \<noteq> 0 \<longrightarrow> addresses (ps ! k) = addresses (flow_packet_of E g0 0 0))"
proof -
  obtain g fs where g: "gen_initialize E g0 = Inr g" "gen_ok g" "sent g = 0" "index g = 0" "burst_count g = 1"
    "limit g = limit_of (LIMIT a)" "active g = ACTIVE a" "rate_limited g = (RATE a \<noteq> 0)" "nflows g = FLOWS a"
    "sequential g = SEQUENTIAL a" "flowsize g = FLOWSIZE a" "flowburst g = FLOWBURST a" "use_cksum g = CHECKSUM a"
    "flows g = Some fs" "length fs = FLOWS a"
    and fs: "\<forall>i<FLOWS a. fs ! i = \<lparr>flow_packet = flow_packet_of E g0 (i * (if SEQ_PORTS a then 2 else 4)) i, flow_count = 0\<rparr>"
    by (rule gen_start [OF assms(1-4)])
  have "rand_state (addresses (flow_packet_of E g0 0 0)) 0 g" using g fs assms(3,5) by (simp add: rand_state_def)
  from rand_batch [OF this, of n E G] g assms(6-8) show ?thesis by auto
qed

subsection \<open>An example\<close>

definition ex_gap :: "nat gap_ops" where
  "ex_gap = \<lparr>gap_new = 0, need_update = (\<lambda>t r. (r \<le> t, r)), gap_advance = Suc, set_rate = (\<lambda>r _. r), max_rate = 1000000\<rparr>"

definition ex_args :: "int \<Rightarrow> bool \<Rightarrow> gen_args" where
  "ex_args l sq = \<lparr>RATE = 0, LIMIT = l, LENGTH_ARG = 64, SRCETH = replicate 6 1, DSTETH = replicate 6 2, FLOWS = 2, FLOWSIZE = 1, IPCOUNT = 100,
     FLOWBURST = 2, CHECKSUM = False, SEQUENTIAL = sq, ACTIVE = True, STOP = True, SEQ_PORTS = True, SPORTSTART = 256, DPORT = 80, complete = 0\<rparr>"

definition ex_gen_env :: gen_env where
  "ex_gen_env = \<lparr>packet_made = (\<lambda>_. True), click_random = (\<lambda>n. of_nat (n * 1000 + 7)), time_now = id, click_jiffies = id,
     ip_cksum = (\<lambda>_. 0), udp_cksum = (\<lambda>_. 0)\<rparr>"

definition ex_generator :: "int \<Rightarrow> bool \<Rightarrow> nat generator" where
  "ex_generator l sq = (case gen_configure ex_gap (ex_args l sq) of Inr g \<Rightarrow> g)"

lemma ex_generator: "gen_configure ex_gap (ex_args l sq) = Inr (ex_generator l sq)"
  by (simp add: ex_generator_def gen_configure_def ex_args_def)

lemma ex_burst: "burst_of 2 = 2"
  by code_simp

theorem generator_respects_limit_witness:
  "\<exists>g ps g'. gen_initialize ex_gen_env (ex_generator 3 True) = Inr g \<and> pull_batches ex_gen_env ex_gap [2, 2, 2] g = Inr (ps, g')
     \<and> length ps = 3 \<and> driver_stopped g'"
  using generator_respects_limit [OF ex_generator [of 3 True], of ex_gen_env "[2, 2, 2]"]
  by (force simp: ex_args_def ex_gen_env_def)

theorem sequential_bursts_witness:
  "\<exists>g ps g'. gen_initialize ex_gen_env (ex_generator 10 True) = Inr g \<and> pull_batch ex_gen_env ex_gap 4 g = Inr (ps, g')
     \<and> gp_ip_src (ps ! 0) = 7 \<and> gp_ip_src (ps ! 3) = 2007"
proof -
  have s: "ex_args 10 True = ex_args 10 True\<lparr>SEQUENTIAL := True\<rparr>" by (simp add: ex_args_def)
  obtain g ps g' where 1: "gen_initialize ex_gen_env (ex_generator 10 True) = Inr g" "pull_batch ex_gen_env ex_gap 4 g = Inr (ps, g')"
    and ps: "\<forall>k<4. let i = flow_at 2 2 k in
         ps ! k = (advance ex_gen_env False True 0 ^^ (earlier 2 2 i k div 1)) (flow_packet_of ex_gen_env (ex_generator 10 True) (i * 2) i)"
    using sequential_bursts [OF ex_generator [of 10 True], of ex_gen_env 4] by (auto simp: ex_args_def ex_gen_env_def limit_of_def)
  have src: "gp_ip_src ((advance ex_gen_env False True 0 ^^ m) p) = gp_ip_src p" for m p
    by (induction m) (simp_all add: advance_def with_udp_sum_def)
  have fl: "flow_at 2 2 0 = 0" "flow_at 2 2 3 = 1" by (simp_all add: flow_at_def ex_burst)
  have "gp_ip_src (flow_packet_of ex_gen_env g k i) = of_nat (k * 1000 + 7)" for g :: "nat generator" and k i
    by (simp add: flow_packet_of_def ex_gen_env_def with_udp_sum_def Let_def)
  then have "gp_ip_src (ps ! 0) = 7" "gp_ip_src (ps ! 3) = 2007"
    using ps [rule_format, of 0] ps [rule_format, of 3] fl by (simp_all add: src)
  then show ?thesis using 1 by blast
qed

theorem random_bursts_use_first_flow_witness:
  "\<exists>g ps g'. gen_initialize ex_gen_env (ex_generator 10 False) = Inr g \<and> pull_batch ex_gen_env ex_gap 5 g = Inr (ps, g')
     \<and> addresses (ps ! 0) = addresses (ps ! 2) \<and> addresses (ps ! 2) = addresses (ps ! 4)"
proof -
  obtain g ps g' where 1: "gen_initialize ex_gen_env (ex_generator 10 False) = Inr g" "pull_batch ex_gen_env ex_gap 5 g = Inr (ps, g')"
    and ps: "\<forall>k<5. Suc k mod burst_of 2 \<noteq> 0 \<longrightarrow> addresses (ps ! k) = addresses (flow_packet_of ex_gen_env (ex_generator 10 False) 0 0)"
    using random_bursts_use_first_flow [OF ex_generator [of 10 False], of ex_gen_env 5] by (auto simp: ex_args_def ex_gen_env_def limit_of_def)
  have "addresses (ps ! 0) = addresses (ps ! 2)" "addresses (ps ! 2) = addresses (ps ! 4)"
    using ps [rule_format, of 0] ps [rule_format, of 2] ps [rule_format, of 4] by (simp_all add: ex_burst)
  then show ?thesis using 1 by blast
qed

end
