(* ===== verification/Packet_Sinks.thy ===== *)
theory Packet_Sinks
  imports Prelude
begin

text \<open>
  Two small elements. \<open>SourceCounter\<close> (\<open>fastclick/sourcecounter.cc\<close>) is to count the packets of each
  source (or destination) address of a batch; the code that looks the addresses up is commented out,
  so it counts all packets in entry 0. \<open>DyssectQueueOut\<close> (\<open>dyssectqueueout.cc\<close>) hands a batch to a
  transmit queue of the NIC.

  \<open>rte_hash_create\<close>, the allocation, \<open>DPDKDevice::get_mbuf\<close> and \<open>rte_eth_tx_burst\<close> are parameters. A
  packet is its bytes. The heap memory the batch action allocates is never freed; \<open>leaked\<close> counts the arrays.
\<close>

subsection \<open>SourceCounter\<close>

record source_counter =
  capacity :: u32
  is_src :: u8
  cache :: u8
  offset :: nat
  local_fcbs :: "u32 list"
  insertions :: u32
  leaked :: nat

definition KEY_ARRAY :: nat where "KEY_ARRAY = 64"

definition sc_configure :: "int \<Rightarrow> u32 \<Rightarrow> u8 \<Rightarrow> u8 \<Rightarrow> bool \<Rightarrow> source_counter outcome" where
  "sc_configure args CAPACITY ISSRC CACHE table_created =
     (if args < 0 then Inl (ReturnError (-1))
      else if \<not> table_created then Inl (ReturnError (-1))
      else Inr \<lparr>capacity = CAPACITY, is_src = ISSRC, cache = CACHE, offset = (if ISSRC \<noteq> 0 then 26 else 30),
        local_fcbs = replicate (unat CAPACITY) 0, insertions = 0, leaked = 0\<rparr>)"

definition sc_simple_action :: "'p \<Rightarrow> 'p" where
  "sc_simple_action p = p"

text \<open>The first loop stores a pointer to the address of each packet into an array of 64 entries.\<close>

definition store_key :: "nat \<Rightarrow> u8 list \<Rightarrow> nat list \<Rightarrow> nat list outcome" where
  "store_key off p keys = (if length keys < KEY_ARRAY then Inr (keys @ [off]) else Inl OutOfBounds)"

definition count_local :: "u8 list \<Rightarrow> source_counter \<Rightarrow> source_counter outcome" where
  "count_local p c = check_index 0 (local_fcbs c) (Inr (c\<lparr>local_fcbs := (local_fcbs c)[0 := local_fcbs c ! 0 + 1]\<rparr>))"

definition sc_batch :: "u8 list list \<Rightarrow> source_counter \<Rightarrow> (u8 list list \<times> source_counter) outcome" where
  "sc_batch ps c = outcome_bind (outcome_fold (store_key (offset c)) ps []) (\<lambda>keys.
     outcome_bind (outcome_fold count_local ps (c\<lparr>leaked := leaked c + 3\<rparr>)) (\<lambda>c. Inr (ps, c)))"

datatype sc_handler = h_count | h_insertions

definition sc_read_handler :: "(source_counter \<Rightarrow> nat) \<Rightarrow> sc_handler \<Rightarrow> source_counter \<Rightarrow> nat" where
  "sc_read_handler hash_count h c = (case h of h_count \<Rightarrow> hash_count c | h_insertions \<Rightarrow> unat (insertions c))"

definition sc_write_handler :: "string \<Rightarrow> source_counter \<Rightarrow> source_counter outcome" where
  "sc_write_handler s c = Inl (ReturnError (-1))"

lemma store_keys:
  "outcome_fold (store_key off) ps keys = (if length keys + length ps \<le> KEY_ARRAY \<or> ps = [] then Inr (keys @ replicate (length ps) off) else Inl OutOfBounds)"
proof (induction ps arbitrary: keys)
  case (Cons p ps)
  show ?case
  proof (cases "length keys < KEY_ARRAY")
    case True
    then have "store_key off p keys = Inr (keys @ [off])" by (simp add: store_key_def)
    then have "outcome_fold (store_key off) (p # ps) keys = outcome_fold (store_key off) ps (keys @ [off])" by simp
    then show ?thesis unfolding Cons.IH using True by (cases ps) auto
  next
    case False
    then show ?thesis by (simp add: store_key_def)
  qed
qed simp

lemma count_locals:
  "local_fcbs c \<noteq> [] \<Longrightarrow> outcome_fold count_local ps c = Inr (c\<lparr>local_fcbs := (local_fcbs c)[0 := local_fcbs c ! 0 + of_nat (length ps)]\<rparr>)"
proof (induction ps arbitrary: c)
  case (Cons p ps)
  then show ?case by (simp add: count_local_def algebra_simps)
qed simp

text \<open>
  A batch goes through unchanged exactly when it has at most 64 packets; the counter adds the
  whole batch to entry 0 whatever the addresses are, and never to another entry.
\<close>

theorem source_counter_batch:
  assumes "sc_configure args CAPACITY ISSRC CACHE made = Inr c0" and "0 < unat CAPACITY"
    and "local_fcbs c = (local_fcbs c0)[0 := n]"
  shows "sc_batch ps c = (if length ps \<le> 64
     then Inr (ps, c\<lparr>leaked := leaked c + 3, local_fcbs := (local_fcbs c0)[0 := n + of_nat (length ps)]\<rparr>) else Inl OutOfBounds)"
proof -
  have "local_fcbs c0 = replicate (unat CAPACITY) 0" using assms(1) by (auto simp: sc_configure_def split: if_splits)
  then have c: "local_fcbs c \<noteq> []" "local_fcbs c ! 0 = n" "(local_fcbs c)[0 := m] = (local_fcbs c0)[0 := m]" for m
    using assms(2,3) by auto
  show ?thesis
  proof (cases "length ps \<le> 64")
    case True
    then show ?thesis using c by (simp add: sc_batch_def store_keys KEY_ARRAY_def count_locals)
  next
    case False
    then show ?thesis by (auto simp: sc_batch_def store_keys KEY_ARRAY_def)
  qed
qed

text \<open>Two packets of different sources are counted in the same entry.\<close>

theorem source_counter_batch_witness:
  "\<exists>c0 c. sc_configure 0 16 1 1 True = Inr c0
     \<and> sc_batch [replicate 26 0 @ [10, 0, 0, 1], replicate 26 0 @ [10, 0, 0, 2]] c0 = Inr ([replicate 26 0 @ [10, 0, 0, 1], replicate 26 0 @ [10, 0, 0, 2]], c)
     \<and> local_fcbs c ! 0 = 2 \<and> local_fcbs c ! 1 = 0"
proof -
  obtain c0 where c0: "sc_configure 0 16 1 1 True = Inr c0" by (simp add: sc_configure_def)
  then have l: "local_fcbs c0 = replicate 16 0" by (auto simp: sc_configure_def)
  then have "local_fcbs c0 = (local_fcbs c0)[0 := 0]" by (simp add: list_update_unchanged)
  from source_counter_batch [OF c0 _ this, of "[replicate 26 0 @ [10, 0, 0, 1], replicate 26 0 @ [10, 0, 0, 2]]"]
  have "sc_batch [replicate 26 0 @ [10, 0, 0, 1], replicate 26 0 @ [10, 0, 0, 2]] c0
    = Inr ([replicate 26 0 @ [10, 0, 0, 1], replicate 26 0 @ [10, 0, 0, 2]], c0\<lparr>leaked := leaked c0 + 3, local_fcbs := (replicate 16 0)[0 := 2]\<rparr>)"
    by (simp add: l)
  then show ?thesis using c0 by (intro exI [of _ c0] exI [of _ "c0\<lparr>leaked := leaked c0 + 3, local_fcbs := (replicate 16 0)[0 := 2]\<rparr>"]) simp
qed

subsection \<open>DyssectQueueOut\<close>

record queue_out =
  out_portid :: nat
  out_burst :: nat
  out_queueid :: nat
  total_packets :: u32

text \<open>
  The NIC takes a prefix of the mbufs it is given (\<open>tx_burst\<close>: how many); \<open>get_mbuf\<close> can fail.
\<close>

record 'p tx_env =
  get_mbuf :: "'p \<Rightarrow> 'p option"
  tx_burst :: "nat \<Rightarrow> nat \<Rightarrow> 'p list \<Rightarrow> nat"

definition tx_ok :: "'p tx_env \<Rightarrow> bool" where
  "tx_ok X \<longleftrightarrow> (\<forall>p i ms. tx_burst X p i ms \<le> length ms)"

definition qo_configure :: "int \<Rightarrow> nat \<Rightarrow> nat \<Rightarrow> nat \<Rightarrow> queue_out outcome" where
  "qo_configure args PORT QUEUE BURST = (if args < 0 then Inl (ReturnError args)
     else Inr \<lparr>out_portid = PORT, out_burst = BURST, out_queueid = QUEUE, total_packets = 0\<rparr>)"

text \<open>The loop: packets until the batch ends or the array of \<open>_burst\<close> entries is full.\<close>

fun gather :: "'p tx_env \<Rightarrow> nat \<Rightarrow> 'p list \<Rightarrow> 'p list \<Rightarrow> 'p list" where
  "gather X b pkts [] = pkts"
| "gather X b pkts (p # ps) = (if length pkts < b
     then gather X b (case get_mbuf X p of None \<Rightarrow> pkts | Some m \<Rightarrow> pkts @ [m]) ps else pkts)"

text \<open>The mbufs transmitted, and the new state.\<close>

definition qo_push_batch :: "'p tx_env \<Rightarrow> 'p list \<Rightarrow> queue_out \<Rightarrow> 'p list \<times> queue_out" where
  "qo_push_batch X batch c = (let pkts = gather X (out_burst c) [] batch;
       n = tx_burst X (out_portid c) (out_queueid c) pkts
     in (take n pkts, c\<lparr>total_packets := total_packets c + of_nat n\<rparr>))"

lemma gather_take:
  assumes "\<forall>p\<in>set ps. get_mbuf X p \<noteq> None" and "length pkts \<le> b"
  shows "gather X b pkts ps = pkts @ take (b - length pkts) (map (the \<circ> get_mbuf X) ps)"
  using assms
proof (induction ps arbitrary: pkts)
  case (Cons p ps)
  obtain m where m: "get_mbuf X p = Some m" using Cons.prems(1) by auto
  show ?case
  proof (cases "length pkts < b")
    case True
    then have "gather X b (pkts @ [m]) ps = (pkts @ [m]) @ take (b - length (pkts @ [m])) (map (the \<circ> get_mbuf X) ps)"
      by (intro Cons.IH) (use Cons.prems in auto)
    moreover have "b - length pkts = Suc (b - Suc (length pkts))" using True by simp
    ultimately show ?thesis using True m by (simp add: comp_def del: diff_Suc_Suc)
  qed (use Cons.prems(2) in simp)
qed simp

text \<open>
  A batch leaves in order, but only its first \<open>BURST\<close> packets and of these what the NIC takes: the
  rest of a longer batch is neither sent nor freed.
\<close>

theorem queue_out_sends_prefix:
  assumes "tx_ok X" and "\<forall>p\<in>set batch. get_mbuf X p \<noteq> None" and "qo_push_batch X batch c = (out, c')"
  shows "let ms = take (out_burst c) (map (the \<circ> get_mbuf X) batch); n = tx_burst X (out_portid c) (out_queueid c) ms
     in out = take n ms \<and> length out = n \<and> c' = c\<lparr>total_packets := total_packets c + of_nat n\<rparr>"
proof -
  let ?ms = "take (out_burst c) (map (the \<circ> get_mbuf X) batch)"
  have "gather X (out_burst c) [] batch = ?ms" using gather_take [OF assms(2), of "[]" "out_burst c"] by simp
  moreover have "tx_burst X (out_portid c) (out_queueid c) ?ms \<le> length ?ms" using assms(1) by (simp only: tx_ok_def)
  ultimately show ?thesis using assms(3) by (auto simp: qo_push_batch_def Let_def)
qed

definition ex_tx :: "nat tx_env" where
  "ex_tx = \<lparr>get_mbuf = Some, tx_burst = (\<lambda>_ _ ms. length ms)\<rparr>"

theorem queue_out_sends_prefix_witness:
  "\<exists>c'. qo_push_batch ex_tx [1, 2, 3, 4, 5] \<lparr>out_portid = 0, out_burst = 3, out_queueid = 0, total_packets = 0\<rparr> = ([1, 2, 3], c')
     \<and> total_packets c' = 3"
proof -
  let ?c = "\<lparr>out_portid = 0, out_burst = 3, out_queueid = 0, total_packets = 0\<rparr> :: queue_out"
  obtain out c' where r: "qo_push_batch ex_tx [1, 2, 3, 4, 5] ?c = (out, c')" by (cases "qo_push_batch ex_tx [1, 2, 3, 4, 5] ?c")
  have "out = [1, 2, 3] \<and> total_packets c' = 3"
    using queue_out_sends_prefix [OF _ _ r] by (simp add: tx_ok_def ex_tx_def Let_def numeral_3_eq_3)
  then show ?thesis using r by simp
qed

end
