(* ===== verification/Offloading_Core.thy ===== *)
theory Offloading_Core
  imports Relationship "HOL-Library.Multiset"
begin

text \<open>
  The element \<open>DyssectOffloadingCore\<close> (\<open>dyssectoffloadingcore.cc\<close>): it keeps the list \<open>Q\<close> of the queues
  it serves, changes it as its two control rings say, first removing, then adding, and takes a burst
  from one queue after the other. The packets come with the annotation the working core gave them,
  which lies in the packet's own memory; they are \<open>mbuf\<close>s here.
\<close>

record offloader =
  off_idx :: nat
  off_count :: u32
  off_burst :: nat
  off_queueid :: nat
  serving :: "ring_ptr list"

definition offloader_configure :: "int \<Rightarrow> nat \<Rightarrow> nat \<Rightarrow> nat \<Rightarrow> offloader outcome" where
  "offloader_configure args INDEX QUEUE BURST = (if args < 0 then Inl (ReturnError (-1))
     else Inr \<lparr>off_idx = INDEX, off_count = 0, off_burst = BURST, off_queueid = QUEUE, serving = []\<rparr>)"

text \<open>\<open>Q[count++ % Q.size()]\<close>\<close>

definition choose_queue :: "offloader \<Rightarrow> (ring_ptr \<times> offloader) outcome" where
  "choose_queue c = (if serving c = [] then Inl DivisionByZero
     else Inr (serving c ! (unat (off_count c) mod length (serving c)), c\<lparr>off_count := off_count c + 1\<rparr>))"

text \<open>
  \<open>while(rte_ring_dequeue(ring, &q) == 0)\<close> with the change \<open>f\<close> of \<open>Q\<close>; a ring that is not a ring of
  rings is a fault, and the fuel is the number of pointers in the ring at first.
\<close>

fun drain_control :: "'r ring_ops \<Rightarrow> (ring_ptr \<Rightarrow> ring_ptr list \<Rightarrow> ring_ptr list) \<Rightarrow> nat \<Rightarrow> 'r \<times> ring_ptr list \<Rightarrow> ('r \<times> ring_ptr list) outcome" where
  "drain_control R f n (r, Q) = (case ring_dequeue R r of None \<Rightarrow> Inr (r, Q)
     | Some (x, r') \<Rightarrow> (case n of 0 \<Rightarrow> Inl Spinning
       | Suc n' \<Rightarrow> (case x of PMbuf m \<Rightarrow> Inl WrongType | PRing p \<Rightarrow> drain_control R f n' (r', f p Q))))"

text \<open>\<open>Q.erase(std::remove(...))\<close> and \<open>Q.push_back(q)\<close>.\<close>

definition erase_queue :: "ring_ptr \<Rightarrow> ring_ptr list \<Rightarrow> ring_ptr list" where
  "erase_queue p Q = filter (\<lambda>x. x \<noteq> p) Q"

definition push_back :: "ring_ptr \<Rightarrow> ring_ptr list \<Rightarrow> ring_ptr list" where
  "push_back p Q = Q @ [p]"

definition update_queues :: "'r ring_ops \<Rightarrow> offloader \<times> ('t, 'r) shared \<Rightarrow> (offloader \<times> ('t, 'r) shared) outcome" where
  "update_queues R = (\<lambda>(c, sh).
     check_index (off_idx c) (toRemoveQueue sh) (let p = toRemoveQueue sh ! off_idx c in
     outcome_bind (drain_control R erase_queue (ring_count R (ring_at sh p)) (ring_at sh p, serving c)) (\<lambda>(r, Q).
     let sh1 = set_ring p r sh in
     check_index (off_idx c) (toAddQueue sh1) (let p = toAddQueue sh1 ! off_idx c in
     outcome_bind (drain_control R push_back (ring_count R (ring_at sh1 p)) (ring_at sh1 p, Q)) (\<lambda>(r, Q).
       Inr (c\<lparr>serving := Q\<rparr>, set_ring p r sh1))))))"

definition as_mbuf :: "void_ptr \<Rightarrow> mbuf list \<Rightarrow> mbuf list outcome" where
  "as_mbuf x ms = (case x of PMbuf m \<Rightarrow> Inr (ms @ [m]) | PRing p \<Rightarrow> Inl WrongType)"

text \<open>\<open>run_task\<close>: its return value and the batch it pushes.\<close>

definition offloader_run_task :: "'r ring_ops \<Rightarrow> offloader \<times> ('t, 'r) shared \<Rightarrow> (bool \<times> mbuf list \<times> offloader \<times> ('t, 'r) shared) outcome" where
  "offloader_run_task R s = outcome_bind (update_queues R s) (\<lambda>(c, sh).
     if serving c = [] then Inr (True, [], c, sh)
     else outcome_bind (choose_queue c) (\<lambda>(p, c).
       let (xs, r) = ring_dequeue_burst R (off_burst c) (ring_at sh p) in
       outcome_bind (outcome_fold as_mbuf xs []) (\<lambda>ms. Inr (True, ms, c, set_ring p r sh))))"

subsection \<open>The control rings\<close>

declare drain_control.simps [simp del]

lemma ring_dequeue_ok:
  assumes "ring_ok R cont cap"
  shows "cont r = [] \<Longrightarrow> ring_dequeue R r = None"
    "cont r = x # xs \<Longrightarrow> \<exists>r'. ring_dequeue R r = Some (x, r') \<and> cont r' = xs \<and> cap r' = cap r"
  using assms by (simp_all add: ring_ok_def)

text \<open>Both loops end with the ring empty, after the change for each of its pointers in order.\<close>

lemma drain_control_ok:
  assumes "ring_ok R cont cap" and "cont r = map PRing ps" and "length ps \<le> n"
  shows "\<exists>r'. drain_control R f n (r, Q) = Inr (r', fold f ps Q) \<and> cont r' = [] \<and> cap r' = cap r"
  using assms(2,3)
proof (induction ps arbitrary: r Q n)
  case Nil
  then show ?case using ring_dequeue_ok(1) [OF assms(1), of r] by (simp add: drain_control.simps)
next
  case (Cons p ps)
  then obtain m where n: "n = Suc m" by (cases n) auto
  have "cont r = PRing p # map PRing ps" using Cons.prems(1) by simp
  from ring_dequeue_ok(2) [OF assms(1) this] obtain r1 where 1: "ring_dequeue R r = Some (PRing p, r1)" "cont r1 = map PRing ps" "cap r1 = cap r" by blast
  from Cons.IH [OF 1(2), of m "f p Q"] Cons.prems(2) obtain r' where
    "drain_control R f m (r1, f p Q) = Inr (r', fold f ps (f p Q))" "cont r' = []" "cap r' = cap r1" using n by auto
  then show ?case using 1 n by (subst drain_control.simps) simp
qed

lemma erase_queues: "fold erase_queue ps Q = filter (\<lambda>x. x \<notin> set ps) Q"
  by (induction ps arbitrary: Q) (auto simp: erase_queue_def intro!: filter_cong)

lemma push_queues: "fold push_back ps Q = Q @ ps"
  by (induction ps arbitrary: Q) (auto simp: push_back_def)

lemma update_queues_ok:
  assumes R: "ring_ok R cont cap" and i: "off_idx c < length (toRemoveQueue sh)" "off_idx c < length (toAddQueue sh)"
    and "toRemoveQueue sh ! off_idx c \<noteq> toAddQueue sh ! off_idx c"
    and rm: "cont (ring_at sh (toRemoveQueue sh ! off_idx c)) = map PRing gone" and ad: "cont (ring_at sh (toAddQueue sh ! off_idx c)) = map PRing new"
  shows "\<exists>sh'. update_queues R (c, sh) = Inr (c\<lparr>serving := filter (\<lambda>x. x \<notin> set gone) (serving c) @ new\<rparr>, sh') \<and> sh' = sh\<lparr>ring_at := ring_at sh'\<rparr>
    \<and> cont (ring_at sh' (toRemoveQueue sh ! off_idx c)) = [] \<and> cont (ring_at sh' (toAddQueue sh ! off_idx c)) = []
    \<and> (\<forall>p. p \<noteq> toRemoveQueue sh ! off_idx c \<longrightarrow> p \<noteq> toAddQueue sh ! off_idx c \<longrightarrow> ring_at sh' p = ring_at sh p)"
proof -
  let ?p = "toRemoveQueue sh ! off_idx c" and ?q = "toAddQueue sh ! off_idx c"
  have n: "ring_count R r = length (cont r)" for r using R by (simp add: ring_ok_def)
  obtain r1 where 1: "drain_control R erase_queue (ring_count R (ring_at sh ?p)) (ring_at sh ?p, serving c) = Inr (r1, fold erase_queue gone (serving c))"
    "cont r1 = []" using drain_control_ok [OF R rm, of "length gone" erase_queue "serving c"] by (auto simp: n rm)
  let ?sh = "set_ring ?p r1 sh"
  have ad': "cont (ring_at ?sh ?q) = map PRing new" using ad assms(4) by simp
  obtain r2 where 2: "drain_control R push_back (ring_count R (ring_at ?sh ?q)) (ring_at ?sh ?q, fold erase_queue gone (serving c))
      = Inr (r2, fold push_back new (fold erase_queue gone (serving c)))" "cont r2 = []"
    using drain_control_ok [OF R ad', of "length new" push_back "fold erase_queue gone (serving c)"] assms(4) by (auto simp: n ad)
  have "update_queues R (c, sh) = Inr (c\<lparr>serving := filter (\<lambda>x. x \<notin> set gone) (serving c) @ new\<rparr>, set_ring ?q r2 ?sh)"
    using i 1 2 by (simp add: update_queues_def erase_queues push_queues)
  then show ?thesis using 1(2) 2(2) assms(4) by (intro exI [of _ "set_ring ?q r2 ?sh"]) (simp add: set_ring_def)
qed

subsection \<open>Messages in the order they are sent\<close>

text \<open>
  What the working cores and the controller mean: each message in its turn. The two kinds travel in two
  rings, so that the core sees the removals in order and the additions in order.
\<close>

datatype queue_msg = AddQ ring_ptr | RemoveQ ring_ptr

fun intend :: "queue_msg \<Rightarrow> ring_ptr list \<Rightarrow> ring_ptr list" where
  "intend (AddQ p) Q = push_back p Q"
| "intend (RemoveQ p) Q = erase_queue p Q"

definition removals :: "queue_msg list \<Rightarrow> ring_ptr list" where
  "removals ms = concat (map (\<lambda>m. case m of RemoveQ p \<Rightarrow> [p] | AddQ _ \<Rightarrow> []) ms)"

definition additions :: "queue_msg list \<Rightarrow> ring_ptr list" where
  "additions ms = concat (map (\<lambda>m. case m of AddQ p \<Rightarrow> [p] | RemoveQ _ \<Rightarrow> []) ms)"

text \<open>The additions that no later message takes back.\<close>

fun lasting :: "queue_msg list \<Rightarrow> ring_ptr list" where
  "lasting [] = []"
| "lasting (AddQ p # ms) = (if p \<in> set (removals ms) then lasting ms else p # lasting ms)"
| "lasting (RemoveQ p # ms) = lasting ms"

lemma messages_Cons [simp]:
  "removals (AddQ p # ms) = removals ms" "removals (RemoveQ p # ms) = p # removals ms"
  "additions (AddQ p # ms) = p # additions ms" "additions (RemoveQ p # ms) = additions ms"
  "removals [] = []" "additions [] = []"
  by (simp_all add: removals_def additions_def)

lemma mem_removals: "p \<in> set (removals ms) \<longleftrightarrow> RemoveQ p \<in> set ms"
  by (force simp: removals_def split: queue_msg.splits)

lemma intended: "fold intend ms Q = filter (\<lambda>x. x \<notin> set (removals ms)) Q @ lasting ms"
proof (induction ms arbitrary: Q)
  case (Cons m ms)
  then show ?case
    by (cases m) (auto simp: push_back_def erase_queue_def intro!: filter_cong)
qed simp

lemma lasting_le: "mset (lasting ms) \<subseteq># mset (additions ms)"
  by (induction ms rule: lasting.induct) (auto simp: subset_mset.add_increasing2 intro: subset_mset.order_trans)

definition taken_back :: "queue_msg list \<Rightarrow> bool" where
  "taken_back ms \<longleftrightarrow> (\<exists>p xs ys zs. ms = xs @ AddQ p # ys @ RemoveQ p # zs)"

lemma taken_back_Cons:
  "taken_back (AddQ p # ms) \<longleftrightarrow> RemoveQ p \<in> set ms \<or> taken_back ms" "taken_back (RemoveQ p # ms) \<longleftrightarrow> taken_back ms"
  by (auto simp: taken_back_def Cons_eq_append_conv in_set_conv_decomp; blast)+

lemma lasting_all: "lasting ms = additions ms \<longleftrightarrow> \<not> taken_back ms"
proof (induction ms rule: lasting.induct)
  case 1
  then show ?case by (simp add: taken_back_def)
next
  case (2 p ms)
  have "size (mset (lasting ms)) \<le> size (mset (additions ms))" by (rule size_mset_mono [OF lasting_le])
  then have "lasting ms \<noteq> p # additions ms" by auto
  then show ?case using 2 by (simp add: taken_back_Cons mem_removals)
next
  case (3 p ms)
  then show ?case by (simp add: taken_back_Cons)
qed

text \<open>
  C15: the messages to an offloading core travel in two rings, so the order between removals and additions is lost.
  For any sequence of messages that waits in the two control rings, the core ends with the list of queues that the messages mean,
  one after the other, if and only if none of them removes a queue that an earlier one of them adds. Otherwise it serves more: an addition that
  was taken back stays in force. It never serves a queue less often than it should.
\<close>

theorem control_messages_refine:
  assumes "ring_ok R cont cap" and "off_idx c < length (toRemoveQueue sh)" and "off_idx c < length (toAddQueue sh)"
    and "toRemoveQueue sh ! off_idx c \<noteq> toAddQueue sh ! off_idx c"
    and "cont (ring_at sh (toRemoveQueue sh ! off_idx c)) = map PRing (removals ms)"
    and "cont (ring_at sh (toAddQueue sh ! off_idx c)) = map PRing (additions ms)"
  shows "\<exists>c' sh'. update_queues R (c, sh) = Inr (c', sh')
    \<and> (serving c' = fold intend ms (serving c) \<longleftrightarrow> \<not> (\<exists>p xs ys zs. ms = xs @ AddQ p # ys @ RemoveQ p # zs))
    \<and> mset (fold intend ms (serving c)) \<subseteq># mset (serving c')"
proof -
  obtain sh' where "update_queues R (c, sh) = Inr (c\<lparr>serving := filter (\<lambda>x. x \<notin> set (removals ms)) (serving c) @ additions ms\<rparr>, sh')"
    using update_queues_ok [OF assms] by blast
  then show ?thesis using lasting_all [of ms] lasting_le [of ms] by (auto simp: intended taken_back_def)
qed

subsection \<open>Every queue is served\<close>

fun offloader_runs :: "'r ring_ops \<Rightarrow> nat \<Rightarrow> offloader \<times> ('t, 'r) shared \<Rightarrow> (mbuf list list \<times> offloader \<times> ('t, 'r) shared) outcome" where
  "offloader_runs R 0 s = Inr ([], s)"
| "offloader_runs R (Suc n) s = outcome_bind (offloader_runs R n s) (\<lambda>(bs, s1).
     outcome_bind (offloader_run_task R s1) (\<lambda>(_, ms, s2). Inr (bs @ [ms], s2)))"

lemma as_mbufs: "outcome_fold as_mbuf (map PMbuf xs) ms = Inr (ms @ xs)"
  by (induction xs arbitrary: ms) (simp_all add: as_mbuf_def)

text \<open>No messages are waiting, and the queues served hold packets only.\<close>

definition steady :: "('r \<Rightarrow> void_ptr list) \<Rightarrow> offloader \<Rightarrow> ('t, 'r) shared \<Rightarrow> (ring_ptr \<Rightarrow> mbuf list) \<Rightarrow> bool" where
  "steady cont c sh M \<longleftrightarrow> off_idx c < length (toRemoveQueue sh) \<and> off_idx c < length (toAddQueue sh)
     \<and> toRemoveQueue sh ! off_idx c \<noteq> toAddQueue sh ! off_idx c
     \<and> cont (ring_at sh (toRemoveQueue sh ! off_idx c)) = [] \<and> cont (ring_at sh (toAddQueue sh ! off_idx c)) = []
     \<and> toRemoveQueue sh ! off_idx c \<notin> set (serving c) \<and> toAddQueue sh ! off_idx c \<notin> set (serving c)
     \<and> distinct (serving c) \<and> (\<forall>p\<in>set (serving c). cont (ring_at sh p) = map PMbuf (M p))"

lemma steady_run:
  assumes R: "ring_ok R cont cap" and st: "steady cont c sh M" and ne: "serving c \<noteq> []"
  defines "p \<equiv> serving c ! (unat (off_count c) mod length (serving c))"
  shows "\<exists>sh'. offloader_run_task R (c, sh) = Inr (True, take (off_burst c) (M p), c\<lparr>off_count := off_count c + 1\<rparr>, sh')
    \<and> steady cont (c\<lparr>off_count := off_count c + 1\<rparr>) sh' (M(p := drop (off_burst c) (M p)))"
proof -
  have i: "off_idx c < length (toRemoveQueue sh)" "off_idx c < length (toAddQueue sh)" "toRemoveQueue sh ! off_idx c \<noteq> toAddQueue sh ! off_idx c"
    "cont (ring_at sh (toRemoveQueue sh ! off_idx c)) = map PRing []" "cont (ring_at sh (toAddQueue sh ! off_idx c)) = map PRing []"
    using st by (simp_all add: steady_def)
  obtain r where up: "update_queues R (c, sh) = Inr (c, sh\<lparr>ring_at := r\<rparr>)" and r: "cont (r (toRemoveQueue sh ! off_idx c)) = []"
    "cont (r (toAddQueue sh ! off_idx c)) = []" "\<forall>p. p \<noteq> toRemoveQueue sh ! off_idx c \<longrightarrow> p \<noteq> toAddQueue sh ! off_idx c \<longrightarrow> r p = ring_at sh p"
  proof -
    from update_queues_ok [OF R i] obtain sh' where 1: "update_queues R (c, sh) = Inr (c, sh')" "sh' = sh\<lparr>ring_at := ring_at sh'\<rparr>"
      "cont (ring_at sh' (toRemoveQueue sh ! off_idx c)) = []" "cont (ring_at sh' (toAddQueue sh ! off_idx c)) = []"
      "\<forall>p. p \<noteq> toRemoveQueue sh ! off_idx c \<longrightarrow> p \<noteq> toAddQueue sh ! off_idx c \<longrightarrow> ring_at sh' p = ring_at sh p" by auto
    obtain r where "sh' = sh\<lparr>ring_at := r\<rparr>" using 1(2) by blast
    then show thesis using that [of r] 1 by simp
  qed
  have "p \<in> set (serving c)" using ne by (simp add: p_def)
  moreover from this have "p \<noteq> toRemoveQueue sh ! off_idx c" "p \<noteq> toAddQueue sh ! off_idx c" using st by (auto simp: steady_def)
  moreover from this have "r p = ring_at sh p" using r(3) by blast
  ultimately have p: "cont (r p) = map PMbuf (M p)" "p \<noteq> toRemoveQueue sh ! off_idx c" "p \<noteq> toAddQueue sh ! off_idx c"
    using st by (simp_all add: steady_def)
  obtain xs r' where d: "ring_dequeue_burst R (off_burst c) (r p) = (xs, r')" by fastforce
  have "fst (ring_dequeue_burst R (off_burst c) (r p)) = take (off_burst c) (cont (r p))"
    "cont (snd (ring_dequeue_burst R (off_burst c) (r p))) = drop (off_burst c) (cont (r p))" using R by (simp_all add: ring_ok_def)
  then have xs: "xs = map PMbuf (take (off_burst c) (M p))" "cont r' = map PMbuf (drop (off_burst c) (M p))"
    using d p(1) by (simp_all add: take_map drop_map)
  have "choose_queue c = Inr (p, c\<lparr>off_count := off_count c + 1\<rparr>)" using ne by (simp add: choose_queue_def p_def)
  then have run: "offloader_run_task R (c, sh) = Inr (True, take (off_burst c) (M p), c\<lparr>off_count := off_count c + 1\<rparr>, set_ring p r' (sh\<lparr>ring_at := r\<rparr>))"
    using up ne d xs(1) by (simp add: offloader_run_task_def as_mbufs)
  have rs: "\<forall>x\<in>set (serving c). r x = ring_at sh x" using st r(3) unfolding steady_def by metis
  have "steady cont (c\<lparr>off_count := off_count c + 1\<rparr>) (set_ring p r' (sh\<lparr>ring_at := r\<rparr>)) (M(p := drop (off_burst c) (M p)))"
    using st r(1,2) p xs(2) rs by (auto simp: steady_def)
  then show ?thesis using run by blast
qed

text \<open>A run of calls takes a burst from one queue after the other.\<close>

definition turn :: "offloader \<Rightarrow> nat \<Rightarrow> ring_ptr" where
  "turn c k = serving c ! ((unat (off_count c) + k) mod length (serving c))"

lemma turn_inj:
  assumes "distinct (serving c)" and "turn c j = turn c k" and "j < k" and "k < length (serving c)"
  shows False
proof -
  let ?n = "length (serving c)" and ?m = "unat (off_count c)"
  have "0 < ?n" using assms(3,4) by linarith
  then have "(?m + j) mod ?n = (?m + k) mod ?n" using assms(1,2) nth_eq_iff_index_eq by (fastforce simp: turn_def)
  then have "?n dvd (?m + k) - (?m + j)" using assms(3) mod_eq_dvd_iff_nat [of "?m + j" "?m + k" ?n] by simp
  then have "?n dvd k - j" by simp
  then show False using assms(3,4) by (auto dest: dvd_imp_le)
qed

lemma steady_runs:
  assumes R: "ring_ok R cont cap" and st: "steady cont c sh M" and ne: "serving c \<noteq> []"
    and "unat (off_count c) + n < 2 ^ 32" and "n \<le> length (serving c)"
  shows "\<exists>sh'. offloader_runs R n (c, sh) = Inr (map (\<lambda>k. take (off_burst c) (M (turn c k))) [0..<n], c\<lparr>off_count := off_count c + of_nat n\<rparr>, sh')
    \<and> steady cont (c\<lparr>off_count := off_count c + of_nat n\<rparr>) sh' (\<lambda>p. if p \<in> turn c ` {..<n} then drop (off_burst c) (M p) else M p)"
  using assms(4,5)
proof (induction n)
  case 0
  then show ?case using st by simp
next
  case (Suc n)
  let ?c = "c\<lparr>off_count := off_count c + of_nat n\<rparr>" and ?M = "\<lambda>p. if p \<in> turn c ` {..<n} then drop (off_burst c) (M p) else M p"
  from Suc obtain sh1 where 1: "offloader_runs R n (c, sh) = Inr (map (\<lambda>k. take (off_burst c) (M (turn c k))) [0..<n], ?c, sh1)"
    "steady cont ?c sh1 ?M" by auto
  have "unat (off_count c + of_nat n) = unat (off_count c) + n"
    using Suc.prems(1) by (simp add: unat_word_ariths unat_of_nat take_bit_eq_mod)
  then have tn: "serving ?c ! (unat (off_count ?c) mod length (serving ?c)) = turn c n" by (simp add: turn_def)
  have "distinct (serving c)" using st by (simp add: steady_def)
  then have "turn c n \<notin> turn c ` {..<n}" using turn_inj [of c _ n] Suc.prems(2) by fastforce
  then have Mn: "?M (turn c n) = M (turn c n)" by simp
  from steady_run [OF R 1(2)] ne obtain sh2 where
    2: "offloader_run_task R (?c, sh1) = Inr (True, take (off_burst c) (?M (turn c n)), ?c\<lparr>off_count := off_count ?c + 1\<rparr>, sh2)"
    "steady cont (?c\<lparr>off_count := off_count ?c + 1\<rparr>) sh2 (?M(turn c n := drop (off_burst c) (?M (turn c n))))"
    unfolding tn by auto
  have c2: "?c\<lparr>off_count := off_count ?c + 1\<rparr> = c\<lparr>off_count := off_count c + of_nat (Suc n)\<rparr>" by (simp add: algebra_simps)
  have M2: "?M(turn c n := drop (off_burst c) (?M (turn c n))) = (\<lambda>p. if p \<in> turn c ` {..<Suc n} then drop (off_burst c) (M p) else M p)"
    unfolding Mn by (auto simp: lessThan_Suc)
  have "steady cont (c\<lparr>off_count := off_count c + of_nat (Suc n)\<rparr>) sh2 (\<lambda>p. if p \<in> turn c ` {..<Suc n} then drop (off_burst c) (M p) else M p)"
    using 2(2) unfolding M2 c2 .
  moreover have "offloader_runs R (Suc n) (c, sh)
      = Inr (map (\<lambda>k. take (off_burst c) (M (turn c k))) [0..<Suc n], c\<lparr>off_count := off_count c + of_nat (Suc n)\<rparr>, sh2)"
    using 1(1) 2(1) unfolding c2 Mn by simp
  ultimately show ?case by blast
qed


subsection \<open>Examples\<close>

definition ex_offloader :: "ring_ptr list \<Rightarrow> offloader" where
  "ex_offloader Q = \<lparr>off_idx = 0, off_count = 0, off_burst = 32, off_queueid = 2, serving = Q\<rparr>"

text \<open>The first offloading core has not run yet when its only queue is taken away again.\<close>

definition ex_removed :: "(list_table, list_ring) shared \<Rightarrow> (list_table, list_ring) shared" where
  "ex_removed sh = enqueue_at list_ring_ops (ToRemove 0) (PRing (QueueOf 0)) sh"

theorem control_messages_refine_witness:
  "\<exists>c sh c' sh'. ex_configure 8 4 2 2 = Inr (c, sh) \<and> update_queues list_ring_ops (ex_offloader [], ex_removed sh) = Inr (c', sh')
     \<and> serving c' \<noteq> fold intend [AddQ (QueueOf 0), RemoveQ (QueueOf 0)] []"
proof -
  let ?ms = "[AddQ (QueueOf 0), RemoveQ (QueueOf 0)]"
  obtain c sh where conf: "ex_configure 8 4 2 2 = Inr (c, sh)" using ex_configure_ok [of 8 2 4 2] by auto
  have r: "fst (ring_at sh (ToAdd 0)) = [PRing (QueueOf 0)]" "fst (ring_at sh (ToRemove 0)) = []" "snd (ring_at sh (ToRemove 0)) = 4095"
    using configure_rings [OF conf list_ring_ok] by (auto simp: ex_config_def eval_nat_numeral)
  have q: "toAddQueue sh = [ToAdd 0, ToAdd 1]" "toRemoveQueue sh = [ToRemove 0, ToRemove 1]"
    using configure_relationship [OF conf] by (simp_all add: ex_config_def eval_nat_numeral)
  have ms: "removals ?ms = [QueueOf 0]" "additions ?ms = [QueueOf 0]"
    by simp_all
  have sh: "off_idx (ex_offloader []) < length (toRemoveQueue (ex_removed sh))" "off_idx (ex_offloader []) < length (toAddQueue (ex_removed sh))"
    "toRemoveQueue (ex_removed sh) ! off_idx (ex_offloader []) \<noteq> toAddQueue (ex_removed sh) ! off_idx (ex_offloader [])"
    "fst (ring_at (ex_removed sh) (toRemoveQueue (ex_removed sh) ! off_idx (ex_offloader []))) = map PRing (removals ?ms)"
    "fst (ring_at (ex_removed sh) (toAddQueue (ex_removed sh) ! off_idx (ex_offloader []))) = map PRing (additions ?ms)"
    using r by (simp_all add: ex_removed_def enqueue_at_def q ms ex_offloader_def list_ring_ops_def split_beta)
  have "?ms = [] @ AddQ (QueueOf 0) # [] @ RemoveQ (QueueOf 0) # []" by simp
  with control_messages_refine [OF list_ring_ok sh] obtain c' sh' where
    "update_queues list_ring_ops (ex_offloader [], ex_removed sh) = Inr (c', sh')"
    "serving c' \<noteq> fold intend ?ms (serving (ex_offloader []))" by metis
  then show ?thesis using conf by (auto simp: ex_offloader_def)
qed

definition ex_packet :: "nat \<Rightarrow> mbuf" where
  "ex_packet i = \<lparr>mbuf_id = i, rss = 0, frame = replicate 60 0\<rparr>"

definition ex_steady :: "mbuf \<Rightarrow> mbuf \<Rightarrow> (list_table, list_ring) shared \<Rightarrow> (list_table, list_ring) shared" where
  "ex_steady m n sh = set_ring (ToAdd 0) ([], 4095) (set_ring (QueueOf 0) ([PMbuf m], 4095) (set_ring (QueueOf 1) ([PMbuf n], 4095) sh))"


end
