(* ===== verification/Object_Bytes.thy ===== *)
theory Object_Bytes
  imports Doubles
begin

text \<open>
  The bytes of the objects that the controller and the solver send each other: \<open>uint32_t\<close> and \<open>int\<close>
  in four bytes, the lowest first, and \<open>double\<close> in eight bytes as IEEE 754 lays it out (sign, 11 bits
  of exponent, 52 bits of the significand). Both programs run on the same machine, an x86-64 one.
  Infinities and NaNs, which no rational number is, decode to 0; \<open>finite_double\<close> holds of the numbers
  a finite \<open>double\<close> can have.
\<close>

subsection \<open>Integers\<close>

fun le_bytes :: "nat \<Rightarrow> nat \<Rightarrow> u8 list" where
  "le_bytes 0 x = []"
| "le_bytes (Suc n) x = of_nat x # le_bytes n (x div 256)"

fun le_value :: "u8 list \<Rightarrow> nat" where
  "le_value [] = 0"
| "le_value (b # bs) = unat b + 256 * le_value bs"

lemma length_le_bytes [simp]: "length (le_bytes n x) = n"
  by (induction n arbitrary: x) auto

lemma le_value_bytes: "x < 256 ^ n \<Longrightarrow> le_value (le_bytes n x) = x"
proof (induction n arbitrary: x)
  case (Suc n)
  then have "le_value (le_bytes n (x div 256)) = x div 256" by (simp add: less_mult_imp_div_less mult.commute)
  moreover have "unat (of_nat x :: u8) = x mod 256" by (simp add: unat_of_nat take_bit_eq_mod)
  ultimately show ?case by (simp add: mod_mult_div_eq)
qed simp

definition bytes_u32 :: "nat \<Rightarrow> u8 list" where "bytes_u32 x = le_bytes 4 x"

definition value_u32 :: "u8 list \<Rightarrow> nat" where "value_u32 bs = le_value bs"

lemma length_bytes_u32 [simp]: "length (bytes_u32 x) = 4"
  by (simp add: bytes_u32_def)

lemma value_bytes_u32: "x \<le> UINT32_MAX \<Longrightarrow> value_u32 (bytes_u32 x) = x"
  unfolding value_u32_def bytes_u32_def by (rule le_value_bytes) (simp add: UINT32_MAX_def)

subsection \<open>Doubles\<close>

text \<open>
  The significand with its hidden bit is a multiple of the unit in the last place. Added to the
  exponent's field, the hidden bit carries over, so that normal and subnormal numbers need no cases.
\<close>

definition bits_of_double :: "double \<Rightarrow> nat" where
  "bits_of_double x = (if x = 0 then 0 else
     (if x < 0 then 2 ^ 63 else 0) + nat (ulp_exponent x + 1074) * 2 ^ 52 + nat \<lfloor>\<bar>x\<bar> / 2 powi ulp_exponent x\<rfloor>)"

definition double_of_bits :: "nat \<Rightarrow> double" where
  "double_of_bits b = (let f = (b div 2 ^ 52) mod 2 ^ 11; m = b mod 2 ^ 52;
       v = (if f = 2047 then 0 else if f = 0 then of_nat m * 2 powi (-1074) else of_nat (2 ^ 52 + m) * 2 powi (int f - 1075))
     in if b div 2 ^ 63 mod 2 = 1 then - v else v)"

definition finite_double :: "double \<Rightarrow> bool" where
  "finite_double x \<longleftrightarrow> rnd x = x \<and> \<bar>x\<bar> < 2 powi 1024"

lemma finite_significand:
  assumes "finite_double x" and "x \<noteq> 0"
  shows "\<exists>m. \<bar>x\<bar> = of_nat m * 2 powi ulp_exponent x \<and> m < 2 ^ 53 \<and> (- 1074 < ulp_exponent x \<longrightarrow> 2 ^ 52 \<le> m)
    \<and> - 1074 \<le> ulp_exponent x \<and> ulp_exponent x \<le> 971"
proof -
  let ?u = "ulp_exponent x" and ?z = "round_half_even (x / 2 powi ulp_exponent x)"
  have "x = of_int ?z * 2 powi ?u" using assms(1) by (simp add: finite_double_def rnd_eq rnd_at_def)
  then have "\<bar>x\<bar> = of_int \<bar>?z\<bar> * 2 powi ?u" by (metis abs_mult abs_of_pos of_int_abs powi_pos)
  then have m: "\<bar>x\<bar> = of_nat (nat \<bar>?z\<bar>) * 2 powi ?u" by simp
  note b = binade_bounds [OF assms(2)]
  have "\<not> 1024 \<le> binade x"
  proof
    assume "1024 \<le> binade x"
    then have "(2::rat) powi 1024 \<le> \<bar>x\<bar>" using b powi_le [of 1024 "binade x"] by linarith
    then show False using assms(1) by (simp add: finite_double_def)
  qed
  then have u: "- 1074 \<le> ?u" "?u \<le> 971" by (auto simp: ulp_exponent_def)
  have "binade x + 1 \<le> ?u + 53" by (simp add: ulp_exponent_def)
  then have "\<bar>x\<bar> < 2 powi (?u + 53)" using b powi_le [of "binade x + 1" "?u + 53"] by linarith
  then have "of_nat (nat \<bar>?z\<bar>) * 2 powi ?u < (2 ^ 53 :: rat) * 2 powi ?u" using m powi_shift [of 53 ?u] by (simp add: add.commute)
  then have "rat_of_nat (nat \<bar>?z\<bar>) < 2 ^ 53" by (rule mult_right_less_imp_less) simp
  then have lt: "nat \<bar>?z\<bar> < 2 ^ 53" by (metis of_nat_less_iff of_nat_numeral of_nat_power)
  have "- 1074 < ?u \<longrightarrow> 2 ^ 52 \<le> nat \<bar>?z\<bar>"
  proof
    assume "- 1074 < ?u"
    then have "binade x = 52 + ?u" by (auto simp: ulp_exponent_def)
    then have "(2 ^ 52 :: rat) * 2 powi ?u \<le> of_nat (nat \<bar>?z\<bar>) * 2 powi ?u" using b m powi_shift [of 52 ?u] by simp
    then have "(2 ^ 52 :: rat) \<le> of_nat (nat \<bar>?z\<bar>)" by (rule mult_right_le_imp_le) simp
    then show "2 ^ 52 \<le> nat \<bar>?z\<bar>" by (metis of_nat_le_iff of_nat_numeral of_nat_power)
  qed
  then show ?thesis using m lt u by blast
qed

lemma double_of_bits_parts:
  assumes "m < 2 ^ 52" and "f < 2047" and "s < 2"
  shows "double_of_bits (s * 2 ^ 63 + f * 2 ^ 52 + m) = (if s = 1 then - 1 else 1)
    * (if f = 0 then of_nat m * 2 powi (-1074) else of_nat (2 ^ 52 + m) * 2 powi (int f - 1075))"
proof -
  let ?b = "s * 2 ^ 63 + f * 2 ^ 52 + m"
  have "?b = m + 2 ^ 52 * (s * 2 ^ 11 + f)" by simp
  then have "?b div 2 ^ 52 = s * 2 ^ 11 + f" "?b mod 2 ^ 52 = m"
    using assms(1) by (simp_all only: div_mult_self2 mod_mult_self2 mod_less div_less add_0_left)
  moreover from this have "?b div 2 ^ 63 = s" using assms(2) div_mult2_eq [of ?b "2 ^ 52" "2 ^ 11"] by simp
  ultimately show ?thesis using assms(2,3) by (auto simp: double_of_bits_def Let_def)
qed

lemma bits_of_double_parts:
  assumes "finite_double x" and "x \<noteq> 0"
  obtains m f where "bits_of_double x = of_bool (x < 0) * 2 ^ 63 + f * 2 ^ 52 + m" and "m < 2 ^ 52" and "f < 2047"
    and "\<bar>x\<bar> = (if f = 0 then of_nat m * 2 powi (-1074) else of_nat (2 ^ 52 + m) * 2 powi (int f - 1075))"
proof -
  from finite_significand [OF assms] obtain m where m: "\<bar>x\<bar> = of_nat m * 2 powi ulp_exponent x" "m < 2 ^ 53"
    "- 1074 < ulp_exponent x \<longrightarrow> 2 ^ 52 \<le> m" "- 1074 \<le> ulp_exponent x" "ulp_exponent x \<le> 971" by blast
  have "\<bar>x\<bar> / 2 powi ulp_exponent x = of_nat m" using m(1) by simp
  then have b: "bits_of_double x = of_bool (x < 0) * 2 ^ 63 + nat (ulp_exponent x + 1074) * 2 ^ 52 + m"
    using assms(2) by (simp add: bits_of_double_def)
  show thesis
  proof (cases "2 ^ 52 \<le> m")
    case True
    let ?f = "nat (ulp_exponent x + 1074) + 1"
    have "m - 2 ^ 52 < 2 ^ 52" "2 ^ 52 + (m - 2 ^ 52) = m" using True m(2) by simp_all
    moreover have "?f < 2047" "int ?f - 1075 = ulp_exponent x" using m(4,5) by auto
    moreover have "bits_of_double x = of_bool (x < 0) * 2 ^ 63 + ?f * 2 ^ 52 + (m - 2 ^ 52)" using b True by simp
    ultimately show thesis using that [of ?f "m - 2 ^ 52"] m(1) by simp
  next
    case False
    then have "ulp_exponent x = - 1074" using m(3,4) by linarith
    then show thesis using that [of 0 m] b m(1) False by simp
  qed
qed

lemma double_bits:
  assumes "finite_double x"
  shows "double_of_bits (bits_of_double x) = x" and "bits_of_double x < 2 ^ 64"
proof -
  have "double_of_bits (bits_of_double x) = x \<and> bits_of_double x < 2 ^ 64"
  proof (cases "x = 0")
    case True
    then show ?thesis by (simp add: bits_of_double_def double_of_bits_def)
  next
    case False
    from bits_of_double_parts [OF assms this] obtain m f where b: "bits_of_double x = of_bool (x < 0) * 2 ^ 63 + f * 2 ^ 52 + m"
      "m < 2 ^ 52" "f < 2047" "\<bar>x\<bar> = (if f = 0 then of_nat m * 2 powi (-1074) else of_nat (2 ^ 52 + m) * 2 powi (int f - 1075))" .
    have "double_of_bits (bits_of_double x) = (if x < 0 then - 1 else 1) * \<bar>x\<bar>"
      unfolding b(1) using double_of_bits_parts [OF b(2,3), of "of_bool (x < 0)"] b(4) by simp
    moreover have "bits_of_double x < 2 ^ 64" unfolding b(1) using b(2,3) by (cases "x < 0") auto
    ultimately show ?thesis by (simp split: if_splits)
  qed
  then show "double_of_bits (bits_of_double x) = x" and "bits_of_double x < 2 ^ 64" by simp_all
qed

definition bytes_double :: "double \<Rightarrow> u8 list" where "bytes_double x = le_bytes 8 (bits_of_double x)"

definition value_double :: "u8 list \<Rightarrow> double" where "value_double bs = double_of_bits (le_value bs)"

lemma length_bytes_double [simp]: "length (bytes_double x) = 8"
  by (simp add: bytes_double_def)

lemma value_bytes_double: "finite_double x \<Longrightarrow> value_double (bytes_double x) = x"
  using double_bits [of x] by (simp add: value_double_def bytes_double_def le_value_bytes)

lemma finite_double_rnd: "\<bar>rnd x\<bar> < 2 powi 1024 \<Longrightarrow> finite_double (rnd x)"
  by (simp add: finite_double_def)

lemma finite_double_dyadic:
  assumes "\<bar>z\<bar> \<le> 2 ^ 53" and "- 1074 \<le> e" and "e \<le> 970"
  shows "finite_double (of_int z * 2 powi e)"
proof -
  have "rat_of_int \<bar>z\<bar> \<le> of_int (2 ^ 53)" using assms(1) by (simp only: of_int_le_iff)
  then have z: "rat_of_int \<bar>z\<bar> \<le> 2 ^ 53" by simp
  have "\<bar>of_int z * 2 powi e\<bar> = rat_of_int \<bar>z\<bar> * 2 powi e" by (simp add: abs_mult)
  also have "\<dots> \<le> 2 ^ 53 * 2 powi e" using z by (rule mult_right_mono) simp
  also have "\<dots> = 2 powi (53 + e)" by (simp add: powi_shift)
  also have "\<dots> < 2 powi 1024" using assms(3) by (intro power_int_strict_increasing) simp_all
  finally show ?thesis using rnd_dyadic [OF assms(1,2)] by (simp add: finite_double_def)
qed

lemma finite_double_0 [simp]: "finite_double 0"
  by (simp add: finite_double_def)

subsection \<open>Arrays\<close>

text \<open>The bytes of an array are those of its elements one after the other.\<close>

definition bytes_of :: "('a \<Rightarrow> u8 list) \<Rightarrow> 'a list \<Rightarrow> u8 list" where
  "bytes_of enc xs = concat (map enc xs)"

definition elements :: "nat \<Rightarrow> (u8 list \<Rightarrow> 'a) \<Rightarrow> nat \<Rightarrow> u8 list \<Rightarrow> 'a list" where
  "elements k dec n bs = map (\<lambda>i. dec (take k (drop (i * k) bs))) [0..<n]"

lemma length_bytes_of: "\<forall>x\<in>set xs. length (enc x) = k \<Longrightarrow> length (bytes_of enc xs) = length xs * k"
  unfolding bytes_of_def by (induction xs) auto

lemma elements_bytes_of:
  assumes "\<forall>x\<in>set xs. length (enc x) = k" and "\<forall>x\<in>set xs. dec (enc x) = x"
  shows "elements k dec (length xs) (bytes_of enc xs) = xs"
  using assms
proof (induction xs)
  case (Cons x xs)
  have "elements k dec (length (x # xs)) (bytes_of enc (x # xs)) = x # elements k dec (length xs) (bytes_of enc xs)"
    using Cons.prems by (simp add: elements_def bytes_of_def upt_conv_Cons map_Suc_upt [symmetric] comp_def del: upt_Suc)
  then show ?case using Cons by simp
qed (simp add: elements_def)

end
