(* ===== verification/Pipes.thy ===== *)
theory Pipes
  imports Object_Bytes "HOL-Library.State_Monad"
begin

text \<open>
  The named pipes between the controller and the solver, and the functions \<open>from_pipe\<close> and \<open>to_pipe\<close>
  both programs have (\<open>dyssectcontroller.cc\<close>, \<open>solver.cpp\<close>). POSIX promises of a pipe that bytes come
  out in the order they went in, that a \<open>write\<close> of at most \<open>PIPE_BUF\<close> bytes is not split, and that a
  \<open>read\<close> returns at least what one such write put in, if it asks for as much; a longer write may be
  taken in part, and a read may return less than it asks for. These laws are the locale
  \<open>byte_channel\<close>; \<open>fifo\<close> is a pipe whose timing is an arbitrary schedule.
\<close>

definition PIPE_BUF :: nat where "PIPE_BUF = 4096"

subsection \<open>The two loops\<close>

text \<open>
  \<open>rd n\<close> is \<open>read(fd, addr + i, n)\<close>: the bytes it returns, none at the end of the file. The result of
  \<open>from_pipe\<close> is the bytes stored, the code's \<open>i\<close> is their number.
\<close>

function from_pipe :: "(nat \<Rightarrow> 'f \<Rightarrow> u8 list \<times> 'f) \<Rightarrow> nat \<Rightarrow> 'f \<Rightarrow> u8 list \<times> 'f" where
  "from_pipe rd len f = (if len = 0 then ([], f)
     else let (bs, f') = rd len f in if bs = [] then ([], f')
     else let (bs', f'') = from_pipe rd (len - length bs) f' in (bs @ bs', f''))"
  by pat_completeness auto
termination by (relation "measure (\<lambda>(rd, len, f). len)") auto

text \<open>\<open>wr bs\<close> is \<open>write(fd, addr + i, len - i)\<close>: how many of the bytes it took.\<close>

function to_pipe :: "(u8 list \<Rightarrow> 'f \<Rightarrow> nat \<times> 'f) \<Rightarrow> u8 list \<Rightarrow> 'f \<Rightarrow> nat \<times> 'f" where
  "to_pipe wr bs f = (if bs = [] then (0, f)
     else let (n, f') = wr bs f in if n = 0 then (0, f')
     else let (i, f'') = to_pipe wr (drop n bs) f' in (n + i, f''))"
  by pat_completeness auto
termination by (relation "measure (\<lambda>(wr, bs, f). length bs)") auto

declare from_pipe.simps [simp del] to_pipe.simps [simp del]

subsection \<open>What a pipe promises\<close>

text \<open>What is left of the written chunks when \<open>n\<close> bytes have been read.\<close>

fun drop_bytes :: "nat \<Rightarrow> u8 list list \<Rightarrow> u8 list list" where
  "drop_bytes n [] = []"
| "drop_bytes n (c # cs) = (if n < length c then drop n c # cs else drop_bytes (n - length c) cs)"

lemma concat_drop_bytes: "concat (drop_bytes n cs) = drop n (concat cs)"
  by (induction n cs rule: drop_bytes.induct) auto

lemma drop_bytes_nonempty: "[] \<notin> set cs \<Longrightarrow> [] \<notin> set (drop_bytes n cs)"
  by (induction n cs rule: drop_bytes.induct) auto

lemma drop_bytes_0: "[] \<notin> set cs \<Longrightarrow> drop_bytes 0 cs = cs"
  by (cases cs) auto

lemma drop_bytes_add: "drop_bytes n (drop_bytes m cs) = drop_bytes (m + n) cs"
proof (induction m cs rule: drop_bytes.induct)
  case (2 m c cs)
  then show ?case by (cases "m < length c") (auto simp: less_diff_conv2 add.commute)
qed simp

lemma drop_bytes_all: "[] \<notin> set cs \<Longrightarrow> [] \<notin> set ds \<Longrightarrow> drop_bytes (length (concat cs)) (cs @ ds) = ds"
proof (induction cs)
  case Nil
  then show ?case by (simp add: drop_bytes_0)
qed simp

locale byte_source =
  fixes rd :: "nat \<Rightarrow> 'f \<Rightarrow> u8 list \<times> 'f" and pending :: "'f \<Rightarrow> u8 list list"
  assumes rd_length: "rd n f = (bs, f') \<Longrightarrow> length bs \<le> n"
    and rd_order: "rd n f = (bs, f') \<Longrightarrow> bs = take (length bs) (concat (pending f))"
    and rd_rest: "rd n f = (bs, f') \<Longrightarrow> pending f' = drop_bytes (length bs) (pending f)"
    and rd_atomic: "rd n f = (bs, f') \<Longrightarrow> pending f = c # cs \<Longrightarrow> min n (length c) \<le> length bs"
begin

text \<open>A read of no more than one write put in returns all it asks for.\<close>

lemma read_whole:
  assumes "pending f = (xs @ ys) # cs" and "length xs = n" and "[] \<notin> set cs"
  shows "\<exists>f'. rd n f = (xs, f') \<and> pending f' = (if ys = [] then cs else ys # cs)"
proof -
  obtain bs f' where r: "rd n f = (bs, f')" by (cases "rd n f")
  have "length bs = n" using rd_length [OF r] rd_atomic [OF r assms(1)] assms(2) by simp
  moreover from this have "bs = xs" using rd_order [OF r] assms(1,2) by simp
  ultimately show ?thesis using r rd_rest [OF r] assms by (auto simp: drop_bytes_0)
qed

text \<open>The loop returns all it asks for, however often a read returns less.\<close>

lemma from_pipe_whole:
  assumes "[] \<notin> set (pending f)"
  shows "\<exists>f'. from_pipe rd n f = (take n (concat (pending f)), f') \<and> pending f' = drop_bytes n (pending f)"
  using assms
proof (induction n arbitrary: f rule: less_induct)
  case (less n)
  obtain bs f' where r: "rd n f = (bs, f')" by (cases "rd n f")
  show ?case
  proof (cases "n = 0 \<or> pending f = []")
    case True
    then show ?thesis
    proof (cases "n = 0")
      case False
      then have "bs = []" "pending f' = []" using True rd_order [OF r] rd_rest [OF r] by auto
      then show ?thesis using False True r by (subst from_pipe.simps) simp
    qed (use less.prems in \<open>simp add: from_pipe.simps drop_bytes_0\<close>)
  next
    case False
    then obtain c cs where c: "pending f = c # cs" by (cases "pending f") auto
    then have "0 < length c" using less.prems by auto
    then have "0 < length bs" using rd_atomic [OF r c] False by (auto simp: min_def split: if_splits)
    then have ne: "bs \<noteq> []" "0 < length bs" by auto
    have f': "[] \<notin> set (pending f')" using rd_rest [OF r] less.prems by (simp add: drop_bytes_nonempty)
    from ne False have "n - length bs < n" by simp
    from less.IH [OF this f'] obtain f'' where
      "from_pipe rd (n - length bs) f' = (take (n - length bs) (concat (pending f')), f'')"
      "pending f'' = drop_bytes (n - length bs) (pending f')" by blast
    moreover have "bs @ take (n - length bs) (concat (pending f')) = take n (concat (pending f))"
    proof -
      have "take n (concat (pending f)) = take (length bs) (concat (pending f)) @ take (n - length bs) (drop (length bs) (concat (pending f)))"
        using rd_length [OF r] by (metis le_add_diff_inverse take_add)
      then show ?thesis using rd_order [OF r] by (simp add: rd_rest [OF r] concat_drop_bytes)
    qed
    ultimately show ?thesis using r ne False rd_length [OF r]
      by (subst from_pipe.simps) (simp add: rd_rest [OF r] drop_bytes_add)
  qed
qed

end

locale byte_channel = byte_source rd pending
  for rd :: "nat \<Rightarrow> 'f \<Rightarrow> u8 list \<times> 'f" and pending :: "'f \<Rightarrow> u8 list list" +
  fixes wr :: "u8 list \<Rightarrow> 'f \<Rightarrow> nat \<times> 'f"
  assumes wr_some: "wr bs f = (n, f') \<Longrightarrow> bs \<noteq> [] \<Longrightarrow> 0 < n \<and> n \<le> length bs"
    and wr_atomic: "wr bs f = (n, f') \<Longrightarrow> length bs \<le> PIPE_BUF \<Longrightarrow> n = length bs"
    and wr_appends: "wr bs f = (n, f') \<Longrightarrow> bs \<noteq> [] \<Longrightarrow> pending f' = pending f @ [take n bs]"
begin

lemma write_whole:
  assumes "bs \<noteq> []" and "length bs \<le> PIPE_BUF"
  shows "\<exists>f'. wr bs f = (length bs, f') \<and> pending f' = pending f @ [bs]"
proof -
  obtain n f' where w: "wr bs f = (n, f')" by (cases "wr bs f")
  then show ?thesis using wr_atomic [OF w assms(2)] wr_appends [OF w assms(1)] by simp
qed

lemma to_pipe_whole:
  "\<exists>f' ds. to_pipe wr bs f = (length bs, f') \<and> pending f' = pending f @ ds \<and> concat ds = bs \<and> [] \<notin> set ds"
proof (induction bs arbitrary: f rule: length_induct)
  case (1 bs)
  obtain n f' where w: "wr bs f = (n, f')" by (cases "wr bs f")
  show ?case
  proof (cases "bs = []")
    case False
    then have n: "0 < n" "n \<le> length bs" "pending f' = pending f @ [take n bs]" using wr_some [OF w] wr_appends [OF w] by auto
    then have "length (drop n bs) < length bs" using False by simp
    with 1 obtain f'' ds where "to_pipe wr (drop n bs) f' = (length (drop n bs), f'')"
      "pending f'' = pending f' @ ds" "concat ds = drop n bs" "[] \<notin> set ds" by blast
    then show ?thesis using w n False
      by (subst to_pipe.simps) (auto intro!: exI [of _ "take n bs # ds"])
  qed (auto simp: to_pipe.simps)
qed

text \<open>A write of the loop that one \<open>write\<close> may take whole is one chunk.\<close>

lemma to_pipe_atomic:
  assumes "bs \<noteq> []" and "length bs \<le> PIPE_BUF"
  shows "\<exists>f'. to_pipe wr bs f = (length bs, f') \<and> pending f' = pending f @ [bs]"
  using write_whole [OF assms, of f] assms(1) by (auto simp: to_pipe.simps [of wr bs] to_pipe.simps [of wr "[]"])

end

subsection \<open>A pipe with a schedule\<close>

text \<open>
  \<open>chunks\<close> is what was written and not yet read. Each read finds the first chunk and as many more as
  \<open>arrivals\<close> says; each write of more than \<open>PIPE_BUF\<close> bytes takes as many as \<open>accepts\<close> says.
\<close>

record fifo =
  chunks :: "u8 list list"
  arrivals :: "nat list"
  accepts :: "nat list"

definition next_of :: "'a \<Rightarrow> 'a list \<Rightarrow> 'a" where
  "next_of d xs = (case xs of [] \<Rightarrow> d | x # _ \<Rightarrow> x)"

definition fifo_read :: "nat \<Rightarrow> fifo \<Rightarrow> u8 list \<times> fifo" where
  "fifo_read n f = (let bs = take n (concat (take (Suc (next_of 0 (arrivals f))) (chunks f)))
     in (bs, f\<lparr>chunks := drop_bytes (length bs) (chunks f), arrivals := tl (arrivals f)\<rparr>))"

definition fifo_write :: "u8 list \<Rightarrow> fifo \<Rightarrow> nat \<times> fifo" where
  "fifo_write bs f = (let n = (if length bs \<le> PIPE_BUF then length bs else max 1 (min (length bs) (next_of (length bs) (accepts f))))
     in (n, f\<lparr>chunks := chunks f @ (if bs = [] then [] else [take n bs]),
              accepts := (if length bs \<le> PIPE_BUF then accepts f else tl (accepts f))\<rparr>))"

lemma take_take_concat: "take (length (take n (concat (take k cs)))) (concat cs) = take n (concat (take k cs))"
proof -
  have "concat cs = concat (take k cs) @ concat (drop k cs)" by (metis append_take_drop_id concat_append)
  then show ?thesis by (simp add: min_def)
qed

interpretation fifo: byte_channel fifo_read chunks fifo_write
proof unfold_locales
  fix n f bs f'
  assume "fifo_read n f = (bs, f')"
  then have r: "bs = take n (concat (take (Suc (next_of 0 (arrivals f))) (chunks f)))"
    "f' = f\<lparr>chunks := drop_bytes (length bs) (chunks f), arrivals := tl (arrivals f)\<rparr>"
    by (auto simp: fifo_read_def Let_def)
  show "length bs \<le> n" using r(1) by simp
  show "bs = take (length bs) (concat (chunks f))" unfolding r(1) take_take_concat ..
  show "chunks f' = drop_bytes (length bs) (chunks f)" using r(2) by simp
  show "min n (length c) \<le> length bs" if "chunks f = c # cs" for c cs using r(1) that by simp
next
  fix bs f n f'
  assume w: "fifo_write bs f = (n, f')"
  show "0 < n \<and> n \<le> length bs" if "bs \<noteq> []" using w that by (auto simp: fifo_write_def Let_def)
  show "n = length bs" if "length bs \<le> PIPE_BUF" using w that by (auto simp: fifo_write_def Let_def)
  show "chunks f' = chunks f @ [take n bs]" if "bs \<noteq> []" using w that by (auto simp: fifo_write_def Let_def)
qed

end
