(* ===== verification/Solver_Protocol.thy ===== *)
theory Solver_Protocol
  imports Pipes Short_Epoch
begin

text \<open>
  The messages between the controller (\<open>run_short_solver\<close> in \<open>dyssectcontroller.cc\<close>) and the solver
  (\<open>short_solver\<close>, \<open>long_solver\<close> in \<open>solver.cpp\<close>), as both sides write and read them, over any pipe
  that keeps the promises of \<open>byte_channel\<close>. Both sides ignore how much a single \<open>read\<close> or \<open>write\<close>
  transfers; what it does not fill keeps its old bytes (\<open>stack n\<close>: those of \<open>n\<close> bytes of local variables
  that were never set).
\<close>

subsection \<open>Reading and writing objects\<close>

definition write_var :: "(u8 list \<Rightarrow> 'f \<Rightarrow> nat \<times> 'f) \<Rightarrow> u8 list \<Rightarrow> ('f, nat) state" where
  "write_var wr bs = State (wr bs)"

definition write_array :: "(u8 list \<Rightarrow> 'f \<Rightarrow> nat \<times> 'f) \<Rightarrow> u8 list \<Rightarrow> ('f, nat) state" where
  "write_array wr bs = State (to_pipe wr bs)"

definition overwrite :: "u8 list \<Rightarrow> u8 list \<Rightarrow> u8 list" where
  "overwrite old bs = bs @ drop (length bs) old"

definition read_var :: "(nat \<Rightarrow> 'f \<Rightarrow> u8 list \<times> 'f) \<Rightarrow> (u8 list \<Rightarrow> 'a) \<Rightarrow> u8 list \<Rightarrow> ('f, 'a) state" where
  "read_var rd dec old = State (\<lambda>f. let (bs, f') = rd (length old) f in (dec (overwrite old bs), f'))"

definition read_array :: "(nat \<Rightarrow> 'f \<Rightarrow> u8 list \<times> 'f) \<Rightarrow> nat \<Rightarrow> (u8 list \<Rightarrow> 'a) \<Rightarrow> nat \<Rightarrow> u8 list \<Rightarrow> ('f, 'a list) state" where
  "read_array rd k dec n old = State (\<lambda>f. let (bs, f') = from_pipe rd (n * k) f in (elements k dec n (overwrite old bs), f'))"

subsection \<open>The request\<close>

definition LONG :: nat where "LONG = 0"
definition SHORT :: nat where "SHORT = 1"

text \<open>\<open>A\<close> and \<open>O\<close> are arrays of \<open>total_shards * total_cores\<close> and \<open>total_cores * total_cores\<close> numbers.\<close>

definition send_request :: "(u8 list \<Rightarrow> 'f \<Rightarrow> nat \<times> 'f) \<Rightarrow> controller \<Rightarrow> ('t, 'r) shared \<Rightarrow> ('f, nat) state" where
  "send_request wr c sh = do {
     write_var wr (bytes_u32 SHORT);
     write_var wr (bytes_u32 (num_W c));
     write_var wr (bytes_u32 (num_E c));
     write_var wr (bytes_u32 (total_cores c));
     write_var wr (bytes_u32 (total_shards sh));
     write_var wr (bytes_double (Cap (slo c)));
     write_var wr (bytes_double (Csp (slo c)));
     write_var wr (bytes_double (SLOp (slo c)));
     write_var wr (bytes_double (Car (slo c)));
     write_var wr (bytes_double (Csr (slo c)));
     write_var wr (bytes_double (SLOr (slo c)));
     write_var wr (bytes_double (Tr c));
     write_var wr (bytes_double (Tp c));
     State_Monad.traverse_list (\<lambda>s. write_var wr (bytes_double (shard_V (shards sh ! s)))) [0..<total_shards sh];
     State_Monad.traverse_list (\<lambda>s. write_var wr (bytes_double (shard_r (shards sh ! s)))) [0..<total_shards sh];
     write_array wr (bytes_of bytes_u32 (mat_A c));
     write_array wr (bytes_of bytes_u32 (mat_O c))
   }"

record short_request =
  req_W :: nat
  req_E :: nat
  MAXCORES :: nat
  SHARDS :: nat
  req_slo :: slo_params
  req_T :: double
  req_Te :: double
  req_V :: "double list"
  req_rold :: "double list"
  Aold :: "nat list"
  Oold :: "nat list"

definition receive_u32 :: "(nat \<Rightarrow> 'f \<Rightarrow> u8 list \<times> 'f) \<Rightarrow> (nat \<Rightarrow> u8 list) \<Rightarrow> ('f, nat) state" where
  "receive_u32 rd stack = read_var rd value_u32 (stack 4)"

definition receive_double :: "(nat \<Rightarrow> 'f \<Rightarrow> u8 list \<times> 'f) \<Rightarrow> (nat \<Rightarrow> u8 list) \<Rightarrow> ('f, double) state" where
  "receive_double rd stack = read_var rd value_double (stack 8)"

definition receive_short :: "(nat \<Rightarrow> 'f \<Rightarrow> u8 list \<times> 'f) \<Rightarrow> (nat \<Rightarrow> u8 list) \<Rightarrow> ('f, short_request) state" where
  "receive_short rd stack = do {
     W \<leftarrow> receive_u32 rd stack;
     E \<leftarrow> receive_u32 rd stack;
     mc \<leftarrow> receive_u32 rd stack;
     ts \<leftarrow> receive_u32 rd stack;
     cap \<leftarrow> receive_double rd stack;
     csp \<leftarrow> receive_double rd stack;
     slop \<leftarrow> receive_double rd stack;
     car \<leftarrow> receive_double rd stack;
     csr \<leftarrow> receive_double rd stack;
     slor \<leftarrow> receive_double rd stack;
     T \<leftarrow> receive_double rd stack;
     Te \<leftarrow> receive_double rd stack;
     V \<leftarrow> read_array rd 8 value_double ts (stack (ts * 8));
     rold \<leftarrow> read_array rd 8 value_double ts (stack (ts * 8));
     A \<leftarrow> read_array rd 4 value_u32 (ts * mc) (stack (ts * mc * 4));
     O' \<leftarrow> read_array rd 4 value_u32 (mc * mc) (stack (mc * mc * 4));
     State_Monad.return \<lparr>req_W = W, req_E = E, MAXCORES = mc, SHARDS = ts,
       req_slo = \<lparr>Cap = cap, Csp = csp, SLOp = dmul slop (10 ^ 9), Car = car, Csr = csr, SLOr = dmul slor (10 ^ 9)\<rparr>,
       req_T = dmul T (10 ^ 9), req_Te = dmul Te (10 ^ 9), req_V = V, req_rold = rold, Aold = A, Oold = O'\<rparr>
   }"

text \<open>The request that a controller's state stands for.\<close>

definition request_of :: "controller \<Rightarrow> ('t, 'r) shared \<Rightarrow> short_request" where
  "request_of c sh = \<lparr>req_W = num_W c, req_E = num_E c, MAXCORES = total_cores c, SHARDS = total_shards sh,
     req_slo = (slo c)\<lparr>SLOp := dmul (SLOp (slo c)) (10 ^ 9), SLOr := dmul (SLOr (slo c)) (10 ^ 9)\<rparr>,
     req_T = dmul (Tr c) (10 ^ 9), req_Te = dmul (Tp c) (10 ^ 9),
     req_V = map (\<lambda>s. shard_V (shards sh ! s)) [0..<total_shards sh],
     req_rold = map (\<lambda>s. shard_r (shards sh ! s)) [0..<total_shards sh], Aold = mat_A c, Oold = mat_O c\<rparr>"

subsection \<open>The answer\<close>

definition send_answer :: "(u8 list \<Rightarrow> 'f \<Rightarrow> nat \<times> 'f) \<Rightarrow> solver_answer \<Rightarrow> ('f, nat) state" where
  "send_answer wr a = (case a of
     None \<Rightarrow> write_var wr (bytes_u32 0)
   | Some (r, A, O') \<Rightarrow> do {
       write_var wr (bytes_u32 1);
       write_array wr (bytes_of bytes_double r);
       write_array wr (bytes_of bytes_u32 A);
       write_array wr (bytes_of bytes_u32 O')
     })"

definition receive_answer :: "(nat \<Rightarrow> 'f \<Rightarrow> u8 list \<times> 'f) \<Rightarrow> (nat \<Rightarrow> u8 list) \<Rightarrow> controller \<Rightarrow> ('t, 'r) shared \<Rightarrow> ('f, solver_answer) state" where
  "receive_answer rd stack c sh = do {
     v \<leftarrow> receive_u32 rd stack;
     if v = 1 then do {
       r \<leftarrow> State_Monad.traverse_list (\<lambda>s. read_var rd value_double (bytes_double (r_new (shards sh ! s)))) [0..<total_shards sh];
       A \<leftarrow> read_array rd 4 value_u32 (total_shards sh * total_cores c) (bytes_of bytes_u32 (new_A c));
       O' \<leftarrow> read_array rd 4 value_u32 (total_cores c * total_cores c) (bytes_of bytes_u32 (new_O c));
       State_Monad.return (Some (r, A, O'))
     } else State_Monad.return None
   }"

subsection \<open>Composing what is written and what is read\<close>

text \<open>
  \<open>emits pend m P\<close>: \<open>m\<close> appends to the pipe chunks that satisfy \<open>P\<close>. \<open>takes pend m cs x\<close>: where the
  chunks \<open>cs\<close> come first, \<open>m\<close> returns \<open>x\<close> and leaves what comes after them.
\<close>

definition emits :: "('f \<Rightarrow> u8 list list) \<Rightarrow> ('f, 'a) state \<Rightarrow> (u8 list list \<Rightarrow> bool) \<Rightarrow> bool" where
  "emits pend m P \<longleftrightarrow> (\<forall>f. \<exists>x f' cs. run_state m f = (x, f') \<and> pend f' = pend f @ cs \<and> P cs \<and> [] \<notin> set cs)"

definition takes :: "('f \<Rightarrow> u8 list list) \<Rightarrow> ('f, 'a) state \<Rightarrow> u8 list list \<Rightarrow> 'a \<Rightarrow> bool" where
  "takes pend m cs x \<longleftrightarrow> (\<forall>f rest. pend f = cs @ rest \<longrightarrow> [] \<notin> set rest \<longrightarrow> (\<exists>f'. run_state m f = (x, f') \<and> pend f' = rest))"

definition joins :: "(u8 list list \<Rightarrow> bool) \<Rightarrow> (u8 list list \<Rightarrow> bool) \<Rightarrow> u8 list list \<Rightarrow> bool" where
  "joins P Q cs \<longleftrightarrow> (\<exists>as bs. cs = as @ bs \<and> P as \<and> Q bs)"

lemma emits_bind:
  assumes "emits pend m P" and "\<And>x. emits pend (k x) Q"
  shows "emits pend (State_Monad.bind m k) (joins P Q)"
  unfolding emits_def
proof
  fix f
  from assms(1) obtain x f1 as where 1: "run_state m f = (x, f1)" "pend f1 = pend f @ as" "P as" "[] \<notin> set as"
    unfolding emits_def by blast
  from assms(2) obtain y f2 bs where 2: "run_state (k x) f1 = (y, f2)" "pend f2 = pend f1 @ bs" "Q bs" "[] \<notin> set bs"
    unfolding emits_def by blast
  show "\<exists>y f' cs. run_state (State_Monad.bind m k) f = (y, f') \<and> pend f' = pend f @ cs \<and> joins P Q cs \<and> [] \<notin> set cs"
    using 1 2 by (intro exI [of _ y] exI [of _ f2] exI [of _ "as @ bs"]) (auto simp: joins_def)
qed

lemma joins_exact [simp]: "joins (\<lambda>cs. cs = as) (\<lambda>cs. cs = bs) = (\<lambda>cs. cs = as @ bs)"
  by (auto simp: joins_def)

lemma emits_return: "emits pend (State_Monad.return x) (\<lambda>cs. cs = [])"
  by (simp add: emits_def)

lemma emits_traverse:
  assumes "\<And>x. emits pend (m x) (\<lambda>cs. cs = [h x])"
  shows "emits pend (State_Monad.traverse_list m xs) (\<lambda>cs. cs = map h xs)"
proof (induction xs)
  case (Cons x xs)
  have "emits pend (State_Monad.bind (m x) (\<lambda>y. State_Monad.bind (State_Monad.traverse_list m xs) (\<lambda>ys. State_Monad.return (y # ys))))
    (joins (\<lambda>cs. cs = [h x]) (joins (\<lambda>cs. cs = map h xs) (\<lambda>cs. cs = [])))"
    by (intro emits_bind assms Cons emits_return)
  then show ?case by simp
qed (simp add: emits_return)

lemma takes_bind:
  assumes "takes pend m as x" and "takes pend (k x) bs y" and "[] \<notin> set bs"
  shows "takes pend (State_Monad.bind m k) (as @ bs) y"
  unfolding takes_def
proof (intro allI impI)
  fix f rest
  assume p: "pend f = (as @ bs) @ rest" "[] \<notin> set rest"
  then obtain f1 where 1: "run_state m f = (x, f1)" "pend f1 = bs @ rest" using assms(1,3) by (fastforce simp: takes_def)
  then obtain f2 where "run_state (k x) f1 = (y, f2)" "pend f2 = rest" using assms(2) p(2) by (fastforce simp: takes_def)
  then show "\<exists>f'. run_state (State_Monad.bind m k) f = (y, f') \<and> pend f' = rest" using 1 by simp
qed

lemma takesD:
  "takes pend m cs x \<Longrightarrow> pend f = cs @ rest \<Longrightarrow> [] \<notin> set rest \<Longrightarrow> \<exists>f'. run_state m f = (x, f') \<and> pend f' = rest"
  by (simp add: takes_def)

lemma takes_all: "takes pend m cs x \<Longrightarrow> pend f = cs \<Longrightarrow> \<exists>f'. run_state m f = (x, f') \<and> pend f' = []"
  using takesD [of pend m cs x f "[]"] by auto

lemma emits_fresh:
  "emits pend m P \<Longrightarrow> pend f = [] \<Longrightarrow> \<exists>x f'. run_state m f = (x, f') \<and> P (pend f') \<and> [] \<notin> set (pend f')"
  unfolding emits_def by (drule spec [of _ f]) auto

lemma takes_return: "takes pend (State_Monad.return x) [] x"
  by (simp add: takes_def)

context byte_channel begin

lemma write_var_emits: "bs \<noteq> [] \<Longrightarrow> length bs \<le> PIPE_BUF \<Longrightarrow> emits pending (write_var wr bs) (\<lambda>cs. cs = [bs])"
  using write_whole unfolding emits_def write_var_def by fastforce

lemma write_array_emits: "emits pending (write_array wr bs) (\<lambda>cs. concat cs = bs)"
  using to_pipe_whole unfolding emits_def write_array_def by fastforce

lemma write_array_atomic:
  assumes "length bs \<le> PIPE_BUF"
  shows "emits pending (write_array wr bs) (\<lambda>cs. cs = (if bs = [] then [] else [bs]))"
proof (cases "bs = []")
  case True
  then show ?thesis by (simp add: emits_def write_array_def to_pipe.simps)
next
  case False
  then show ?thesis using to_pipe_atomic [OF False assms] unfolding emits_def write_array_def by fastforce
qed

lemma read_var_takes:
  assumes "length bs = length old" and "dec bs = x"
  shows "takes pending (read_var rd dec old) [bs] x"
  unfolding takes_def
proof (intro allI impI)
  fix f rest
  assume "pending f = [bs] @ rest" "[] \<notin> set rest"
  then obtain f' where "rd (length old) f = (bs, f')" "pending f' = rest" using read_whole [of f bs "[]" rest "length old"] assms(1) by auto
  then show "\<exists>f'. run_state (read_var rd dec old) f = (x, f') \<and> pending f' = rest"
    using assms by (simp add: read_var_def overwrite_def)
qed

text \<open>An array comes out as it went in, whatever writes and reads it was split into.\<close>

lemma read_array_takes:
  assumes "[] \<notin> set cs" and "concat cs = bytes_of enc xs" and "length old = n * k" and "length xs = n"
    and "\<forall>x\<in>set xs. length (enc x) = k" and "\<forall>x\<in>set xs. dec (enc x) = x"
  shows "takes pending (read_array rd k dec n old) cs xs"
  unfolding takes_def
proof (intro allI impI)
  fix f rest
  assume p: "pending f = cs @ rest" "[] \<notin> set rest"
  then have "[] \<notin> set (pending f)" using assms(1) by auto
  from from_pipe_whole [OF this] obtain f' where r: "from_pipe rd (n * k) f = (take (n * k) (concat (pending f)), f')"
    "pending f' = drop_bytes (n * k) (pending f)" by blast
  have l: "length (bytes_of enc xs) = n * k" using length_bytes_of [OF assms(5)] assms(4) by simp
  then have "pending f' = rest" using r(2) drop_bytes_all [OF assms(1) p(2)] p(1) assms(2) by simp
  moreover have "take (n * k) (concat (pending f)) = bytes_of enc xs" using p(1) assms(2) l by simp
  moreover have "elements k dec n (bytes_of enc xs) = xs" using elements_bytes_of [OF assms(5,6)] assms(4) by simp
  ultimately show "\<exists>f'. run_state (read_array rd k dec n old) f = (xs, f') \<and> pending f' = rest"
    using r(1) assms(3) l by (simp add: read_array_def overwrite_def)
qed

text \<open>Read one by one, an array comes out right if it was put in by one write.\<close>

lemma read_each:
  assumes "\<forall>x\<in>set xs. length (enc x) = k" and "\<forall>x\<in>set xs. dec (enc x) = x" and "0 < k"
    and "length is = length xs" and "\<forall>i\<in>set is. length (old i) = k"
  shows "takes pending (State_Monad.traverse_list (\<lambda>i. read_var rd dec (old i)) is) (if xs = [] then [] else [bytes_of enc xs]) xs"
  using assms(1,2,4,5)
proof (induction xs arbitrary: "is")
  case Nil
  then show ?case by (simp add: takes_return)
next
  case (Cons x xs)
  obtain i js where i: "is = i # js" using Cons.prems(3) by (cases "is") auto
  show ?case unfolding takes_def
  proof (intro allI impI)
    fix f rest
    assume "pending f = (if x # xs = [] then [] else [bytes_of enc (x # xs)]) @ rest" and rest: "[] \<notin> set rest"
    then have p: "pending f = (enc x @ bytes_of enc xs) # rest" by (simp add: bytes_of_def)
    have l: "length (enc x) = length (old i)" using Cons.prems(1,4) i by simp
    obtain f1 where 1: "rd (length (old i)) f = (enc x, f1)"
      "pending f1 = (if bytes_of enc xs = [] then rest else bytes_of enc xs # rest)" using read_whole [OF p l rest] by blast
    have "bytes_of enc xs = [] \<longleftrightarrow> xs = []"
      using length_bytes_of [of xs enc k] Cons.prems(1) assms(3) by (cases xs) (auto simp: bytes_of_def)
    then have p1: "pending f1 = (if xs = [] then [] else [bytes_of enc xs]) @ rest" using 1(2) by simp
    have "takes pending (State_Monad.traverse_list (\<lambda>i. read_var rd dec (old i)) js) (if xs = [] then [] else [bytes_of enc xs]) xs"
      by (rule Cons.IH) (use Cons.prems i in auto)
    then obtain f2 where
      2: "run_state (State_Monad.traverse_list (\<lambda>i. read_var rd dec (old i)) js) f1 = (xs, f2)" "pending f2 = rest"
      using p1 rest unfolding takes_def by blast
    have "run_state (read_var rd dec (old i)) f = (x, f1)" using 1(1) l Cons.prems(2) by (simp add: read_var_def overwrite_def)
    then show "\<exists>f'. run_state (State_Monad.traverse_list (\<lambda>i. read_var rd dec (old i)) is) f = (x # xs, f') \<and> pending f' = rest"
      using 2 i by simp
  qed
qed

end

subsection \<open>Request and answer arrive\<close>

definition sendable :: "controller \<Rightarrow> ('t, 'r) shared \<Rightarrow> bool" where
  "sendable c sh \<longleftrightarrow> num_W c \<le> UINT32_MAX \<and> num_E c \<le> UINT32_MAX \<and> total_cores c \<le> UINT32_MAX \<and> total_shards sh \<le> UINT32_MAX
     \<and> (\<forall>v\<in>{Cap (slo c), Csp (slo c), SLOp (slo c), Car (slo c), Csr (slo c), SLOr (slo c), Tr c, Tp c}. finite_double v)
     \<and> (\<forall>s<total_shards sh. finite_double (shard_V (shards sh ! s)) \<and> finite_double (shard_r (shards sh ! s)))
     \<and> length (mat_A c) = total_shards sh * total_cores c \<and> length (mat_O c) = total_cores c * total_cores c
     \<and> (\<forall>v\<in>set (mat_A c) \<union> set (mat_O c). v \<le> UINT32_MAX)"

definition answerable :: "controller \<Rightarrow> ('t, 'r) shared \<Rightarrow> solver_answer \<Rightarrow> bool" where
  "answerable c sh a \<longleftrightarrow> (\<forall>r A O'. a = Some (r, A, O') \<longrightarrow> length r = total_shards sh \<and> (\<forall>v\<in>set r. finite_double v)
     \<and> length A = total_shards sh * total_cores c \<and> length O' = total_cores c * total_cores c \<and> (\<forall>v\<in>set A \<union> set O'. v \<le> UINT32_MAX))"

text \<open>The chunks of the single writes of a request.\<close>

definition request_head :: "controller \<Rightarrow> ('t, 'r) shared \<Rightarrow> u8 list list" where
  "request_head c sh = [bytes_u32 (num_W c), bytes_u32 (num_E c), bytes_u32 (total_cores c), bytes_u32 (total_shards sh),
     bytes_double (Cap (slo c)), bytes_double (Csp (slo c)), bytes_double (SLOp (slo c)),
     bytes_double (Car (slo c)), bytes_double (Csr (slo c)), bytes_double (SLOr (slo c)), bytes_double (Tr c), bytes_double (Tp c)]
     @ map (\<lambda>s. bytes_double (shard_V (shards sh ! s))) [0..<total_shards sh]
     @ map (\<lambda>s. bytes_double (shard_r (shards sh ! s))) [0..<total_shards sh]"

lemma bytes_nonempty [simp]: "bytes_u32 x \<noteq> []" "bytes_double v \<noteq> []" "[] \<noteq> bytes_u32 x" "[] \<noteq> bytes_double v"
  using length_bytes_u32 [of x] length_bytes_double [of v] by fastforce+

lemma emits_conseq: "emits pend m P \<Longrightarrow> (\<And>cs. P cs \<Longrightarrow> Q cs) \<Longrightarrow> emits pend m Q"
  unfolding emits_def by meson

lemma takes_cons:
  "takes pend m [a] x \<Longrightarrow> takes pend (k x) bs y \<Longrightarrow> [] \<notin> set bs \<Longrightarrow> takes pend (State_Monad.bind m k) (a # bs) y"
  using takes_bind [of pend m "[a]" x k bs y] by simp

context byte_channel begin

lemma write_number_emits:
  "emits pending (write_var wr (bytes_u32 x)) (\<lambda>cs. cs = [bytes_u32 x])"
  "emits pending (write_var wr (bytes_double v)) (\<lambda>cs. cs = [bytes_double v])"
  by (simp_all add: write_var_emits PIPE_BUF_def)

lemma read_number_takes:
  assumes "length (stack 4) = 4" and "length (stack 8) = 8"
  shows "x \<le> UINT32_MAX \<Longrightarrow> takes pending (receive_u32 rd stack) [bytes_u32 x] x"
    "finite_double v \<Longrightarrow> takes pending (receive_double rd stack) [bytes_double v] v"
  unfolding receive_u32_def receive_double_def
  using assms by (simp_all add: read_var_takes value_bytes_u32 value_bytes_double)

lemma request_written:
  "emits pending (send_request wr c sh) (\<lambda>cs. \<exists>as bs. cs = bytes_u32 SHORT # request_head c sh @ as @ bs
     \<and> concat as = bytes_of bytes_u32 (mat_A c) \<and> concat bs = bytes_of bytes_u32 (mat_O c))"
  unfolding send_request_def
  by (rule emits_conseq, (rule emits_bind write_number_emits emits_traverse write_array_emits)+)
    (auto simp: joins_def request_head_def)

lemma request_read:
  assumes "sendable c sh" and st: "\<And>n. length (stack n) = n" and cs: "[] \<notin> set as" "[] \<notin> set bs"
    "concat as = bytes_of bytes_u32 (mat_A c)" "concat bs = bytes_of bytes_u32 (mat_O c)"
  shows "takes pending (receive_short rd stack) (request_head c sh @ as @ bs) (request_of c sh)"
proof -
  have u: "num_W c \<le> UINT32_MAX" "num_E c \<le> UINT32_MAX" "total_cores c \<le> UINT32_MAX" "total_shards sh \<le> UINT32_MAX"
    and d: "finite_double (Cap (slo c))" "finite_double (Csp (slo c))" "finite_double (SLOp (slo c))" "finite_double (Car (slo c))"
    "finite_double (Csr (slo c))" "finite_double (SLOr (slo c))" "finite_double (Tr c)" "finite_double (Tp c)"
    and len: "length (mat_A c) = total_shards sh * total_cores c" "length (mat_O c) = total_cores c * total_cores c"
    and ent: "\<forall>v\<in>set (mat_A c). value_u32 (bytes_u32 v) = v" "\<forall>v\<in>set (mat_O c). value_u32 (bytes_u32 v) = v"
    using assms(1) by (auto simp: sendable_def value_bytes_u32)
  note num = read_number_takes [where stack = stack, OF st st]
  let ?V = "map (\<lambda>s. shard_V (shards sh ! s)) [0..<total_shards sh]" and ?r = "map (\<lambda>s. shard_r (shards sh ! s)) [0..<total_shards sh]"
  have vr: "\<forall>v\<in>set ?V. value_double (bytes_double v) = v" "\<forall>v\<in>set ?r. value_double (bytes_double v) = v"
    using assms(1) by (auto simp: sendable_def value_bytes_double)
  have V: "takes pending (read_array rd 8 value_double (total_shards sh) (stack (total_shards sh * 8))) (map (bytes_double \<circ> (\<lambda>s. shard_V (shards sh ! s))) [0..<total_shards sh]) ?V"
    by (rule read_array_takes [where enc = bytes_double]) (use vr st in \<open>auto simp: bytes_of_def\<close>)
  have r: "takes pending (read_array rd 8 value_double (total_shards sh) (stack (total_shards sh * 8))) (map (bytes_double \<circ> (\<lambda>s. shard_r (shards sh ! s))) [0..<total_shards sh]) ?r"
    by (rule read_array_takes [where enc = bytes_double]) (use vr st in \<open>auto simp: bytes_of_def\<close>)
  have A: "takes pending (read_array rd 4 value_u32 (total_shards sh * total_cores c) (stack (total_shards sh * total_cores c * 4))) as (mat_A c)"
    by (rule read_array_takes [where enc = bytes_u32]) (use cs ent st len in auto)
  have O': "takes pending (read_array rd 4 value_u32 (total_cores c * total_cores c) (stack (total_cores c * total_cores c * 4))) bs (mat_O c)"
    by (rule read_array_takes [where enc = bytes_u32]) (use cs ent st len in auto)
  have "request_of c sh = \<lparr>req_W = num_W c, req_E = num_E c, MAXCORES = total_cores c, SHARDS = total_shards sh,
      req_slo = \<lparr>Cap = Cap (slo c), Csp = Csp (slo c), SLOp = dmul (SLOp (slo c)) (10 ^ 9), Car = Car (slo c), Csr = Csr (slo c), SLOr = dmul (SLOr (slo c)) (10 ^ 9)\<rparr>,
      req_T = dmul (Tr c) (10 ^ 9), req_Te = dmul (Tp c) (10 ^ 9), req_V = ?V, req_rold = ?r, Aold = mat_A c, Oold = mat_O c\<rparr>"
    by (cases "slo c") (simp add: request_of_def)
  moreover have "takes pending (receive_short rd stack) (request_head c sh @ as @ bs @ []) \<dots>"
    unfolding receive_short_def request_head_def append_Cons append_Nil append_assoc
    by ((rule takes_cons num u d)+, (rule takes_bind V [unfolded comp_def] r [unfolded comp_def] A O' takes_return)+) (use cs in auto)
  ultimately show ?thesis by simp
qed

lemma answer_written:
  assumes "answerable c sh a" and "8 * total_shards sh \<le> PIPE_BUF"
  shows "emits pending (send_answer wr a) (\<lambda>cs. case a of None \<Rightarrow> cs = [bytes_u32 0]
    | Some (r, A, O') \<Rightarrow> \<exists>as bs. cs = bytes_u32 1 # (if r = [] then [] else [bytes_of bytes_double r]) @ as @ bs
       \<and> concat as = bytes_of bytes_u32 A \<and> concat bs = bytes_of bytes_u32 O')"
proof (cases a)
  case None
  then show ?thesis by (simp add: send_answer_def write_number_emits)
next
  case (Some x)
  obtain r A O' where x: "x = (r, A, O')" by (cases x)
  have l: "length (bytes_of bytes_double r) = 8 * total_shards sh"
    using assms(1) length_bytes_of [of r bytes_double 8] by (simp add: Some x answerable_def)
  then have ne: "bytes_of bytes_double r = [] \<longleftrightarrow> r = []" using assms(1) by (cases r) (auto simp: bytes_of_def)
  have "emits pending (write_array wr (bytes_of bytes_double r)) (\<lambda>cs. cs = (if r = [] then [] else [bytes_of bytes_double r]))"
    using write_array_atomic [of "bytes_of bytes_double r"] assms(2) l ne by simp
  then show ?thesis unfolding send_answer_def Some x option.case prod.case
    by - (rule emits_conseq, (rule emits_bind write_number_emits | assumption | rule write_array_emits)+, auto simp: joins_def, blast+)
qed

lemma answer_read:
  assumes "answerable c sh a" and st: "\<And>n. length (stack n) = n" and "length (new_A c) = total_shards sh * total_cores c"
    and "length (new_O c) = total_cores c * total_cores c"
    and "case a of None \<Rightarrow> cs = [bytes_u32 0]
      | Some (r, A, O') \<Rightarrow> \<exists>as bs. cs = bytes_u32 1 # (if r = [] then [] else [bytes_of bytes_double r]) @ as @ bs
         \<and> concat as = bytes_of bytes_u32 A \<and> concat bs = bytes_of bytes_u32 O'" and "[] \<notin> set cs"
  shows "takes pending (receive_answer rd stack c sh) cs a"
proof -
  note num = read_number_takes(1) [where stack = stack, OF st st]
  show ?thesis
  proof (cases a)
    case None
    then have "cs = bytes_u32 0 # []" using assms(5) by simp
    then show ?thesis unfolding receive_answer_def None
      by (simp only:) (rule takes_cons, rule num, simp, simp add: takes_return, simp)
  next
    case (Some x)
    obtain r A O' where x: "x = (r, A, O')" by (cases x)
    from assms(5) obtain as bs where cs: "cs = bytes_u32 1 # (if r = [] then [] else [bytes_of bytes_double r]) @ as @ bs @ []"
      "concat as = bytes_of bytes_u32 A" "concat bs = bytes_of bytes_u32 O'" by (auto simp: Some x)
    have ne: "[] \<notin> set as" "[] \<notin> set bs" "[] \<notin> set (if r = [] then [] else [bytes_of bytes_double r])" using assms(6) cs(1) by auto
    have ok: "length r = total_shards sh" "\<forall>v\<in>set r. value_double (bytes_double v) = v"
      "length A = total_shards sh * total_cores c" "length O' = total_cores c * total_cores c"
      "\<forall>v\<in>set A. value_u32 (bytes_u32 v) = v" "\<forall>v\<in>set O'. value_u32 (bytes_u32 v) = v"
      using assms(1) by (auto simp: Some x answerable_def value_bytes_double value_bytes_u32)
    have 1: "takes pending (State_Monad.traverse_list (\<lambda>s. read_var rd value_double (bytes_double (r_new (shards sh ! s)))) [0..<total_shards sh])
      (if r = [] then [] else [bytes_of bytes_double r]) r"
      by (rule read_each [where k = 8]) (use ok in auto)
    have 2: "takes pending (read_array rd 4 value_u32 (total_shards sh * total_cores c) (bytes_of bytes_u32 (new_A c))) as A"
      by (rule read_array_takes [where enc = bytes_u32]) (use ok ne cs assms(3) length_bytes_of [of "new_A c" bytes_u32 4] in auto)
    have 3: "takes pending (read_array rd 4 value_u32 (total_cores c * total_cores c) (bytes_of bytes_u32 (new_O c))) bs O'"
      by (rule read_array_takes [where enc = bytes_u32]) (use ok ne cs assms(4) length_bytes_of [of "new_O c" bytes_u32 4] in auto)
    have "takes pending (receive_answer rd stack c sh) (bytes_u32 1 # (if r = [] then [] else [bytes_of bytes_double r]) @ as @ bs @ []) (Some (r, A, O'))"
      unfolding receive_answer_def
      apply (rule takes_cons, rule num)
        apply (simp add: UINT32_MAX_def)
       apply (subst if_P [OF refl])
       apply (rule takes_bind [OF 1] takes_bind [OF 2] takes_bind [OF 3] takes_return)+
      using ne by auto
    then show ?thesis by (simp only: cs(1) Some x)
  qed
qed

end

end
