(* ===== verification/Solver_Model.thy ===== *)
theory Solver_Model
  imports Solver_Protocol
begin

text \<open>
  The optimisation problems that \<open>short_solver\<close> and \<open>long_solver\<close> (\<open>solver.cpp\<close>) hand to Gurobi, as
  predicates on the values of their variables, one definition per block of the code. The code leaves
  Gurobi's tolerances at their defaults: a constraint may be violated by \<open>FEAS_TOL\<close>, an integer
  variable may be \<open>INT_TOL\<close> away from an integer, and the objective of an \<open>OPTIMAL\<close> solution may be
  \<open>MIP_GAP\<close> above the best one. With tolerances 0 the predicates are the problem itself.
\<close>

definition FEAS_TOL :: rat where "FEAS_TOL = 1 / 10 ^ 6"
definition INT_TOL :: rat where "INT_TOL = 1 / 10 ^ 5"
definition MIP_GAP :: rat where "MIP_GAP = 1 / 10 ^ 4"
definition MIP_GAP_ABS :: rat where "MIP_GAP_ABS = 1 / 10 ^ 10"

record tolerance =
  feas :: rat
  int_feas :: rat

definition gurobi_tol :: tolerance where "gurobi_tol = \<lparr>feas = FEAS_TOL, int_feas = INT_TOL\<rparr>"
definition exact :: tolerance where "exact = \<lparr>feas = 0, int_feas = 0\<rparr>"

definition eq_within :: "tolerance \<Rightarrow> rat \<Rightarrow> rat \<Rightarrow> bool" where
  "eq_within t a b \<longleftrightarrow> \<bar>a - b\<bar> \<le> feas t"

definition le_within :: "tolerance \<Rightarrow> rat \<Rightarrow> rat \<Rightarrow> bool" where
  "le_within t a b \<longleftrightarrow> a \<le> b + feas t"

definition bounded :: "tolerance \<Rightarrow> rat \<Rightarrow> rat \<Rightarrow> rat \<Rightarrow> bool" where
  "bounded t l u v \<longleftrightarrow> le_within t l v \<and> le_within t v u"

definition binary :: "tolerance \<Rightarrow> rat \<Rightarrow> bool" where
  "binary t v \<longleftrightarrow> \<bar>v\<bar> \<le> int_feas t \<or> \<bar>v - 1\<bar> \<le> int_feas t"

text \<open>\<open>addGenConstrIndicator\<close> and \<open>addGenConstrAnd\<close>.\<close>

definition indicator :: "tolerance \<Rightarrow> rat \<Rightarrow> rat \<Rightarrow> bool \<Rightarrow> bool" where
  "indicator t b v P \<longleftrightarrow> (\<bar>b - v\<bar> \<le> int_feas t \<longrightarrow> P)"

definition conjunction :: "tolerance \<Rightarrow> rat \<Rightarrow> rat list \<Rightarrow> bool" where
  "conjunction t r vs \<longleftrightarrow> binary t r \<and> (\<bar>r - 1\<bar> \<le> int_feas t \<longleftrightarrow> (\<forall>v\<in>set vs. \<bar>v - 1\<bar> \<le> int_feas t))"

text \<open>The bound of the variables made with \<open>ub09\<close>.\<close>

definition MAX_LOAD :: double where "MAX_LOAD = rnd (9 / 10)"

subsection \<open>The short problem\<close>

text \<open>The arrays of variables both problems have.\<close>

record core_vars =
  x_A :: "nat \<Rightarrow> rat"
  x_O :: "nat \<Rightarrow> rat"
  x_r :: "nat \<Rightarrow> rat"
  load_w :: "nat \<Rightarrow> rat"
  load_e :: "nat \<Rightarrow> rat"
  vars_w :: "nat \<Rightarrow> rat"
  vars_e :: "nat \<Rightarrow> rat"
  avg_w :: "nat \<Rightarrow> rat"
  avg_e :: "nat \<Rightarrow> rat"

record short_vars = core_vars +
  load_we :: "nat \<Rightarrow> rat"
  diff_v :: "nat \<Rightarrow> rat"
  temp_v :: "nat \<Rightarrow> rat"

definition vsize :: "short_request \<Rightarrow> nat" where
  "vsize q = SHARDS q * MAXCORES q + MAXCORES q * MAXCORES q"

definition core_bounds :: "tolerance \<Rightarrow> nat \<Rightarrow> nat \<Rightarrow> 'z core_vars_scheme \<Rightarrow> bool" where
  "core_bounds t ts mc x \<longleftrightarrow> (\<forall>j<ts * mc. binary t (x_A x j)) \<and> (\<forall>j<mc * mc. binary t (x_O x j))
     \<and> (\<forall>s<ts. bounded t 0 1 (x_r x s))
     \<and> (\<forall>i<mc. bounded t 0 MAX_LOAD (load_w x i) \<and> bounded t 0 MAX_LOAD (load_e x i)
          \<and> le_within t 0 (vars_w x i) \<and> le_within t 0 (vars_e x i) \<and> le_within t 0 (avg_w x i) \<and> le_within t 0 (avg_e x i))"

definition short_bounds :: "tolerance \<Rightarrow> short_request \<Rightarrow> short_vars \<Rightarrow> bool" where
  "short_bounds t q x \<longleftrightarrow> core_bounds t (SHARDS q) (MAXCORES q) x
     \<and> (\<forall>i<MAXCORES q. bounded t 0 MAX_LOAD (load_we x i))
     \<and> (\<forall>i<vsize q. bounded t (- 1) 1 (diff_v x i) \<and> bounded t (- 1) 1 (temp_v x i))"

text \<open>\<open>diff\<close> is what changes of the two matrices; the objective is its sum.\<close>

definition short_changes :: "tolerance \<Rightarrow> short_request \<Rightarrow> short_vars \<Rightarrow> bool" where
  "short_changes t q x \<longleftrightarrow> (let n = SHARDS q * MAXCORES q in
     (\<forall>j<n. eq_within t (temp_v x j) (x_A x j - of_nat (Aold q ! j)) \<and> eq_within t (diff_v x j) \<bar>temp_v x j\<bar>)
     \<and> (\<forall>j<MAXCORES q * MAXCORES q. eq_within t (temp_v x (n + j)) (x_O x j - of_nat (Oold q ! j))
          \<and> eq_within t (diff_v x (n + j)) \<bar>temp_v x (n + j)\<bar>))"

definition short_objective :: "short_request \<Rightarrow> short_vars \<Rightarrow> rat" where
  "short_objective q x = (\<Sum>i<vsize q. diff_v x i)"

definition short_relation :: "tolerance \<Rightarrow> short_request \<Rightarrow> short_vars \<Rightarrow> bool" where
  "short_relation t q x \<longleftrightarrow> (let W = req_W q; E = req_E q; mc = MAXCORES q in
     if E = 0 then
       (\<forall>i<mc. eq_within t (\<Sum>j<mc. x_O x (j * mc + i)) 0) \<and> (\<forall>s<SHARDS q. eq_within t (x_r x s) 0)
     else
       (\<forall>i<W. eq_within t (\<Sum>j<E. x_O x (j * mc + i)) 1 \<and> eq_within t (\<Sum>j\<in>{E..<mc}. x_O x (j * mc + i)) 0)
       \<and> (\<forall>i\<in>{W..<mc}. eq_within t (\<Sum>j<mc. x_O x (j * mc + i)) 0)
       \<and> (\<forall>j<E. le_within t 1 (\<Sum>i<mc. x_O x (j * mc + i))))"

text \<open>Each shard has one core, and all of the first \<open>W\<close> cores and no others have shards.\<close>

definition one_core_per_shard :: "tolerance \<Rightarrow> nat \<Rightarrow> nat \<Rightarrow> 'z core_vars_scheme \<Rightarrow> bool" where
  "one_core_per_shard t ts mc x \<longleftrightarrow> (\<forall>s<ts. eq_within t (\<Sum>i<mc. x_A x (s * mc + i)) 1)"

definition shards_on :: "nat \<Rightarrow> nat \<Rightarrow> 'z core_vars_scheme \<Rightarrow> nat \<Rightarrow> rat" where
  "shards_on ts mc x i = (\<Sum>s<ts. x_A x (s * mc + i))"

definition short_assignment :: "tolerance \<Rightarrow> short_request \<Rightarrow> short_vars \<Rightarrow> bool" where
  "short_assignment t q x \<longleftrightarrow> (let W = req_W q; mc = MAXCORES q; ts = SHARDS q in
     one_core_per_shard t ts mc x
     \<and> (\<forall>i<W. le_within t 1 (shards_on ts mc x i)) \<and> (\<forall>i\<in>{W..<mc}. eq_within t (shards_on ts mc x i) 0)
     \<and> (\<forall>i<mc - 1. le_within t (shards_on ts mc x (i + 1)) (shards_on ts mc x i)))"

text \<open>The factor of the delay: \<open>((C_a * C_a + C_s * C_s) / 2) * T\<close> in doubles.\<close>

definition variability :: "double \<Rightarrow> double \<Rightarrow> double \<Rightarrow> double" where
  "variability Ca Cs T = dmul (ddiv (dadd (dmul Ca Ca) (dmul Cs Cs)) 2) T"

definition delay_ok :: "tolerance \<Rightarrow> rat \<Rightarrow> rat \<Rightarrow> rat \<Rightarrow> double \<Rightarrow> double \<Rightarrow> bool" where
  "delay_ok t load vars avg k SLO \<longleftrightarrow> eq_within t (vars * (1 - load)) load \<and> eq_within t avg (vars * k) \<and> le_within t avg SLO"

definition volume_kept :: "nat \<Rightarrow> nat \<Rightarrow> double list \<Rightarrow> 'z core_vars_scheme \<Rightarrow> nat \<Rightarrow> rat" where
  "volume_kept ts mc V x i = (\<Sum>s<ts. x_A x (s * mc + i) * V ! s * (1 - x_r x s))"

definition volume_offloaded :: "nat \<Rightarrow> nat \<Rightarrow> double list \<Rightarrow> 'z core_vars_scheme \<Rightarrow> nat \<Rightarrow> rat" where
  "volume_offloaded ts mc V x i = (\<Sum>s<ts. x_A x (s * mc + i) * V ! s * x_r x s)"

definition short_working :: "tolerance \<Rightarrow> short_request \<Rightarrow> short_vars \<Rightarrow> bool" where
  "short_working t q x \<longleftrightarrow> (let mc = MAXCORES q; ts = SHARDS q; P = req_slo q in
     \<forall>i<mc. eq_within t (volume_kept ts mc (req_V q) x i) (load_w x i)
       \<and> eq_within t (volume_offloaded ts mc (req_V q) x i) (load_we x i)
       \<and> delay_ok t (load_w x i) (vars_w x i) (avg_w x i) (variability (Cap P) (Csp P) (req_T q)) (SLOp P))"

definition short_offloading :: "tolerance \<Rightarrow> u32 \<Rightarrow> short_request \<Rightarrow> short_vars \<Rightarrow> bool" where
  "short_offloading t scale q x \<longleftrightarrow> (let mc = MAXCORES q; P = req_slo q in
     \<forall>j<mc. eq_within t (of_nat (unat scale) * (\<Sum>i<mc. x_O x (j * mc + i) * load_we x i)) (load_e x j)
       \<and> delay_ok t (load_e x j) (vars_e x j) (avg_e x j) (variability (Car P) (Csr P) (req_Te q)) (SLOr P))"

definition short_feasible :: "tolerance \<Rightarrow> u32 \<Rightarrow> short_request \<Rightarrow> short_vars \<Rightarrow> bool" where
  "short_feasible t scale q x \<longleftrightarrow> short_bounds t q x \<and> short_changes t q x \<and> short_relation t q x
     \<and> short_assignment t q x \<and> short_working t q x \<and> short_offloading t scale q x"

subsection \<open>The long problem\<close>

record long_request =
  l_MAXCORES :: nat
  l_SHARDS :: nat
  l_slo :: slo_params
  l_T :: double
  l_Te :: double
  l_V :: "double list"
  l_Aold :: "nat list"
  l_Oold :: "nat list"

record long_vars = core_vars +
  r_factor :: rat
  x_w :: "nat \<Rightarrow> rat"
  x_e :: "nat \<Rightarrow> rat"
  temp_w1 :: "nat \<Rightarrow> rat"
  temp_w2 :: "nat \<Rightarrow> rat"
  temp_e1 :: "nat \<Rightarrow> rat"
  x_res :: "nat \<Rightarrow> rat"

definition long_bounds :: "tolerance \<Rightarrow> long_request \<Rightarrow> long_vars \<Rightarrow> bool" where
  "long_bounds t q x \<longleftrightarrow> core_bounds t (l_SHARDS q) (l_MAXCORES q) x \<and> binary t (r_factor x)
     \<and> (\<forall>i<l_MAXCORES q. binary t (x_w x i) \<and> binary t (x_e x i)
          \<and> bounded t (- 1) 1 (temp_w1 x i) \<and> bounded t (- 1) 1 (temp_w2 x i) \<and> bounded t (- 1) 1 (temp_e1 x i) \<and> le_within t 0 (x_res x i))"

text \<open>The objective: how many cores are used.\<close>

definition long_objective :: "long_request \<Rightarrow> long_vars \<Rightarrow> rat" where
  "long_objective q x = (\<Sum>i<l_MAXCORES q. x_w x i) + (\<Sum>i<l_MAXCORES q. x_e x i)"

definition long_cores :: "tolerance \<Rightarrow> long_request \<Rightarrow> long_vars \<Rightarrow> bool" where
  "long_cores t q x \<longleftrightarrow> (let W = (\<Sum>i<l_MAXCORES q. x_w x i); E = (\<Sum>i<l_MAXCORES q. x_e x i) in
     le_within t 1 W \<and> le_within t (W + E) (of_nat (l_MAXCORES q)) \<and> le_within t E (W / 2)
     \<and> indicator t (x_e x 0) 1 (eq_within t (r_factor x) 1) \<and> indicator t (x_e x 0) 0 (eq_within t (r_factor x) 0)
     \<and> (\<forall>s<l_SHARDS q. eq_within t (x_r x s * r_factor x) (x_r x s)))"

definition long_assignment :: "tolerance \<Rightarrow> long_request \<Rightarrow> long_vars \<Rightarrow> bool" where
  "long_assignment t q x \<longleftrightarrow> (let mc = l_MAXCORES q; ts = l_SHARDS q in
     one_core_per_shard t ts mc x
     \<and> (\<forall>i<mc. conjunction t (x_res x i) [x_w x i, x_e x 0]
          \<and> indicator t (x_w x i) 0 (eq_within t (shards_on ts mc x i) 0)
          \<and> indicator t (x_w x i) 0 (eq_within t (\<Sum>j<mc. x_O x (j * mc + i)) 0)
          \<and> indicator t (x_res x i) 1 (eq_within t (\<Sum>j<mc. x_O x (j * mc + i)) 1)
          \<and> indicator t (x_w x i) 1 (le_within t 1 (shards_on ts mc x i)))
     \<and> (\<forall>j<mc. indicator t (x_e x j) 0 (eq_within t (\<Sum>i<mc. x_O x (j * mc + i)) 0)
          \<and> indicator t (x_e x j) 1 (le_within t 1 (\<Sum>i<mc. x_O x (j * mc + i))))
     \<and> (\<forall>i<mc - 1. le_within t (shards_on ts mc x (i + 1)) (shards_on ts mc x i)
          \<and> le_within t (x_w x (i + 1)) (x_w x i) \<and> le_within t (x_e x (i + 1)) (x_e x i)))"

definition long_working :: "tolerance \<Rightarrow> long_request \<Rightarrow> long_vars \<Rightarrow> bool" where
  "long_working t q x \<longleftrightarrow> (let mc = l_MAXCORES q; ts = l_SHARDS q; P = l_slo q in
     \<forall>i<mc. eq_within t (temp_w1 x i) (volume_kept ts mc (l_V q) x i) \<and> eq_within t (temp_w2 x i) (volume_offloaded ts mc (l_V q) x i)
       \<and> eq_within t (load_w x i) (x_w x i * temp_w1 x i)
       \<and> delay_ok t (load_w x i) (vars_w x i) (avg_w x i) (variability (Cap P) (Csp P) (l_T q)) (SLOp P))"

definition long_offloading :: "tolerance \<Rightarrow> u32 \<Rightarrow> long_request \<Rightarrow> long_vars \<Rightarrow> bool" where
  "long_offloading t scale q x \<longleftrightarrow> (let mc = l_MAXCORES q; P = l_slo q in
     \<forall>j<mc. eq_within t (temp_e1 x j) (\<Sum>i<mc. x_O x (j * mc + i) * temp_w2 x i)
       \<and> eq_within t (load_e x j) (of_nat (unat scale) * x_e x j * temp_e1 x j)
       \<and> delay_ok t (load_e x j) (vars_e x j) (avg_e x j) (variability (Car P) (Csr P) (l_Te q)) (SLOr P))"

definition long_feasible :: "tolerance \<Rightarrow> u32 \<Rightarrow> long_request \<Rightarrow> long_vars \<Rightarrow> bool" where
  "long_feasible t scale q x \<longleftrightarrow> long_bounds t q x \<and> long_cores t q x \<and> long_assignment t q x
     \<and> long_working t q x \<and> long_offloading t scale q x"

end
