(* ===== verification/Solver.thy ===== *)
theory Solver
  imports Solver_Model
begin

text \<open>
  The solver process (\<open>solver.cpp\<close>): \<open>short_solver\<close>, \<open>long_solver\<close> and the loop of \<open>main\<close>, and the
  controller's \<open>run_short_solver\<close>, which sends a request and waits for the answer. Gurobi's
  \<open>optimize\<close> is a parameter: it finds an optimal solution, ends with another status (infeasible, time
  limit), or throws.
\<close>

datatype 'x grb = Optimal 'x | NotOptimal | Throws

text \<open>\<open>std::round\<close>, and its conversion to \<open>uint32_t\<close>.\<close>

definition cround :: "rat \<Rightarrow> int" where
  "cround v = (if v < 0 then - \<lfloor>1 / 2 - v\<rfloor> else \<lfloor>v + 1 / 2\<rfloor>)"

definition round_u32 :: "rat \<Rightarrow> nat" where
  "round_u32 v = unat (of_int (cround v) :: u32)"

subsection \<open>The short solver\<close>

definition short_answer :: "short_request \<Rightarrow> short_vars \<Rightarrow> double list \<times> nat list \<times> nat list" where
  "short_answer q x = (map (x_r x) [0..<SHARDS q], map (\<lambda>k. round_u32 (x_A x k)) [0..<SHARDS q * MAXCORES q],
     map (\<lambda>k. round_u32 (x_O x k)) [0..<MAXCORES q * MAXCORES q])"

text \<open>
  The answer pipe after an answer, or \<open>None\<close> if none is written: Gurobi throws (the exception is
  caught and printed) or the pipe cannot be opened.
\<close>

definition short_solver :: "(nat \<Rightarrow> 'f \<Rightarrow> u8 list \<times> 'f) \<Rightarrow> (u8 list \<Rightarrow> 'f \<Rightarrow> nat \<times> 'f) \<Rightarrow> (nat \<Rightarrow> u8 list)
    \<Rightarrow> (u32 \<Rightarrow> short_request \<Rightarrow> short_vars grb) \<Rightarrow> bool \<Rightarrow> u32 \<Rightarrow> 'f \<Rightarrow> 'f \<Rightarrow> 'f option" where
  "short_solver rd wr stack opt opens scale fin fout = (let (q, _) = run_state (receive_short rd stack) fin in
     case opt scale q of Throws \<Rightarrow> None
     | NotOptimal \<Rightarrow> if opens then Some (snd (run_state (send_answer wr None) fout)) else None
     | Optimal x \<Rightarrow> if opens then Some (snd (run_state (send_answer wr (Some (short_answer q x))) fout)) else None)"

subsection \<open>The long solver\<close>

text \<open>\<open>SCALE\<close> is a \<open>uint32_t\<close>; the long solver assigns 0.4 to it. Before, as a global variable, it is 0.\<close>

definition INITIAL_SCALE :: u32 where "INITIAL_SCALE = 0"

definition long_SCALE :: u32 where "long_SCALE = of_int \<lfloor>rnd (4 / 10)\<rfloor>"

definition receive_long :: "(nat \<Rightarrow> 'f \<Rightarrow> u8 list \<times> 'f) \<Rightarrow> (nat \<Rightarrow> u8 list) \<Rightarrow> ('f, long_request) state" where
  "receive_long rd stack = do {
     mc \<leftarrow> receive_u32 rd stack;
     ts \<leftarrow> receive_u32 rd stack;
     cap \<leftarrow> receive_double rd stack;
     csp \<leftarrow> receive_double rd stack;
     slop \<leftarrow> receive_double rd stack;
     car \<leftarrow> receive_double rd stack;
     csr \<leftarrow> receive_double rd stack;
     slor \<leftarrow> receive_double rd stack;
     T \<leftarrow> receive_double rd stack;
     Te \<leftarrow> receive_double rd stack;
     V \<leftarrow> read_array rd 8 value_double ts (stack (ts * 8));
     A \<leftarrow> read_array rd 4 value_u32 (ts * mc) (stack (ts * mc * 4));
     O' \<leftarrow> read_array rd 4 value_u32 (mc * mc) (stack (mc * mc * 4));
     State_Monad.return \<lparr>l_MAXCORES = mc, l_SHARDS = ts,
       l_slo = \<lparr>Cap = cap, Csp = csp, SLOp = dmul slop (10 ^ 9), Car = car, Csr = csr, SLOr = dmul slor (10 ^ 9)\<rparr>,
       l_T = dmul T (10 ^ 9), l_Te = dmul Te (10 ^ 9), l_V = V, l_Aold = A, l_Oold = O'\<rparr>
   }"

text \<open>\<open>workings\<close> and \<open>offloadings\<close>.\<close>

definition count_cores :: "(nat \<Rightarrow> rat) \<Rightarrow> nat \<Rightarrow> u32" where
  "count_cores v n = fold (\<lambda>i k. k + of_int (cround (v i))) [0..<n] 0"

definition send_long_answer :: "(u8 list \<Rightarrow> 'f \<Rightarrow> nat \<times> 'f) \<Rightarrow> (u32 \<times> u32) option \<Rightarrow> ('f, nat) state" where
  "send_long_answer wr a = (case a of
     None \<Rightarrow> write_var wr (bytes_u32 0)
   | Some (w, e) \<Rightarrow> do {
       write_var wr (bytes_u32 1);
       write_var wr (bytes_u32 (unat w));
       write_var wr (bytes_u32 (unat e))
     })"

definition long_solver :: "(nat \<Rightarrow> 'f \<Rightarrow> u8 list \<times> 'f) \<Rightarrow> (u8 list \<Rightarrow> 'f \<Rightarrow> nat \<times> 'f) \<Rightarrow> (nat \<Rightarrow> u8 list)
    \<Rightarrow> (u32 \<Rightarrow> long_request \<Rightarrow> long_vars grb) \<Rightarrow> bool \<Rightarrow> 'f \<Rightarrow> 'f \<Rightarrow> u32 \<times> 'f option" where
  "long_solver rd wr stack opt opens fin fout = (let (q, _) = run_state (receive_long rd stack) fin; scale = long_SCALE in
     (scale, case opt scale q of Throws \<Rightarrow> None
     | NotOptimal \<Rightarrow> if opens then Some (snd (run_state (send_long_answer wr None) fout)) else None
     | Optimal x \<Rightarrow> if opens then Some (snd (run_state (send_long_answer wr
         (Some (count_cores (x_w x) (l_MAXCORES q), count_cores (x_e x) (l_MAXCORES q)))) fout)) else None))"

subsection \<open>The loop of the solver\<close>

text \<open>One request: the new value of \<open>SCALE\<close> and the answer pipe.\<close>

definition serve_request :: "(nat \<Rightarrow> 'f \<Rightarrow> u8 list \<times> 'f) \<Rightarrow> (u8 list \<Rightarrow> 'f \<Rightarrow> nat \<times> 'f) \<Rightarrow> (nat \<Rightarrow> u8 list)
    \<Rightarrow> (u32 \<Rightarrow> long_request \<Rightarrow> long_vars grb) \<Rightarrow> (u32 \<Rightarrow> short_request \<Rightarrow> short_vars grb) \<Rightarrow> bool
    \<Rightarrow> u32 \<Rightarrow> 'f \<Rightarrow> 'f \<Rightarrow> u32 \<times> 'f option" where
  "serve_request rd wr stack long short opens scale fin fout = (let (mode, fin') = run_state (receive_u32 rd stack) fin in
     if mode = 0 then long_solver rd wr stack long opens fin' fout
     else (scale, short_solver rd wr stack short opens scale fin' fout))"

text \<open>The loop, over the pairs of a request pipe and a fresh answer pipe it is given.\<close>

fun serve_requests :: "(nat \<Rightarrow> 'f \<Rightarrow> u8 list \<times> 'f) \<Rightarrow> (u8 list \<Rightarrow> 'f \<Rightarrow> nat \<times> 'f) \<Rightarrow> (nat \<Rightarrow> u8 list)
    \<Rightarrow> (u32 \<Rightarrow> long_request \<Rightarrow> long_vars grb) \<Rightarrow> (u32 \<Rightarrow> short_request \<Rightarrow> short_vars grb) \<Rightarrow> bool
    \<Rightarrow> ('f \<times> 'f) list \<Rightarrow> u32 \<Rightarrow> u32 \<times> 'f option list" where
  "serve_requests rd wr stack long short opens [] scale = (scale, [])"
| "serve_requests rd wr stack long short opens ((fin, fout) # fs) scale =
     (let (scale1, a) = serve_request rd wr stack long short opens scale fin fout;
          (scale2, as) = serve_requests rd wr stack long short opens fs scale1 in (scale2, a # as))"

subsection \<open>The controller's side\<close>

text \<open>
  \<open>opens_in\<close> and \<open>opens_out\<close> say whether the controller can open the pipes. If the solver writes no
  answer, opening the answer pipe for reading never returns.
\<close>

definition run_short_solver :: "(nat \<Rightarrow> 'f \<Rightarrow> u8 list \<times> 'f) \<Rightarrow> (u8 list \<Rightarrow> 'f \<Rightarrow> nat \<times> 'f) \<Rightarrow> (nat \<Rightarrow> u8 list)
    \<Rightarrow> bool \<Rightarrow> bool \<Rightarrow> ('f \<Rightarrow> 'f option) \<Rightarrow> 'f \<Rightarrow> controller \<Rightarrow> ('t, 'r) shared \<Rightarrow> solver_answer outcome" where
  "run_short_solver rd wr stack opens_in opens_out solver f c sh =
     (if \<not> opens_in then Inr None
      else case solver (snd (run_state (send_request wr c sh) f)) of
        None \<Rightarrow> if opens_out then Inl Spinning else Inr None
      | Some f' \<Rightarrow> if opens_out then Inr (fst (run_state (receive_answer rd stack c sh) f')) else Inr None)"

subsection \<open>The exchange over any pipe\<close>

context byte_channel begin

lemma request_received:
  assumes ok: "sendable c sh" and st: "\<And>n. length (stack n) = n" and fresh: "pending f = []"
  shows "\<exists>f1 f2 f3. snd (run_state (send_request wr c sh) f) = f1 \<and> run_state (receive_u32 rd stack) f1 = (SHORT, f2)
    \<and> run_state (receive_short rd stack) f2 = (request_of c sh, f3) \<and> pending f3 = []"
proof -
  from emits_fresh [OF request_written fresh] obtain n f1 as bs where 1: "run_state (send_request wr c sh) f = (n, f1)"
    "pending f1 = [bytes_u32 SHORT] @ request_head c sh @ as @ bs" "[] \<notin> set (pending f1)"
    and ab: "concat as = bytes_of bytes_u32 (mat_A c)" "concat bs = bytes_of bytes_u32 (mat_O c)" by (metis append_Cons append_Nil)
  have ne: "[] \<notin> set as" "[] \<notin> set bs" "[] \<notin> set (request_head c sh @ as @ bs)" using 1(3) unfolding 1(2) by auto
  have "takes pending (receive_u32 rd stack) [bytes_u32 SHORT] SHORT"
    by (rule read_number_takes) (simp_all add: st SHORT_def UINT32_MAX_def)
  from takesD [OF this 1(2) ne(3)] obtain f2 where 2: "run_state (receive_u32 rd stack) f1 = (SHORT, f2)" "pending f2 = request_head c sh @ as @ bs" by blast
  from takes_all [OF request_read [OF ok st ne(1,2) ab] 2(2)] obtain f3 where
    "run_state (receive_short rd stack) f2 = (request_of c sh, f3)" "pending f3 = []" by blast
  then show ?thesis using 1(1) 2(1) by auto
qed

lemma answer_received:
  assumes "answerable c sh a" and "8 * total_shards sh \<le> PIPE_BUF" and st: "\<And>n. length (stack n) = n" and fresh: "pending fout = []"
    and len: "length (new_A c) = total_shards sh * total_cores c" "length (new_O c) = total_cores c * total_cores c"
  shows "\<exists>f2. run_state (receive_answer rd stack c sh) (snd (run_state (send_answer wr a) fout)) = (a, f2) \<and> pending f2 = []"
proof -
  from emits_fresh [OF answer_written [OF assms(1,2)] fresh] obtain n f1 where 1: "run_state (send_answer wr a) fout = (n, f1)"
    and cs: "case a of None \<Rightarrow> pending f1 = [bytes_u32 0]
      | Some (r, A, O') \<Rightarrow> \<exists>as bs. pending f1 = bytes_u32 1 # (if r = [] then [] else [bytes_of bytes_double r]) @ as @ bs
         \<and> concat as = bytes_of bytes_u32 A \<and> concat bs = bytes_of bytes_u32 O'" "[] \<notin> set (pending f1)" by blast
  from takes_all [OF answer_read [OF assms(1) st len cs] refl] obtain f2 where
    "run_state (receive_answer rd stack c sh) f1 = (a, f2)" "pending f2 = []" by blast
  then show ?thesis using 1 by simp
qed

text \<open>What the solver writes for a controller's request.\<close>

lemma served:
  assumes "sendable c sh" and "\<And>n. length (stack n) = n" and "pending f = []"
  shows "serve_request rd wr stack long short True scale (snd (run_state (send_request wr c sh) f)) fout
    = (scale, case short scale (request_of c sh) of Throws \<Rightarrow> None
        | NotOptimal \<Rightarrow> Some (snd (run_state (send_answer wr None) fout))
        | Optimal x \<Rightarrow> Some (snd (run_state (send_answer wr (Some (short_answer (request_of c sh) x))) fout)))"
  using request_received [OF assms]
  by (auto simp: serve_request_def short_solver_def SHORT_def split: grb.split)

lemma exchange:
  assumes "sendable c sh" and "\<And>n. length (stack n) = n" and "pending f = []" and "pending fout = []"
    and "8 * total_shards sh \<le> PIPE_BUF"
    and "length (new_A c) = total_shards sh * total_cores c" and "length (new_O c) = total_cores c * total_cores c"
    and ans: "\<And>x. short scale (request_of c sh) = Optimal x \<Longrightarrow> answerable c sh (Some (short_answer (request_of c sh) x))"
  shows "run_short_solver rd wr stack True True (\<lambda>f. snd (serve_request rd wr stack long short True scale f fout)) f c sh
    = (case short scale (request_of c sh) of Throws \<Rightarrow> Inl Spinning | NotOptimal \<Rightarrow> Inr None
       | Optimal x \<Rightarrow> Inr (Some (short_answer (request_of c sh) x)))"
proof -
  have n: "answerable c sh None" by (simp add: answerable_def)
  have a: "fst (run_state (receive_answer rd stack c sh) (snd (run_state (send_answer wr b) fout))) = b" if "answerable c sh b" for b
    using answer_received [OF that assms(5,2,4,6,7)] by auto
  note s = served [OF assms(1-3), where long = long and short = short and scale = scale and fout = fout]
  show ?thesis unfolding run_short_solver_def s
    using a [OF n] a [OF ans] by (cases "short scale (request_of c sh)") simp_all
qed

end

end
