(* ===== verification/Solver_Answers.thy ===== *)
theory Solver_Answers
  imports Solver
begin

text \<open>
  What the answers of the solver are worth: whatever Gurobi returns within its tolerances, the rounded
  matrices are valid assignments, and the present matrices are kept while they meet the constraints.
  The lemmas on rounded sums carry both.
\<close>

subsection \<open>Rounding\<close>

lemma cround_near: "\<bar>v - of_int k\<bar> < 1 / 2 \<Longrightarrow> cround v = k"
proof -
  assume n: "\<bar>v - of_int k\<bar> < 1 / 2"
  then have "of_int (- k) \<le> 1 / 2 - v" "1 / 2 - v < of_int (- k) + 1" "of_int k \<le> v + 1 / 2" "v + 1 / 2 < of_int k + 1"
    unfolding abs_less_iff of_int_minus by linarith+
  then have "\<lfloor>1 / 2 - v\<rfloor> = - k" "\<lfloor>v + 1 / 2\<rfloor> = k" using floor_unique by blast+
  then show ?thesis by (simp add: cround_def)
qed

lemma round_binary:
  assumes "binary t v" and "int_feas t < 1 / 2"
  shows "round_u32 v \<le> 1 \<and> \<bar>v - of_nat (round_u32 v)\<bar> \<le> int_feas t"
proof (cases "\<bar>v\<bar> \<le> int_feas t")
  case True
  then have "cround v = 0" using assms(2) by (intro cround_near) simp
  then show ?thesis using True by (simp add: round_u32_def)
next
  case False
  then have "\<bar>v - 1\<bar> \<le> int_feas t" using assms(1) by (simp add: binary_def)
  moreover from this have "cround v = 1" using assms(2) by (intro cround_near) simp
  ultimately show ?thesis by (simp add: round_u32_def)
qed

lemma sum_rounded:
  assumes "finite I" and "\<And>i. i \<in> I \<Longrightarrow> \<bar>f i - of_nat (g i)\<bar> \<le> (e :: rat)"
  shows "\<bar>(\<Sum>i\<in>I. f i) - of_nat (\<Sum>i\<in>I. g i)\<bar> \<le> of_nat (card I) * e"
proof -
  have "\<bar>(\<Sum>i\<in>I. f i) - of_nat (\<Sum>i\<in>I. g i)\<bar> = \<bar>\<Sum>i\<in>I. f i - of_nat (g i)\<bar>" by (simp add: sum_subtractf)
  also have "\<dots> \<le> (\<Sum>i\<in>I. \<bar>f i - of_nat (g i)\<bar>)" by (rule sum_abs)
  also have "\<dots> \<le> of_nat (card I) * e" using assms(2) by (rule sum_bounded_above)
  finally show ?thesis .
qed

text \<open>Up to this many terms, Gurobi's tolerances do not change a rounded sum.\<close>

definition MAX_TERMS :: nat where "MAX_TERMS = 90000"

lemma gurobi_tol_less: "int_feas gurobi_tol < 1 / 2" "0 < int_feas gurobi_tol" "0 < feas gurobi_tol"
  by (simp_all add: gurobi_tol_def FEAS_TOL_def INT_TOL_def)

lemma rounded_sum:
  assumes "finite I" and "card I \<le> MAX_TERMS" and "\<And>i. i \<in> I \<Longrightarrow> binary gurobi_tol (v i)"
    and "eq_within gurobi_tol (\<Sum>i\<in>I. v i) (of_nat k)"
  shows "(\<Sum>i\<in>I. round_u32 (v i)) = k"
proof -
  let ?n = "\<Sum>i\<in>I. round_u32 (v i)"
  have "\<bar>(\<Sum>i\<in>I. v i) - of_nat ?n\<bar> \<le> of_nat (card I) * INT_TOL"
    using sum_rounded [OF assms(1), of v "\<lambda>i. round_u32 (v i)"] round_binary [OF assms(3) gurobi_tol_less(1)]
    by (simp add: gurobi_tol_def)
  moreover have "of_nat (card I) * INT_TOL \<le> of_nat MAX_TERMS * INT_TOL"
    using assms(2) by (intro mult_right_mono) (simp_all add: INT_TOL_def)
  moreover have "of_nat MAX_TERMS * INT_TOL + FEAS_TOL < 1" by (simp add: MAX_TERMS_def INT_TOL_def FEAS_TOL_def)
  moreover have "\<bar>(\<Sum>i\<in>I. v i) - of_nat k\<bar> \<le> FEAS_TOL" using assms(4) by (simp add: eq_within_def gurobi_tol_def)
  ultimately have "\<bar>of_nat ?n - (of_nat k :: rat)\<bar> < 1" by linarith
  then have "\<bar>of_int (int ?n - int k) :: rat\<bar> < 1" by simp
  then have "\<bar>int ?n - int k\<bar> < 1" by linarith
  then show ?thesis by linarith
qed

lemma rounded_zero:
  assumes "finite I" and "card I \<le> MAX_TERMS" and "\<And>i. i \<in> I \<Longrightarrow> binary gurobi_tol (v i)"
    and "eq_within gurobi_tol (\<Sum>i\<in>I. v i) 0" and "i \<in> I"
  shows "round_u32 (v i) = 0"
proof -
  have "(\<Sum>i\<in>I. round_u32 (v i)) = 0" by (rule rounded_sum [OF assms(1-3)]) (use assms(4) in simp_all)
  then show ?thesis using assms(1,5) by simp
qed

lemma rounded_one:
  assumes "finite I" and "card I \<le> MAX_TERMS" and "\<And>i. i \<in> I \<Longrightarrow> binary gurobi_tol (v i)"
    and "eq_within gurobi_tol (\<Sum>i\<in>I. v i) 1"
  shows "\<exists>w\<in>I. round_u32 (v w) = 1 \<and> (\<forall>i\<in>I. i \<noteq> w \<longrightarrow> round_u32 (v i) = 0)"
proof -
  have "(\<Sum>i\<in>I. round_u32 (v i)) = 1" by (rule rounded_sum [OF assms(1-3)]) (use assms(4) in simp_all)
  then obtain w where "w \<in> I" "round_u32 (v w) = 1" "\<forall>i\<in>I. w \<noteq> i \<longrightarrow> round_u32 (v i) = 0"
    using sum_eq_1_iff [OF assms(1), of "\<lambda>i. round_u32 (v i)"] by blast
  then show ?thesis by (intro bexI [of _ w]) auto
qed

subsection \<open>The matrices of an answer\<close>

lemma short_answer_assignment:
  assumes "short_feasible gurobi_tol scale q x" and "req_W q \<le> MAXCORES q" and "SHARDS q \<le> MAX_TERMS" and "MAXCORES q \<le> MAX_TERMS"
  shows "assign_ok (req_W q) (MAXCORES q) (SHARDS q) (fst (snd (short_answer q x)))"
proof (rule assign_okI)
  let ?W = "req_W q" and ?mc = "MAXCORES q" and ?ts = "SHARDS q" and ?A = "fst (snd (short_answer q x))"
  show "length ?A = ?ts * ?mc" by (simp add: short_answer_def)
  show "?W \<le> ?mc" by fact
  fix s assume s: "s < ?ts"
  have b: "binary gurobi_tol (x_A x (r * ?mc + i))" if "r < ?ts" "i < ?mc" for r i
    using assms(1) flat_index_less [OF that] by (simp add: short_feasible_def short_bounds_def core_bounds_def)
  have nth: "?A ! (r * ?mc + i) = round_u32 (x_A x (r * ?mc + i))" if "r < ?ts" "i < ?mc" for r i
    using flat_index_less [OF that] by (simp add: short_answer_def)
  have row: "eq_within gurobi_tol (\<Sum>i<?mc. x_A x (s * ?mc + i)) 1"
    and col: "\<And>i. i \<in> {?W..<?mc} \<Longrightarrow> eq_within gurobi_tol (\<Sum>s<?ts. x_A x (s * ?mc + i)) 0"
    using assms(1) s by (simp_all add: short_feasible_def short_assignment_def one_core_per_shard_def shards_on_def Let_def)
  obtain w where w: "w < ?mc" "round_u32 (x_A x (s * ?mc + w)) = 1" "\<And>i. i < ?mc \<Longrightarrow> i \<noteq> w \<Longrightarrow> round_u32 (x_A x (s * ?mc + i)) = 0"
    using rounded_one [OF _ _ _ row] b [OF s] assms(4) by auto
  have "w < ?W"
  proof (rule ccontr)
    assume "\<not> w < ?W"
    then have "eq_within gurobi_tol (\<Sum>s<?ts. x_A x (s * ?mc + w)) 0" using col w(1) by simp
    then have "round_u32 (x_A x (s * ?mc + w)) = 0"
      by (rule rounded_zero [rotated 3]) (use b w(1) s assms(3) in auto)
    then show False using w(2) by simp
  qed
  then show "\<exists>w<?W. one_hot ?A ?mc s w" using w nth [OF s] by (auto simp: one_hot_def)
qed

lemma short_answer_relation:
  assumes "short_feasible gurobi_tol scale q x" and "req_W q \<le> MAXCORES q" and "req_E q \<le> MAXCORES q" and "MAXCORES q \<le> MAX_TERMS"
  shows "relation_ok (req_W q) (req_E q) (MAXCORES q) (snd (snd (short_answer q x)))"
proof -
  let ?W = "req_W q" and ?E = "req_E q" and ?mc = "MAXCORES q" and ?O = "snd (snd (short_answer q x))"
  have b: "binary gurobi_tol (x_O x (e * ?mc + w))" if "e < ?mc" "w < ?mc" for e w
    using assms(1) flat_index_less [OF that] by (simp add: short_feasible_def short_bounds_def core_bounds_def)
  have nth: "?O ! (e * ?mc + w) = round_u32 (x_O x (e * ?mc + w))" if "e < ?mc" "w < ?mc" for e w
    using flat_index_less [OF that] by (simp add: short_answer_def)
  have rel: "short_relation gurobi_tol q x" using assms(1) by (simp add: short_feasible_def)
  have zero: "?O ! (e * ?mc + w) = 0" if "eq_within gurobi_tol (\<Sum>j\<in>I. x_O x (j * ?mc + w)) 0" "e \<in> I" "I \<subseteq> {..<?mc}" "w < ?mc" for e w I
  proof -
    have "finite I" "card I \<le> MAX_TERMS" using that(3) assms(4) finite_subset card_mono [OF _ that(3)] by auto
    then have "round_u32 (x_O x (e * ?mc + w)) = 0"
      by (rule rounded_zero [OF _ _ _ that(1,2)]) (use b that(3,4) in auto)
    then show ?thesis using nth that(2-4) by auto
  qed
  have cell: "?O ! (e * ?mc + w) \<le> 1 \<and> (relates ?O ?mc w e \<longrightarrow> w < ?W \<and> e < ?E)
      \<and> (\<forall>e'<?mc. relates ?O ?mc w e \<longrightarrow> relates ?O ?mc w e' \<longrightarrow> e' = e)" if w: "w < ?mc" and e: "e < ?mc" for w e
  proof (cases "?E = 0 \<or> ?W \<le> w")
    case True
    then have "eq_within gurobi_tol (\<Sum>j<?mc. x_O x (j * ?mc + w)) 0" using rel w by (auto simp: short_relation_def Let_def split: if_splits)
    then have "?O ! (e * ?mc + w) = 0" using zero e w by blast
    then show ?thesis by (simp add: relates_def)
  next
    case False
    then have one: "eq_within gurobi_tol (\<Sum>j<?E. x_O x (j * ?mc + w)) 1" and none: "eq_within gurobi_tol (\<Sum>j\<in>{?E..<?mc}. x_O x (j * ?mc + w)) 0"
      using rel by (simp_all add: short_relation_def Let_def)
    have "\<exists>u\<in>{..<?E}. round_u32 (x_O x (u * ?mc + w)) = 1 \<and> (\<forall>i\<in>{..<?E}. i \<noteq> u \<longrightarrow> round_u32 (x_O x (i * ?mc + w)) = 0)"
      by (rule rounded_one [OF _ _ _ one]) (use b w assms(3,4) in auto)
    then obtain u where u: "u < ?E" "?O ! (u * ?mc + w) = 1" "\<And>i. i < ?E \<Longrightarrow> i \<noteq> u \<Longrightarrow> ?O ! (i * ?mc + w) = 0"
      using nth w assms(3) by auto
    have "?O ! (i * ?mc + w) = 0" if "i < ?mc" "\<not> i < ?E" for i by (rule zero [OF none]) (use that w in auto)
    then have v: "?O ! (i * ?mc + w) = (if i = u then 1 else 0)" if "i < ?mc" for i using u that by (cases "i < ?E") auto
    then show ?thesis using e False u(1) by (auto simp: relates_def split: if_splits)
  qed
  moreover have "length ?O = ?mc * ?mc" by (simp add: short_answer_def)
  ultimately show ?thesis unfolding relation_ok_def by blast
qed

subsection \<open>What a change costs\<close>

text \<open>Up to this many cells, the tolerances do not hide a changed cell in the objective.\<close>

definition MAX_CELLS :: nat where "MAX_CELLS = 500000"

lemma changed_cell:
  assumes "binary gurobi_tol v" and "eq_within gurobi_tol t (v - of_nat n)" and "eq_within gurobi_tol d \<bar>t\<bar>" and "n \<le> 1"
  shows "- FEAS_TOL \<le> d" and "round_u32 v \<noteq> n \<Longrightarrow> 99 / 100 \<le> d"
proof -
  have t: "\<bar>t - (v - of_nat n)\<bar> \<le> FEAS_TOL" "\<bar>d - \<bar>t\<bar>\<bar> \<le> FEAS_TOL" using assms(2,3) by (simp_all add: eq_within_def gurobi_tol_def)
  then show "- FEAS_TOL \<le> d" by linarith
  assume ne: "round_u32 v \<noteq> n"
  have r: "round_u32 v \<le> 1" "\<bar>v - of_nat (round_u32 v)\<bar> \<le> INT_TOL"
    using round_binary [OF assms(1) gurobi_tol_less(1)] by (simp_all add: gurobi_tol_def)
  then consider "round_u32 v = 0" "n = 1" | "round_u32 v = 1" "n = 0" using ne assms(4) by linarith
  then have "1 - INT_TOL \<le> \<bar>v - of_nat n\<bar>" using r(2) by cases auto
  then have "1 - INT_TOL - 2 * FEAS_TOL \<le> d" using t by linarith
  moreover have "99 / 100 \<le> 1 - INT_TOL - 2 * FEAS_TOL" by (simp add: INT_TOL_def FEAS_TOL_def)
  ultimately show "99 / 100 \<le> d" by linarith
qed

text \<open>The cells of the two matrices, as \<open>short_changes\<close> numbers them.\<close>

definition cell_value :: "short_request \<Rightarrow> short_vars \<Rightarrow> nat \<Rightarrow> rat" where
  "cell_value q x i = (let n = SHARDS q * MAXCORES q in if i < n then x_A x i else x_O x (i - n))"

definition old_cell :: "short_request \<Rightarrow> nat \<Rightarrow> nat" where
  "old_cell q i = (let n = SHARDS q * MAXCORES q in if i < n then Aold q ! i else Oold q ! (i - n))"

lemma feasible_cells:
  assumes "short_feasible t scale q x" and "i < vsize q"
  shows "binary t (cell_value q x i)" and "eq_within t (temp_v x i) (cell_value q x i - of_nat (old_cell q i))"
    and "eq_within t (diff_v x i) \<bar>temp_v x i\<bar>"
proof -
  let ?n = "SHARDS q * MAXCORES q"
  have c: "short_changes t q x" "core_bounds t (SHARDS q) (MAXCORES q) x" using assms(1) by (simp_all add: short_feasible_def short_bounds_def)
  have "binary t (cell_value q x i) \<and> eq_within t (temp_v x i) (cell_value q x i - of_nat (old_cell q i)) \<and> eq_within t (diff_v x i) \<bar>temp_v x i\<bar>"
  proof (cases "i < ?n")
    case True
    then show ?thesis using c by (simp add: short_changes_def core_bounds_def cell_value_def old_cell_def Let_def)
  next
    case False
    then obtain j where j: "i = ?n + j" "j < MAXCORES q * MAXCORES q" using that [of "i - ?n"] assms(2) by (simp add: vsize_def)
    then show ?thesis using c by (simp add: short_changes_def core_bounds_def cell_value_def old_cell_def Let_def)
  qed
  then show "binary t (cell_value q x i)" and "eq_within t (temp_v x i) (cell_value q x i - of_nat (old_cell q i))"
    and "eq_within t (diff_v x i) \<bar>temp_v x i\<bar>" by simp_all
qed

lemma change_costs:
  assumes "short_feasible gurobi_tol scale q x" and "\<forall>i<vsize q. old_cell q i \<le> 1" and "vsize q \<le> MAX_CELLS"
    and "i < vsize q" and "round_u32 (cell_value q x i) \<noteq> old_cell q i"
  shows "1 / 3 \<le> short_objective q x"
proof -
  have cells: "- FEAS_TOL \<le> diff_v x j" "round_u32 (cell_value q x j) \<noteq> old_cell q j \<Longrightarrow> 99 / 100 \<le> diff_v x j" if "j < vsize q" for j
    using changed_cell [OF feasible_cells [OF assms(1) that]] assms(2) that by blast+
  have "short_objective q x = diff_v x i + (\<Sum>j\<in>{..<vsize q} - {i}. diff_v x j)"
    unfolding short_objective_def using assms(4) by (subst sum.remove [of _ i]) auto
  moreover have "of_nat (card ({..<vsize q} - {i})) * (- FEAS_TOL) \<le> (\<Sum>j\<in>{..<vsize q} - {i}. diff_v x j)"
    using cells(1) by (intro sum_bounded_below) auto
  moreover have "of_nat (card ({..<vsize q} - {i})) * FEAS_TOL \<le> of_nat MAX_CELLS * FEAS_TOL"
    using assms(3,4) by (intro mult_right_mono) (simp_all add: FEAS_TOL_def)
  moreover have "of_nat MAX_CELLS * FEAS_TOL = 1 / 2" by (simp add: MAX_CELLS_def FEAS_TOL_def)
  moreover have "99 / 100 \<le> diff_v x i" using cells(2) [OF assms(4,5)] .
  ultimately show ?thesis by linarith
qed

text \<open>The matrices of the request, as values of the variables, meet the constraints.\<close>

definition present_feasible :: "u32 \<Rightarrow> short_request \<Rightarrow> bool" where
  "present_feasible scale q \<longleftrightarrow> length (Aold q) = SHARDS q * MAXCORES q \<and> length (Oold q) = MAXCORES q * MAXCORES q
     \<and> (\<exists>y. short_feasible exact scale q y \<and> (\<forall>i<vsize q. cell_value q y i = of_nat (old_cell q i)))"

lemma present_costs_nothing:
  assumes "present_feasible scale q"
  shows "\<forall>i<vsize q. old_cell q i \<le> 1" and "\<exists>y. short_feasible exact scale q y \<and> short_objective q y = 0"
proof -
  from assms obtain y where y: "short_feasible exact scale q y" "\<And>i. i < vsize q \<Longrightarrow> cell_value q y i = of_nat (old_cell q i)"
    by (auto simp: present_feasible_def)
  have "diff_v y i = 0 \<and> old_cell q i \<le> 1" if "i < vsize q" for i
    using feasible_cells [OF y(1) that] y(2) [OF that] by (auto simp: binary_def eq_within_def exact_def)
  then show "\<forall>i<vsize q. old_cell q i \<le> 1" and "\<exists>y. short_feasible exact scale q y \<and> short_objective q y = 0"
    using y(1) by (auto simp: short_objective_def)
qed

lemma answer_cells:
  "i < SHARDS q * MAXCORES q \<Longrightarrow> fst (snd (short_answer q x)) ! i = round_u32 (cell_value q x i)"
  "j < MAXCORES q * MAXCORES q \<Longrightarrow> snd (snd (short_answer q x)) ! j = round_u32 (cell_value q x (SHARDS q * MAXCORES q + j))"
  by (simp_all add: short_answer_def cell_value_def)

text \<open>What Gurobi documents of a solution with status \<open>OPTIMAL\<close>; the values it returns are doubles.\<close>

definition optimal :: "u32 \<Rightarrow> short_request \<Rightarrow> short_vars \<Rightarrow> bool" where
  "optimal scale q x \<longleftrightarrow> short_feasible gurobi_tol scale q x \<and> (\<forall>s<SHARDS q. finite_double (x_r x s))
     \<and> (\<forall>y. short_feasible exact scale q y \<longrightarrow>
          short_objective q x - short_objective q y \<le> max MIP_GAP_ABS (MIP_GAP * \<bar>short_objective q x\<bar>))"

definition solves_short :: "(u32 \<Rightarrow> short_request \<Rightarrow> short_vars grb) \<Rightarrow> bool" where
  "solves_short opt \<longleftrightarrow> (\<forall>scale q x. opt scale q = Optimal x \<longrightarrow> optimal scale q x)"

lemma present_kept:
  assumes "optimal scale q x" and "present_feasible scale q" and "vsize q \<le> MAX_CELLS"
  shows "fst (snd (short_answer q x)) = Aold q \<and> snd (snd (short_answer q x)) = Oold q"
proof -
  note p = present_costs_nothing [OF assms(2)]
  from p(2) obtain y where y: "short_feasible exact scale q y" "short_objective q y = 0" by blast
  have o: "short_objective q x \<le> max MIP_GAP_ABS (MIP_GAP * \<bar>short_objective q x\<bar>)"
    using assms(1) y unfolding optimal_def by fastforce
  have "\<not> 1 / 3 \<le> short_objective q x"
  proof
    assume a: "1 / 3 \<le> short_objective q x"
    then have "MIP_GAP * \<bar>short_objective q x\<bar> < short_objective q x" by (simp add: MIP_GAP_def)
    moreover have "MIP_GAP_ABS < short_objective q x" using a by (simp add: MIP_GAP_ABS_def)
    ultimately show False using o by simp
  qed
  then have eq: "round_u32 (cell_value q x i) = old_cell q i" if "i < vsize q" for i
    using change_costs [OF _ p(1) assms(3) that] assms(1) unfolding optimal_def by blast
  show ?thesis
  proof
    show "fst (snd (short_answer q x)) = Aold q"
    proof (rule nth_equalityI)
      fix j assume "j < length (fst (snd (short_answer q x)))"
      then have j: "j < SHARDS q * MAXCORES q" by (simp add: short_answer_def)
      then show "fst (snd (short_answer q x)) ! j = Aold q ! j"
        using eq [of j] by (simp add: answer_cells old_cell_def vsize_def)
    qed (use assms(2) in \<open>simp add: present_feasible_def short_answer_def\<close>)
    show "snd (snd (short_answer q x)) = Oold q"
    proof (rule nth_equalityI)
      fix j assume "j < length (snd (snd (short_answer q x)))"
      then have j: "j < MAXCORES q * MAXCORES q" by (simp add: short_answer_def)
      then show "snd (snd (short_answer q x)) ! j = Oold q ! j"
        using eq [of "SHARDS q * MAXCORES q + j"] by (simp add: answer_cells old_cell_def vsize_def)
    qed (use assms(2) in \<open>simp add: present_feasible_def short_answer_def\<close>)
  qed
qed

subsection \<open>The scale of the offloading load\<close>

lemma long_SCALE_0: "long_SCALE = 0"
proof -
  have "rnd (4 / 10) \<le> rnd (1 / 2)" by (rule rnd_mono) simp
  also have "rnd (1 / 2) = 1 / 2" using rnd_dyadic [of 1 "- 1"] by (simp add: power_int_minus)
  finally have "\<lfloor>rnd (4 / 10)\<rfloor> = 0" using rnd_nonneg [of "4 / 10"] by (simp add: floor_eq_iff)
  then show ?thesis by (simp add: long_SCALE_def)
qed

text \<open>In every request the solver serves from its start on, the scale is 0.\<close>

lemma scale_stays_zero: "scale = INITIAL_SCALE \<Longrightarrow> fst (serve_requests rd wr stack long short opens fs scale) = 0"
  by (induction rd wr stack long short opens fs scale rule: serve_requests.induct)
    (auto simp: INITIAL_SCALE_def serve_request_def long_solver_def Let_def long_SCALE_0 split: prod.splits if_splits)

text \<open>
  C12: from the solver's start on, whatever requests it serves, the scale of the offloading cores' load is
  0 in every problem it solves, so that neither their delay limit nor their processing time excludes
  any assignment: what is feasible stays so with any other limit.
\<close>

theorem offloading_delay_ignored:
  assumes "serve_requests rd wr stack long short opens fs INITIAL_SCALE = (scale, as)"
    and "short_feasible exact scale q x" and "0 \<le> limit"
  shows "\<exists>y. short_feasible exact scale (q\<lparr>req_slo := (req_slo q)\<lparr>Car := ca, Csr := cs, SLOr := limit\<rparr>, req_Te := Te\<rparr>) y
    \<and> x_A y = x_A x \<and> x_O y = x_O x \<and> x_r y = x_r x"
proof -
  have scale: "scale = 0" using scale_stays_zero [OF refl, of rd wr stack long short opens fs] assms(1) by simp
  let ?y = "x\<lparr>load_e := \<lambda>_. 0, vars_e := \<lambda>_. 0, avg_e := \<lambda>_. 0\<rparr>"
  let ?q = "q\<lparr>req_slo := (req_slo q)\<lparr>Car := ca, Csr := cs, SLOr := limit\<rparr>, req_Te := Te\<rparr>"
  have x: "short_bounds exact q x" "short_changes exact q x" "short_relation exact q x" "short_assignment exact q x" "short_working exact q x"
    using assms(2) by (simp_all add: short_feasible_def)
  have "0 \<le> MAX_LOAD" by (simp add: MAX_LOAD_def rnd_nonneg)
  then have "short_bounds exact ?q ?y"
    using x(1) by (simp add: short_bounds_def core_bounds_def bounded_def le_within_def exact_def vsize_def)
  moreover have "short_changes exact ?q ?y" using x(2) by (simp add: short_changes_def)
  moreover have "short_relation exact ?q ?y" using x(3) by (simp add: short_relation_def Let_def split: if_splits)
  moreover have "short_assignment exact ?q ?y" using x(4) by (simp add: short_assignment_def one_core_per_shard_def shards_on_def)
  moreover have "short_working exact ?q ?y" using x(5) by (simp add: short_working_def volume_kept_def volume_offloaded_def Let_def)
  moreover have "short_offloading exact scale ?q ?y"
    using assms(3) scale by (simp add: short_offloading_def Let_def delay_ok_def eq_within_def le_within_def exact_def)
  ultimately have "short_feasible exact scale ?q ?y" by (simp add: short_feasible_def)
  then show ?thesis by (intro exI [of _ ?y]) simp
qed

subsection \<open>The long answer\<close>

definition solves_long :: "(u32 \<Rightarrow> long_request \<Rightarrow> long_vars grb) \<Rightarrow> bool" where
  "solves_long opt \<longleftrightarrow> (\<forall>scale q x. opt scale q = Optimal x \<longrightarrow> long_feasible gurobi_tol scale q x)"

lemma count_cores_sum:
  "unat (count_cores v n) = (\<Sum>i<n. round_u32 (v i)) mod 2 ^ 32"
proof (induction n)
  case (Suc n)
  have "count_cores v (Suc n) = count_cores v n + of_int (cround (v n))" by (simp add: count_cores_def)
  then show ?case using Suc by (simp add: unat_word_ariths round_u32_def mod_add_left_eq)
qed (simp add: count_cores_def)

text \<open>There is a working core, twice as many working as offloading ones, and no more cores than there are.\<close>

lemma long_answer_cores:
  assumes "long_feasible gurobi_tol scale q x" and "l_MAXCORES q \<le> 10000"
  shows "let w = unat (count_cores (x_w x) (l_MAXCORES q)); e = unat (count_cores (x_e x) (l_MAXCORES q))
    in 1 \<le> w \<and> 2 * e \<le> w \<and> w + e \<le> l_MAXCORES q"
proof -
  let ?n = "l_MAXCORES q"
  define w where "w = (\<Sum>i<?n. round_u32 (x_w x i))"
  define e where "e = (\<Sum>i<?n. round_u32 (x_e x i))"
  have b: "binary gurobi_tol (x_w x i)" "binary gurobi_tol (x_e x i)" if "i < ?n" for i
    using assms(1) that by (simp_all add: long_feasible_def long_bounds_def)
  note r = round_binary [OF b(1) gurobi_tol_less(1)] round_binary [OF b(2) gurobi_tol_less(1)]
  have W: "\<bar>(\<Sum>i<?n. x_w x i) - of_nat w\<bar> \<le> of_nat ?n * INT_TOL" and E: "\<bar>(\<Sum>i<?n. x_e x i) - of_nat e\<bar> \<le> of_nat ?n * INT_TOL"
    using sum_rounded [of "{..<?n}" "x_w x" "\<lambda>i. round_u32 (x_w x i)" INT_TOL]
      sum_rounded [of "{..<?n}" "x_e x" "\<lambda>i. round_u32 (x_e x i)" INT_TOL] r
    by (simp_all add: w_def e_def gurobi_tol_def)
  have tol: "of_nat ?n * INT_TOL \<le> 1 / 10" using assms(2) by (simp add: INT_TOL_def)
  have c: "1 \<le> (\<Sum>i<?n. x_w x i) + FEAS_TOL" "(\<Sum>i<?n. x_w x i) + (\<Sum>i<?n. x_e x i) \<le> of_nat ?n + FEAS_TOL"
    "(\<Sum>i<?n. x_e x i) \<le> (\<Sum>i<?n. x_w x i) / 2 + FEAS_TOL"
    using assms(1) by (simp_all add: long_feasible_def long_cores_def le_within_def gurobi_tol_def Let_def)
  have f: "FEAS_TOL \<le> 1 / 100" by (simp add: FEAS_TOL_def)
  have "0 < (of_nat w :: rat)" "of_nat w + of_nat e < (of_nat ?n + 1 :: rat)" "2 * of_nat e < (of_nat w + 1 :: rat)"
    using W E tol c f by linarith+
  then have "0 < w" "w + e < ?n + 1" "2 * e < w + 1" by linarith+
  moreover from this have "w < 2 ^ 32" "e < 2 ^ 32" using assms(2) by simp_all
  ultimately show ?thesis by (simp add: count_cores_sum flip: w_def e_def)
qed

end
