(* ===== verification/Solver_Link.thy ===== *)
theory Solver_Link
  imports Solver_Answers
begin

text \<open>
  The properties of the exchange between controller and solver over the two named pipes, from the
  request to the state of the controller that has taken up the answer.
\<close>

text \<open>Local variables may hold any bytes.\<close>

abbreviation any_bytes :: "(nat \<Rightarrow> u8 list) \<Rightarrow> bool" where
  "any_bytes stack \<equiv> \<forall>n. length (stack n) = n"

text \<open>
  C11: with up to 512 shards, a request arrives at the solver as the controller sent it, and an answer at the
  controller as the solver sent it, however the pipe splits reads and long writes; nothing is left in the pipe.
  (The answer's ratios are read by one \<open>read\<close> each, so they must fit in one write of \<open>PIPE_BUF\<close> bytes; with
  more shards a ratio can be read in part.)
\<close>

theorem solver_messages_roundtrip:
  assumes "sendable c sh" and "any_bytes stack" and "chunks f = []" and "chunks f' = []"
    and "answerable c sh a" and "8 * total_shards sh \<le> PIPE_BUF"
    and "length (new_A c) = total_shards sh * total_cores c" and "length (new_O c) = total_cores c * total_cores c"
  shows "let f1 = snd (run_state (send_request fifo_write c sh) f);
      (mode, f2) = run_state (receive_u32 fifo_read stack) f1;
      (q, f3) = run_state (receive_short fifo_read stack) f2;
      (b, f4) = run_state (receive_answer fifo_read stack c sh) (snd (run_state (send_answer fifo_write a) f'))
    in mode = SHORT \<and> q = request_of c sh \<and> chunks f3 = [] \<and> b = a \<and> chunks f4 = []"
proof -
  have st: "\<And>n. length (stack n) = n" using assms(2) by blast
  obtain f1 f2 f3 where 1: "snd (run_state (send_request fifo_write c sh) f) = f1" "run_state (receive_u32 fifo_read stack) f1 = (SHORT, f2)"
    "run_state (receive_short fifo_read stack) f2 = (request_of c sh, f3)" "chunks f3 = []"
    using fifo.request_received [OF assms(1) st assms(3)] by blast
  obtain f4 where "run_state (receive_answer fifo_read stack c sh) (snd (run_state (send_answer fifo_write a) f')) = (a, f4)" "chunks f4 = []"
    using fifo.answer_received [OF assms(5,6) st assms(4,7,8)] by blast
  then show ?thesis using 1 by simp
qed

text \<open>The exchange over pipes with any schedule: \<open>f\<close> takes the request, \<open>f'\<close> the answer.\<close>

definition ask_solver :: "(nat \<Rightarrow> u8 list) \<Rightarrow> (u32 \<Rightarrow> long_request \<Rightarrow> long_vars grb) \<Rightarrow> (u32 \<Rightarrow> short_request \<Rightarrow> short_vars grb)
    \<Rightarrow> u32 \<Rightarrow> fifo \<Rightarrow> fifo \<Rightarrow> controller \<Rightarrow> ('t, 'r) shared \<Rightarrow> solver_answer outcome" where
  "ask_solver stack long short scale f f' c sh =
     run_short_solver fifo_read fifo_write stack True True
       (\<lambda>f. snd (serve_request fifo_read fifo_write stack long short True scale f f')) f c sh"

text \<open>What the controller relies on when it asks.\<close>

definition askable :: "nat \<Rightarrow> nat \<Rightarrow> controller \<Rightarrow> ('t, 'r) shared \<Rightarrow> bool" where
  "askable W E c sh \<longleftrightarrow> epoch_inv W E c sh \<and> sendable c sh \<and> 8 * total_shards sh \<le> PIPE_BUF \<and> W + E \<le> MAX_TERMS
     \<and> length (new_A c) = total_shards sh * total_cores c \<and> length (new_O c) = total_cores c * total_cores c"

lemma request_sizes:
  assumes "askable W E c sh"
  shows "req_W (request_of c sh) = W" "req_E (request_of c sh) = E" "MAXCORES (request_of c sh) = W + E"
    "SHARDS (request_of c sh) = total_shards sh" "total_shards sh \<le> MAX_TERMS"
  using assms by (simp_all add: askable_def epoch_inv_def request_of_def PIPE_BUF_def MAX_TERMS_def)

lemma round_u32_le: "round_u32 v \<le> UINT32_MAX"
  using unsigned_less [where ?'a = nat, of "of_int (cround v) :: u32"] by (simp add: round_u32_def UINT32_MAX_def)

lemma optimal_answerable:
  assumes "askable W E c sh" and "optimal scale (request_of c sh) x"
  shows "answerable c sh (Some (short_answer (request_of c sh) x))"
  using assms(2) round_u32_le
  by (auto simp: answerable_def short_answer_def optimal_def request_of_def)

lemma asked:
  assumes "askable W E c sh" and "any_bytes stack" and "chunks f = []" and "chunks f' = []" and "solves_short short"
  shows "ask_solver stack long short scale f f' c sh = (case short scale (request_of c sh) of Throws \<Rightarrow> Inl Spinning | NotOptimal \<Rightarrow> Inr None
       | Optimal x \<Rightarrow> Inr (Some (short_answer (request_of c sh) x)))"
  unfolding ask_solver_def
proof (rule fifo.exchange)
  show "\<And>n. length (stack n) = n" using assms(2) by blast
  fix x assume "short scale (request_of c sh) = Optimal x"
  then have "optimal scale (request_of c sh) x" using assms(5) by (simp add: solves_short_def)
  then show "answerable c sh (Some (short_answer (request_of c sh) x))" by (rule optimal_answerable [OF assms(1)])
qed (use assms in \<open>simp_all add: askable_def\<close>)

text \<open>
  C6: with up to 512 shards, what the controller gets depends only on what Gurobi answers to the request it sent. It waits for
  ever exactly if Gurobi throws, and gets no answer exactly if Gurobi finds no optimum in time. Otherwise the answer is the one the solver
  makes of Gurobi's optimum and is well formed: every shard has exactly one of the working cores, every working core at most
  one offloading core, so that the rest of the round succeeds and leaves the two matrices of the answer in force.
\<close>

theorem solver_answer_valid:
  assumes "askable W E c sh" and "any_bytes stack" and "chunks f = []" and "chunks f' = []" and "solves_short short"
  shows "(ask_solver stack long short scale f f' c sh = Inl Spinning \<longleftrightarrow> short scale (request_of c sh) = Throws)
    \<and> (ask_solver stack long short scale f f' c sh = Inr None \<longleftrightarrow> short scale (request_of c sh) = NotOptimal)
    \<and> (\<forall>x. short scale (request_of c sh) = Optimal x \<longrightarrow>
         (\<exists>a. ask_solver stack long short scale f f' c sh = Inr (Some a) \<and> a = short_answer (request_of c sh) x
            \<and> answer_ok W E (total_shards sh) a
            \<and> (\<exists>c' sh'. (let (c3, sh3) = accept_answer a c sh in apply_solution R c3 sh3) = Inr (c', sh')
                 \<and> epoch_inv W E c' sh' \<and> mat_A c' = fst (snd a) \<and> mat_O c' = snd (snd a))))"
proof (cases "short scale (request_of c sh)")
  case (Optimal x)
  let ?q = "request_of c sh"
  obtain r A O' where a: "short_answer ?q x = (r, A, O')" by (cases "short_answer ?q x")
  have x: "short_feasible gurobi_tol scale ?q x" using assms(5) Optimal by (simp add: solves_short_def optimal_def)
  note sz = request_sizes [OF assms(1)]
  have inv: "epoch_inv W E c sh" and m: "W + E \<le> MAX_TERMS" using assms(1) by (simp_all add: askable_def)
  have ok: "answer_ok W E (total_shards sh) (r, A, O')"
    using short_answer_assignment [OF x] short_answer_relation [OF x] m sz by (simp add: a answer_ok_def)
  have len: "length (shards sh) = total_shards sh" using inv by (simp add: epoch_inv_def shared_ok_def)
  obtain c3 sh3 where 3: "accept_answer (r, A, O') c sh = (c3, sh3)" by (cases "accept_answer (r, A, O') c sh")
  then have c3: "c3 = c\<lparr>new_A := A, new_O := O'\<rparr>" and sh3: "epoch_inv W E c sh3" "total_shards sh3 = total_shards sh"
    using inv len by (auto simp: accept_answer_eq epoch_inv_def shared_ok_def)
  from apply_solution_ok [OF sh3(1) c3, of r R] ok sh3(2) obtain c' sh' where
    "apply_solution R c3 sh3 = Inr (c', sh')" "epoch_inv W E c' sh'" "mat_A c' = A" "mat_O c' = O'" by auto
  then show ?thesis unfolding asked [OF assms] Optimal using ok 3 by (auto simp: a)
qed (simp_all add: asked [OF assms])


subsection \<open>Examples\<close>

lemma small_rnd: "\<bar>x\<bar> \<le> 2 ^ 53 \<Longrightarrow> \<bar>rnd x\<bar> \<le> 2 ^ 53"
  using rnd_mono [of x "2 ^ 53"] rnd_mono [of "- (2 ^ 53)" x] rnd_of_int [of "2 ^ 53"] rnd_of_int [of "- (2 ^ 53)"]
  by (simp add: abs_le_iff)

lemma finite_double_small:
  assumes "\<bar>x\<bar> \<le> 2 ^ 53"
  shows "finite_double (rnd x)"
proof (rule finite_double_rnd)
  have "(2::rat) ^ 53 = 2 powi 53" by simp
  also have "\<dots> < 2 powi 1024" by (rule power_int_strict_increasing) simp_all
  finally show "\<bar>rnd x\<bar> < 2 powi 1024" using small_rnd [OF assms] by linarith
qed

text \<open>Nothing offloaded, no load, the matrices as they are.\<close>

definition idle_vars :: "short_request \<Rightarrow> short_vars" where
  "idle_vars q = \<lparr>x_A = (\<lambda>k. of_nat (Aold q ! k)), x_O = (\<lambda>k. of_nat (Oold q ! k)), x_r = (\<lambda>_. 0), load_w = (\<lambda>_. 0), load_e = (\<lambda>_. 0),
     vars_w = (\<lambda>_. 0), vars_e = (\<lambda>_. 0), avg_w = (\<lambda>_. 0), avg_e = (\<lambda>_. 0), load_we = (\<lambda>_. 0), diff_v = (\<lambda>_. 0), temp_v = (\<lambda>_. 0)\<rparr>"

definition ex_request :: "slo_params \<Rightarrow> double \<Rightarrow> double \<Rightarrow> short_request" where
  "ex_request P T Te = \<lparr>req_W = 2, req_E = 1, MAXCORES = 3, SHARDS = 4, req_slo = P, req_T = T, req_Te = Te,
     req_V = [0, 0, 0, 0], req_rold = [0, 0, 0, 0], Aold = [1, 0, 0, 0, 1, 0, 1, 0, 0, 0, 1, 0], Oold = [1, 1, 0, 0, 0, 0, 0, 0, 0]\<rparr>"

definition ex_slo :: slo_params where
  "ex_slo = slo (configured_controller (ex_config 4 2 1))"

lemma ex_slo_finite: "\<forall>v\<in>{Cap ex_slo, Csp ex_slo, SLOp ex_slo, Car ex_slo, Csr ex_slo, SLOr ex_slo, rnd (1 / 10 ^ 6)}. finite_double v"
  "0 \<le> SLOp ex_slo" "0 \<le> SLOr ex_slo"
proof -
  have "0 \<le> rnd (1 / 10 ^ 9)" "rnd (1 / 10 ^ 9) \<le> 1"
    using rnd_mono [of "1 / 10 ^ 9" 1] rnd_of_int [of 1] by (simp_all add: rnd_nonneg)
  then have "\<bar>1000 * rnd (1 / 10 ^ 9)\<bar> \<le> 2 ^ 53" "0 \<le> 1000 * rnd (1 / 10 ^ 9)" by simp_all
  then show "\<forall>v\<in>{Cap ex_slo, Csp ex_slo, SLOp ex_slo, Car ex_slo, Csr ex_slo, SLOr ex_slo, rnd (1 / 10 ^ 6)}. finite_double v"
    "0 \<le> SLOp ex_slo" "0 \<le> SLOr ex_slo"
    by (simp_all add: ex_slo_def configured_controller_def ex_config_def dmul_def finite_double_small rnd_nonneg)
qed

lemma ex_started:
  obtains c sh where "ex_configure 8 4 2 1 = Inr (c, sh)" and "askable 2 1 c sh"
    and "request_of c sh = ex_request (ex_slo\<lparr>SLOp := dmul (SLOp ex_slo) (10 ^ 9), SLOr := dmul (SLOr ex_slo) (10 ^ 9)\<rparr>)
      (dmul (rnd (1 / 10 ^ 6)) (10 ^ 9)) (dmul (rnd (1 / 10 ^ 6)) (10 ^ 9))"
proof -
  obtain c sh where conf: "ex_configure 8 4 2 1 = Inr (c, sh)" using ex_configure_ok [of 8 2 4 1] by auto
  let ?g = "ex_config 4 2 1"
  from conf obtain A rc O' off new where
    rel: "first_relationship (arg_W ?g) (arg_E ?g) (arg_W ?g + arg_E ?g)
       (replicate ((arg_W ?g + arg_E ?g) * (arg_W ?g + arg_E ?g)) 0, replicate (arg_W ?g + arg_E ?g) 0, replicate (arg_W ?g + arg_E ?g) 0) = (O', off, new)"
    and c: "c = (configured_controller ?g)\<lparr>reta_size := dev_reta_size (ex_env 8), reta_conf := rc, mat_A := A, mat_O := O',
       new_A := A, new_O := O', reta_updates := [rc]\<rparr>"
    by (rule configure_success)
  have rel: "first_relationship 2 1 3 (replicate 9 0, replicate 3 0, replicate 3 0) = (O', off, new)" using rel by (simp add: ex_config_def)
  have "fst (first_relationship 2 1 3 (replicate 9 0, replicate 3 0, replicate 3 0)) = [1, 1, 0, 0, 0, 0, 0, 0, 0]"
    by (simp add: first_relationship_def upt_conv_Cons numeral_eq_Suc)
  then have O': "mat_O c = [1, 1, 0, 0, 0, 0, 0, 0, 0]" "new_O c = mat_O c" using rel c by simp_all
  have inv: "epoch_inv 2 1 c sh" "total_shards sh = 4" "shards sh = map (init_shard list_table_ops list_ring_ops 2) [0..<4]"
    using configure_epoch_inv [OF conf] configure_shared_ok [OF conf] configure_shards [OF conf] by (simp_all add: ex_config_def)
  have d: "num_W c = 2" "num_E c = 1" "total_cores c = 3" "slo c = ex_slo" "Tr c = rnd (1 / 10 ^ 6)" "Tp c = rnd (1 / 10 ^ 6)"
    by (simp_all add: c configured_controller_def ex_config_def ex_slo_def)
  have "assign_ok 2 3 4 [1, 0, 0, 0, 1, 0, 1, 0, 0, 0, 1, 0]" by code_simp
  moreover have "assign_ok 2 3 4 (mat_A c)" using inv(1,2) d by (simp add: epoch_inv_def controller_inv_def)
  moreover have "assigned (mat_A c) 3 s = assigned [1, 0, 0, 0, 1, 0, 1, 0, 0, 0, 1, 0] 3 s" if "s < 4" for s
  proof -
    have "assigned (mat_A c) 3 s = s mod 2" using configure_controller_inv [OF conf] that d by (simp add: ex_config_def)
    moreover have "\<forall>s<4. assigned [1, 0, 0, 0, 1, 0, 1, 0, 0, 0, 1, 0] 3 s = s mod 2" by code_simp
    ultimately show ?thesis using that by simp
  qed
  ultimately have A: "mat_A c = [1, 0, 0, 0, 1, 0, 1, 0, 0, 0, 1, 0]" "new_A c = mat_A c"
    using assign_ok_eqI configure_controller_inv [OF conf] by (blast, simp add: ex_config_def)
  have z: "[0..<4] = [0, 1, 2, 3]" by (simp add: upt_conv_Cons)
  have "askable 2 1 c sh"
    using inv d A O' ex_slo_finite(1)
    by (simp add: askable_def sendable_def PIPE_BUF_def MAX_TERMS_def UINT32_MAX_def init_shard_def)
  moreover have "request_of c sh = ex_request (ex_slo\<lparr>SLOp := dmul (SLOp ex_slo) (10 ^ 9), SLOr := dmul (SLOr ex_slo) (10 ^ 9)\<rparr>)
      (dmul (rnd (1 / 10 ^ 6)) (10 ^ 9)) (dmul (rnd (1 / 10 ^ 6)) (10 ^ 9))"
    using inv d A O' by (simp add: request_of_def ex_request_def z init_shard_def)
  ultimately show thesis using that conf by blast
qed

lemma ex_request_simps [simp]: "SHARDS (ex_request P T Te) = 4" "MAXCORES (ex_request P T Te) = 3" "req_slo (ex_request P T Te) = P"
  "req_V (ex_request P T Te) = replicate 4 0" "vsize (ex_request P T Te) = 21"
  by (simp_all add: ex_request_def vsize_def numeral_eq_Suc)

lemma idle_vars_simps [simp]: "x_r (idle_vars q) s = 0" "load_w (idle_vars q) i = 0" "load_e (idle_vars q) i = 0" "load_we (idle_vars q) i = 0"
  "vars_w (idle_vars q) i = 0" "vars_e (idle_vars q) i = 0" "avg_w (idle_vars q) i = 0" "avg_e (idle_vars q) i = 0"
  "diff_v (idle_vars q) i = 0" "temp_v (idle_vars q) i = 0"
  by (simp_all add: idle_vars_def)

lemma ex_idle_feasible:
  assumes "0 \<le> SLOp P" and "0 \<le> SLOr P"
  shows "short_feasible exact scale (ex_request P T Te) (idle_vars (ex_request P T Te))"
proof -
  let ?q = "ex_request P T Te"
  have "short_relation exact ?q (idle_vars ?q)" by code_simp
  moreover have "short_assignment exact ?q (idle_vars ?q)" by code_simp
  moreover have "short_changes exact ?q (idle_vars ?q)" by code_simp
  moreover have "(\<forall>j<12. binary exact (x_A (idle_vars ?q) j)) \<and> (\<forall>j<9. binary exact (x_O (idle_vars ?q) j))" by code_simp
  moreover have "0 \<le> MAX_LOAD" by (simp add: MAX_LOAD_def rnd_nonneg)
  moreover have "short_working exact ?q (idle_vars ?q)"
    using assms(1) by (simp add: short_working_def Let_def delay_ok_def volume_kept_def volume_offloaded_def eq_within_def le_within_def exact_def)
  moreover have "short_offloading exact scale ?q (idle_vars ?q)"
    using assms(2) by (simp add: short_offloading_def Let_def delay_ok_def eq_within_def le_within_def exact_def)
  ultimately show ?thesis
    by (simp add: short_feasible_def short_bounds_def core_bounds_def bounded_def le_within_def exact_def)
qed

text \<open>Every constraint of the short problem only gets weaker with the tolerance.\<close>

lemma feasible_tolerance: "short_feasible exact scale q x \<Longrightarrow> short_feasible gurobi_tol scale q x"
proof -
  have t: "eq_within exact a b \<Longrightarrow> eq_within gurobi_tol a b" "le_within exact a b \<Longrightarrow> le_within gurobi_tol a b"
    "binary exact a \<Longrightarrow> binary gurobi_tol a" for a b
    using gurobi_tol_less by (auto simp: eq_within_def le_within_def binary_def exact_def)
  then have d: "delay_ok exact l v a k s \<Longrightarrow> delay_ok gurobi_tol l v a k s" for l v a k s by (simp add: delay_ok_def)
  assume "short_feasible exact scale q x"
  then show ?thesis
    unfolding short_feasible_def short_bounds_def core_bounds_def bounded_def short_changes_def short_relation_def
      short_assignment_def one_core_per_shard_def short_working_def short_offloading_def Let_def
    using t d by (simp split: if_splits)
qed

definition ex_solver :: "(u32 \<Rightarrow> short_request \<Rightarrow> short_vars grb)" where
  "ex_solver scale q = (if short_feasible exact scale q (idle_vars q) then Optimal (idle_vars q) else NotOptimal)"

lemma ex_solver_solves: "solves_short ex_solver"
proof -
  have "optimal scale q (idle_vars q)" if "short_feasible exact scale q (idle_vars q)" for scale q
  proof -
    have "- short_objective q y \<le> MIP_GAP_ABS" if "short_feasible exact scale q y" for y
    proof -
      have "0 \<le> short_objective q y"
        using feasible_cells(3) [OF that] by (auto simp: short_objective_def eq_within_def exact_def intro!: sum_nonneg)
      then show ?thesis by (simp add: MIP_GAP_ABS_def)
    qed
    moreover have "short_objective q (idle_vars q) = 0" by (simp add: short_objective_def)
    ultimately show ?thesis using feasible_tolerance [OF that] by (simp add: optimal_def le_max_iff_disj)
  qed
  then show ?thesis by (auto simp: solves_short_def ex_solver_def split: if_splits)
qed

definition ex_pipe :: fifo where "ex_pipe = \<lparr>chunks = [], arrivals = [2, 0, 1], accepts = [1]\<rparr>"

definition ex_stack :: "nat \<Rightarrow> u8 list" where "ex_stack n = replicate n 255"

abbreviation ex_ask :: "controller \<Rightarrow> (list_table, list_ring) shared \<Rightarrow> solver_answer outcome" where
  "ex_ask \<equiv> ask_solver ex_stack (\<lambda>_ _. NotOptimal) ex_solver 0 ex_pipe ex_pipe"

lemma ex_exchange: "any_bytes ex_stack" "chunks ex_pipe = []"
  by (simp_all add: ex_stack_def ex_pipe_def)

text \<open>The first request finds the start-up assignment feasible, and the solver's answer comes.\<close>

lemma ex_answered:
  obtains c sh a where "ex_configure 8 4 2 1 = Inr (c, sh)" and "askable 2 1 c sh" and "ex_ask c sh = Inr (Some a)"
    and "present_feasible 0 (request_of c sh)" and "vsize (request_of c sh) = 21"
proof -
  obtain c sh where 1: "ex_configure 8 4 2 1 = Inr (c, sh)" "askable 2 1 c sh"
    and q: "request_of c sh = ex_request (ex_slo\<lparr>SLOp := dmul (SLOp ex_slo) (10 ^ 9), SLOr := dmul (SLOr ex_slo) (10 ^ 9)\<rparr>)
      (dmul (rnd (1 / 10 ^ 6)) (10 ^ 9)) (dmul (rnd (1 / 10 ^ 6)) (10 ^ 9))" by (rule ex_started)
  have i: "short_feasible exact 0 (request_of c sh) (idle_vars (request_of c sh))"
    unfolding q by (rule ex_idle_feasible) (simp_all add: dmul_def rnd_nonneg ex_slo_finite)
  then have "ex_ask c sh = Inr (Some (short_answer (request_of c sh) (idle_vars (request_of c sh))))"
    using asked [OF 1(2) ex_exchange(1,2,2) ex_solver_solves] by (simp add: ex_solver_def)
  moreover have "present_feasible 0 (request_of c sh)"
    using i unfolding present_feasible_def
    by (intro conjI exI [of _ "idle_vars (request_of c sh)"]) (auto simp: cell_value_def old_cell_def idle_vars_def Let_def q ex_request_def)
  ultimately show thesis using that 1 q by simp
qed

theorem solver_messages_roundtrip_witness:
  "\<exists>c sh. ex_configure 8 4 2 1 = Inr (c, sh)
     \<and> (let a = Some ([1 / 2, 0, 1, 0], mat_A c, mat_O c); f1 = snd (run_state (send_request fifo_write c sh) ex_pipe);
            (mode, f2) = run_state (receive_u32 fifo_read ex_stack) f1;
            (q, f3) = run_state (receive_short fifo_read ex_stack) f2;
            (b, f4) = run_state (receive_answer fifo_read ex_stack c sh) (snd (run_state (send_answer fifo_write a) ex_pipe))
        in mode = SHORT \<and> q = request_of c sh \<and> chunks f3 = [] \<and> b = a \<and> chunks f4 = [])"
proof -
  obtain c sh where 1: "ex_configure 8 4 2 1 = Inr (c, sh)" "askable 2 1 c sh" by (rule ex_started)
  let ?a = "Some ([1 / 2, 0, 1, 0], mat_A c, mat_O c)"
  have s: "sendable c sh" "8 * total_shards sh \<le> PIPE_BUF" "length (new_A c) = total_shards sh * total_cores c"
    "length (new_O c) = total_cores c * total_cores c" using 1(2) by (simp_all add: askable_def)
  have "total_shards sh = 4" using configure_shared_ok [OF 1(1)] by (simp add: ex_config_def)
  moreover have "finite_double (1 / 2)" "finite_double 1"
    using finite_double_dyadic [of 1 "- 1"] finite_double_dyadic [of 1 0] by (simp_all add: power_int_minus)
  ultimately have "answerable c sh ?a" using s(1) by (auto simp: answerable_def sendable_def)
  note r = solver_messages_roundtrip [OF s(1) ex_exchange(1,2,2) this s(2-4)]
  show ?thesis unfolding Let_def
    by (rule exI [of _ c], rule exI [of _ sh], rule conjI [OF 1(1)], rule r [unfolded Let_def])
qed

theorem solver_answer_valid_witness:
  "\<exists>c sh a c' sh'. ex_configure 8 4 2 1 = Inr (c, sh) \<and> ex_ask c sh = Inr (Some a) \<and> answer_ok 2 1 4 a
     \<and> (let (c3, sh3) = accept_answer a c sh in apply_solution list_ring_ops c3 sh3) = Inr (c', sh') \<and> epoch_inv 2 1 c' sh'"
proof -
  obtain c sh a where 1: "ex_configure 8 4 2 1 = Inr (c, sh)" "askable 2 1 c sh" "ex_ask c sh = Inr (Some a)" by (rule ex_answered)
  have "total_shards sh = 4" using configure_shared_ok [OF 1(1)] by (simp add: ex_config_def)
  have "\<exists>x. ex_solver 0 (request_of c sh) = Optimal x"
    using 1(3) asked [OF 1(2) ex_exchange(1,2,2) ex_solver_solves, where long = "\<lambda>_ _. NotOptimal" and scale = 0]
    by (cases "ex_solver 0 (request_of c sh)") auto
  then obtain c' sh' where "answer_ok 2 1 4 a" "epoch_inv 2 1 c' sh'"
    "(let (c3, sh3) = accept_answer a c sh in apply_solution list_ring_ops c3 sh3) = Inr (c', sh')"
    using solver_answer_valid [OF 1(2) ex_exchange(1,2,2) ex_solver_solves,
      where long = "\<lambda>_ _. NotOptimal" and scale = 0 and R = list_ring_ops] 1(3) \<open>total_shards sh = 4\<close> by auto
  then show ?thesis using 1(1,3) by blast
qed


text \<open>Without any delay allowed to the offloading cores, after a long request and a short one.\<close>

theorem offloading_delay_ignored_witness:
  "\<exists>scale as y. serve_requests fifo_read fifo_write ex_stack (\<lambda>_ _. NotOptimal) ex_solver True [(ex_pipe, ex_pipe), (ex_pipe, ex_pipe)] INITIAL_SCALE = (scale, as)
     \<and> short_feasible exact scale (ex_request (ex_slo\<lparr>Car := 5, Csr := 5, SLOr := 0\<rparr>) 1 1000) y \<and> x_O y = x_O (idle_vars (ex_request ex_slo 1 1))"
proof -
  obtain scale as where s: "serve_requests fifo_read fifo_write ex_stack (\<lambda>_ _. NotOptimal) ex_solver True [(ex_pipe, ex_pipe), (ex_pipe, ex_pipe)] INITIAL_SCALE = (scale, as)"
    by fastforce
  have "short_feasible exact scale (ex_request ex_slo 1 1) (idle_vars (ex_request ex_slo 1 1))"
    by (rule ex_idle_feasible) (simp_all add: ex_slo_finite)
  from offloading_delay_ignored [OF s this, where limit = 0 and ca = 5 and cs = 5 and Te = 1000] obtain y where
    y: "short_feasible exact scale (ex_request (ex_slo\<lparr>Car := 5, Csr := 5, SLOr := 0\<rparr>) 1 1000) y" "x_O y = x_O (idle_vars (ex_request ex_slo 1 1))"
    by (auto simp: ex_request_def)
  show ?thesis by (rule exI [of _ scale], rule exI [of _ as], rule exI [of _ y]) (use s y in blast)
qed

end
