(* ===== verification/Recording.thy ===== *)
theory Recording
  imports Flow_Extract Epoch
begin

text \<open>
  Recording a flow against a round of the controller, step by step. A shard has two tables of recorded
  flows: the workers put into the one \<open>use_2\<close> names, the controller orders and clears the other one,
  after it has waited for that one's reference count to be 0 (\<open>extract_state\<close> in
  \<open>dyssectworkingcore.cc\<close>; \<open>swap_shards\<close>, \<open>order_shards\<close>, \<open>clear_flows\<close> in \<open>dyssectcontroller.cc\<close>).
  The other theories take each of these as one step; here the worker's test of \<open>use_2\<close>, its
  increment, its insertion and its decrement are steps of their own, as are the controller's swap, its
  two waits, and the ends of its two passes over the table.
\<close>

subsection \<open>The steps\<close>

definition enter_ref :: "bool \<Rightarrow> ('t, 'r) ShardInfo \<Rightarrow> ('t, 'r) ShardInfo" where
  "enter_ref b i = (if b then i\<lparr>ref_count_2 := ref_count_2 i + 1\<rparr> else i\<lparr>ref_count_1 := ref_count_1 i + 1\<rparr>)"

definition put_flow :: "'t table_ops \<Rightarrow> bool \<Rightarrow> DyssectFlow \<Rightarrow> addr \<Rightarrow> ('t, 'r) ShardInfo \<Rightarrow> ('t, 'r) ShardInfo" where
  "put_flow T b k a i = (if b then i\<lparr>flows3_2 := table_put T k a (flows3_2 i)\<rparr> else i\<lparr>flows3 := table_put T k a (flows3 i)\<rparr>)"

definition leave_ref :: "bool \<Rightarrow> ('t, 'r) ShardInfo \<Rightarrow> ('t, 'r) ShardInfo" where
  "leave_ref b i = (if b then i\<lparr>ref_count_2 := ref_count_2 i - 1\<rparr> else i\<lparr>ref_count_1 := ref_count_1 i - 1\<rparr>)"

definition flip_buffer :: "('t, 'r) ShardInfo \<Rightarrow> ('t, 'r) ShardInfo" where
  "flip_buffer i = i\<lparr>use_2 := \<not> use_2 i\<rparr>"

text \<open>Where a worker and the controller are in the code.\<close>

datatype recording = Away | Tested bool DyssectFlow addr | Inside bool DyssectFlow addr | Written bool

datatype round_at = Serving | Swapped | Ordering | Ordered | Clearing

record ('t, 'r) recorder =
  info :: "('t, 'r) ShardInfo"
  worker_at :: "nat \<Rightarrow> recording"
  round_at :: round_at

text \<open>\<open>N\<close> workers may record flows of the shard.\<close>

inductive worker_step :: "'t table_ops \<Rightarrow> nat \<Rightarrow> ('t, 'r) recorder \<Rightarrow> ('t, 'r) recorder \<Rightarrow> bool" for T N where
  test: "w < N \<Longrightarrow> worker_at s w = Away \<Longrightarrow>
    worker_step T N s (s\<lparr>worker_at := (worker_at s)(w := Tested (use_2 (info s)) k a)\<rparr>)"
| enter: "w < N \<Longrightarrow> worker_at s w = Tested b k a \<Longrightarrow>
    worker_step T N s (s\<lparr>info := enter_ref b (info s), worker_at := (worker_at s)(w := Inside b k a)\<rparr>)"
| put: "w < N \<Longrightarrow> worker_at s w = Inside b k a \<Longrightarrow>
    worker_step T N s (s\<lparr>info := put_flow T b k a (info s), worker_at := (worker_at s)(w := Written b)\<rparr>)"
| leave: "w < N \<Longrightarrow> worker_at s w = Written b \<Longrightarrow>
    worker_step T N s (s\<lparr>info := leave_ref b (info s), worker_at := (worker_at s)(w := Away)\<rparr>)"

inductive round_step :: "'t table_ops \<Rightarrow> ('t, 'r) recorder \<Rightarrow> ('t, 'r) recorder \<Rightarrow> bool" for T where
  swap: "round_at s = Serving \<Longrightarrow> round_step T s (s\<lparr>info := flip_buffer (info s), round_at := Swapped\<rparr>)"
| await_order: "round_at s = Swapped \<Longrightarrow> ref_of (\<not> use_2 (info s)) (info s) = 0 \<Longrightarrow> round_step T s (s\<lparr>round_at := Ordering\<rparr>)"
| end_order: "round_at s = Ordering \<Longrightarrow> round_step T s (s\<lparr>round_at := Ordered\<rparr>)"
| await_clear: "round_at s = Ordered \<Longrightarrow> ref_of (\<not> use_2 (info s)) (info s) = 0 \<Longrightarrow> round_step T s (s\<lparr>round_at := Clearing\<rparr>)"
| end_clear: "round_at s = Clearing \<Longrightarrow> round_step T s (s\<lparr>info := clear_idle T (info s), round_at := Serving\<rparr>)"

definition record_step :: "'t table_ops \<Rightarrow> nat \<Rightarrow> ('t, 'r) recorder \<Rightarrow> ('t, 'r) recorder \<Rightarrow> bool" where
  "record_step T N s s' \<longleftrightarrow> worker_step T N s s' \<or> round_step T s s'"

definition recorder_start :: "('t, 'r) recorder \<Rightarrow> bool" where
  "recorder_start s \<longleftrightarrow> (\<forall>w. worker_at s w = Away) \<and> round_at s = Serving \<and> ref_count_1 (info s) = 0 \<and> ref_count_2 (info s) = 0"

inductive recorded :: "'t table_ops \<Rightarrow> nat \<Rightarrow> ('t, 'r) recorder \<Rightarrow> bool" for T N where
  start: "recorder_start s \<Longrightarrow> recorded T N s"
| step: "recorded T N s \<Longrightarrow> record_step T N s s' \<Longrightarrow> recorded T N s'"

text \<open>One after the other, a worker's steps are the record of the sequential model, and a round's are its swap and clear.\<close>

lemma steps_record: "leave_ref b (put_flow T b k a (enter_ref b i)) = record_flow T k a i" if "b = use_2 i"
  using that by (cases i) (auto simp: leave_ref_def put_flow_def enter_ref_def record_flow_def)

subsection \<open>The reference counts\<close>

fun holds :: "bool \<Rightarrow> recording \<Rightarrow> bool" where
  "holds b (Inside b' k a) = (b' = b)"
| "holds b (Written b') = (b' = b)"
| "holds b _ = False"

fun stale :: "bool \<Rightarrow> recording \<Rightarrow> bool" where
  "stale b (Tested b' k a) = (b' = b)"
| "stale b _ = False"

definition holders :: "nat \<Rightarrow> bool \<Rightarrow> ('t, 'r) recorder \<Rightarrow> nat set" where
  "holders N b s = {w. w < N \<and> holds b (worker_at s w)}"

definition refs_count :: "nat \<Rightarrow> ('t, 'r) recorder \<Rightarrow> bool" where
  "refs_count N s \<longleftrightarrow> (\<forall>b. ref_of b (info s) = of_nat (card (holders N b s)))"

lemma finite_holders [simp]: "finite (holders N b s)"
  by (simp add: holders_def)

lemma ref_of_steps [simp]:
  "ref_of b (enter_ref b' i) = (if b = b' then ref_of b i + 1 else ref_of b i)"
  "ref_of b (leave_ref b' i) = (if b = b' then ref_of b i - 1 else ref_of b i)"
  "ref_of b (put_flow T b' k a i) = ref_of b i" "ref_of b (flip_buffer i) = ref_of b i" "ref_of b (clear_idle T i) = ref_of b i"
  by (simp_all add: ref_of_def enter_ref_def leave_ref_def put_flow_def flip_buffer_def clear_idle_def)

lemma use_2_steps [simp]: "use_2 (enter_ref b i) = use_2 i" "use_2 (leave_ref b i) = use_2 i" "use_2 (put_flow T b k a i) = use_2 i"
  "use_2 (clear_idle T i) = use_2 i" "use_2 (flip_buffer i) = (\<not> use_2 i)"
  by (simp_all add: enter_ref_def leave_ref_def put_flow_def flip_buffer_def clear_idle_def)

lemma holders_update:
  assumes "w < N"
  shows "holders N b (s\<lparr>info := i, worker_at := (worker_at s)(w := r)\<rparr>) = (if holds b r then insert w (holders N b s) else holders N b s - {w})"
  using assms by (auto simp: holders_def)

lemma refs_count_worker:
  assumes "worker_step T N s s'" and "refs_count N s"
  shows "refs_count N s'"
  using assms
proof cases
  case (test w k a)
  have "holders N b (s\<lparr>worker_at := (worker_at s)(w := Tested (use_2 (info s)) k a)\<rparr>) = holders N b s" for b
    using test(3) by (auto simp: holders_def)
  then show ?thesis using test(1) assms(2) by (simp add: refs_count_def)
next
  case (enter w b k a)
  then have "w \<notin> holders N b' s" for b' by (simp add: holders_def)
  then show ?thesis using assms(2) enter(1,2) by (auto simp: refs_count_def holders_update)
next
  case (put w b k a)
  then have "holds b' (worker_at s w) \<longleftrightarrow> b' = b" for b' by auto
  then have "w \<in> holders N b' s \<longleftrightarrow> b' = b" for b' using put(2) by (simp add: holders_def)
  then show ?thesis using assms(2) put(1,2) by (auto simp: refs_count_def holders_update insert_absorb)
next
  case (leave w b)
  then have m: "w \<in> holders N b' s \<longleftrightarrow> b' = b" for b' by (auto simp: holders_def)
  then have "w \<in> holders N b s" by simp
  from card.remove [OF finite_holders this] have "card (holders N b s) = Suc (card (holders N b s - {w}))" .
  then show ?thesis using assms(2) leave(1,2) m by (auto simp: refs_count_def holders_update)
qed

lemma recorded_refs: "recorded T N s \<Longrightarrow> refs_count N s"
proof (induction rule: recorded.induct)
  case (start s)
  then show ?case by (simp add: recorder_start_def refs_count_def ref_of_def holders_def)
next
  case (step s s')
  then show ?case unfolding record_step_def
  proof (elim disjE)
    assume "round_step T s s'"
    then show ?thesis using step.IH by cases (simp_all add: refs_count_def holders_def)
  qed (rule refs_count_worker)
qed

lemma no_holders:
  assumes "recorded T N s" and "N < 2 ^ 32" and "ref_of b (info s) = 0"
  shows "holders N b s = {}"
proof -
  have "card (holders N b s) \<le> card {..<N}" by (rule card_mono) (auto simp: holders_def)
  then have "card (holders N b s) < 2 ^ 32" using assms(2) by simp
  moreover have "(of_nat (card (holders N b s)) :: u32) = 0" using recorded_refs [OF assms(1)] assms(3) by (simp add: refs_count_def)
  moreover from calculation(1) have "unat (of_nat (card (holders N b s)) :: u32) = card (holders N b s)"
    by (simp add: unat_of_nat take_bit_eq_mod)
  ultimately have "card (holders N b s) = 0" by simp
  then show ?thesis by simp
qed

subsection \<open>When the controller has a table for itself\<close>

definition idle_of :: "('t, 'r) recorder \<Rightarrow> bool" where
  "idle_of s \<longleftrightarrow> \<not> use_2 (info s)"

text \<open>A worker is about to insert into the table that the controller is passing over.\<close>

definition conflict :: "nat \<Rightarrow> ('t, 'r) recorder \<Rightarrow> bool" where
  "conflict N s \<longleftrightarrow> round_at s \<in> {Ordering, Clearing} \<and> (\<exists>w<N. \<exists>k a. worker_at s w = Inside (idle_of s) k a)"

text \<open>A worker has tested \<open>use_2\<close> before the swap and has not incremented the count yet.\<close>

definition stale_test :: "nat \<Rightarrow> ('t, 'r) recorder \<Rightarrow> bool" where
  "stale_test N s \<longleftrightarrow> (\<exists>w<N. stale (idle_of s) (worker_at s w))"

definition undisturbed :: "nat \<Rightarrow> ('t, 'r) recorder \<Rightarrow> bool" where
  "undisturbed N s \<longleftrightarrow> \<not> stale_test N s \<and> holders N (idle_of s) s = {}"

lemma undisturbed_conflict: "undisturbed N s \<Longrightarrow> \<not> conflict N s"
  by (auto simp: undisturbed_def conflict_def holders_def)

text \<open>The steps of one round: all but the swap.\<close>

definition within_round :: "'t table_ops \<Rightarrow> nat \<Rightarrow> ('t, 'r) recorder \<Rightarrow> ('t, 'r) recorder \<Rightarrow> bool" where
  "within_round T N s s' \<longleftrightarrow> record_step T N s s' \<and> use_2 (info s') = use_2 (info s)"

lemma undisturbed_step:
  assumes "undisturbed N s" and "within_round T N s s'"
  shows "undisturbed N s' \<and> idle_of s' = idle_of s"
proof -
  have u: "\<not> stale (idle_of s) (worker_at s w)" "\<not> holds (idle_of s) (worker_at s w)" if "w < N" for w
    using assms(1) that by (auto simp: undisturbed_def stale_test_def holders_def)
  have v: "worker_at s w \<noteq> Tested (idle_of s) k a" "worker_at s w \<noteq> Inside (idle_of s) k a" if "w < N" for w k a
    using u [OF that] by auto
  have un: "undisturbed N t" if "idle_of t = idle_of s" "\<And>v. v < N \<Longrightarrow> \<not> stale (idle_of s) (worker_at t v) \<and> \<not> holds (idle_of s) (worker_at t v)"
    for t :: "('a, 'b) recorder"
    using that by (auto simp: undisturbed_def stale_test_def holders_def)
  from assms(2) have "worker_step T N s s' \<or> round_step T s s'" and i: "idle_of s' = idle_of s"
    by (auto simp: within_round_def record_step_def idle_of_def)
  then show ?thesis
  proof (elim disjE)
    assume "worker_step T N s s'"
    then show ?thesis
      by cases (use u v i in \<open>auto intro!: un simp: idle_of_def split: if_splits\<close>)
  next
    assume "round_step T s s'"
    then show ?thesis by cases (use assms(2) u i in \<open>auto intro!: un simp: within_round_def idle_of_def\<close>)
  qed
qed

lemma undisturbed_round:
  assumes "(within_round T N)\<^sup>*\<^sup>* s s'" and "undisturbed N s"
  shows "undisturbed N s' \<and> idle_of s' = idle_of s"
  using assms by (induction rule: rtranclp_induct) (auto dest: undisturbed_step)

text \<open>
  C10: when the controller has waited for the reference count, a worker can come to insert into the
  table it orders or clears in the same round if and only if some worker was, at the end of the wait,
  between its test of \<open>use_2\<close> and its increment: the count alone does not give the controller the table.
\<close>

theorem wait_excludes_recording:
  assumes "recorded T N s" and "N < 2 ^ 32" and "round_at s \<in> {Swapped, Ordered}" and "round_step T s s1"
  shows "(\<exists>s2. (within_round T N)\<^sup>*\<^sup>* s1 s2 \<and> conflict N s2) \<longleftrightarrow> stale_test N s"
proof -
  have ref: "ref_of (idle_of s) (info s) = 0" and s1: "worker_at s1 = worker_at s" "info s1 = info s" "round_at s1 \<in> {Ordering, Clearing}"
    using assms(4,3) by (cases; auto simp: idle_of_def)+
  then have i: "idle_of s1 = idle_of s" by (simp add: idle_of_def)
  show ?thesis
  proof
    assume "\<exists>s2. (within_round T N)\<^sup>*\<^sup>* s1 s2 \<and> conflict N s2"
    then obtain s2 where s2: "(within_round T N)\<^sup>*\<^sup>* s1 s2" "conflict N s2" by blast
    have "holders N (idle_of s) s = {}" by (rule no_holders [OF assms(1,2) ref])
    then have "\<not> stale_test N s \<Longrightarrow> undisturbed N s1" using s1 i by (simp add: undisturbed_def stale_test_def holders_def)
    then show "stale_test N s" using undisturbed_round [OF s2(1)] undisturbed_conflict s2(2) by blast
  next
    assume "stale_test N s"
    then obtain w where "w < N" "stale (idle_of s) (worker_at s w)" by (auto simp: stale_test_def)
    then obtain k a where w: "w < N" "worker_at s1 w = Tested (idle_of s) k a" using s1 by (cases "worker_at s w") auto
    let ?s2 = "s1\<lparr>info := enter_ref (idle_of s) (info s1), worker_at := (worker_at s1)(w := Inside (idle_of s) k a)\<rparr>"
    have "within_round T N s1 ?s2" using worker_step.enter [OF w] by (simp add: within_round_def record_step_def)
    moreover have "conflict N ?s2" using w(1) s1(3) i by (auto simp: conflict_def idle_of_def)
    ultimately show "\<exists>s2. (within_round T N)\<^sup>*\<^sup>* s1 s2 \<and> conflict N s2" by blast
  qed
qed

text \<open>A worker tests, the controller swaps and waits, the worker goes on: on a shard as \<open>init_shards\<close> makes it.\<close>

definition ex_recorder :: "(list_table, list_ring) recorder" where
  "ex_recorder = \<lparr>info = init_shard list_table_ops list_ring_ops 1 0, worker_at = (\<lambda>_. Away), round_at = Serving\<rparr>"

definition ex_stale :: "(list_table, list_ring) recorder" where
  "ex_stale = ex_recorder\<lparr>info := flip_buffer (info ex_recorder), worker_at := (\<lambda>w. if w = 0 then Tested False (ex_flow 1) 7 else Away),
     round_at := Swapped\<rparr>"

theorem wait_excludes_recording_witness:
  "recorded list_table_ops 1 ex_stale
   \<and> (\<exists>s2. (within_round list_table_ops 1)\<^sup>*\<^sup>* (ex_stale\<lparr>round_at := Ordering\<rparr>) s2 \<and> conflict 1 s2)"
proof -
  let ?s1 = "ex_recorder\<lparr>worker_at := (worker_at ex_recorder)(0 := Tested (use_2 (info ex_recorder)) (ex_flow 1) 7)\<rparr>"
  have "recorded list_table_ops 1 ex_recorder"
    by (rule recorded.start) (simp add: recorder_start_def ex_recorder_def init_shard_def)
  moreover have "worker_step list_table_ops 1 ex_recorder ?s1" by (rule worker_step.test) (simp_all add: ex_recorder_def)
  ultimately have "recorded list_table_ops 1 ?s1" by (auto intro: recorded.step simp: record_step_def)
  moreover have "round_step list_table_ops ?s1 (?s1\<lparr>info := flip_buffer (info ?s1), round_at := Swapped\<rparr>)"
    by (rule round_step.swap) (simp add: ex_recorder_def)
  moreover have "?s1\<lparr>info := flip_buffer (info ?s1), round_at := Swapped\<rparr> = ex_stale"
    by (auto simp: ex_stale_def ex_recorder_def init_shard_def)
  ultimately have r: "recorded list_table_ops 1 ex_stale" by (metis recorded.step record_step_def)
  have st: "stale_test 1 ex_stale" by (simp add: stale_test_def ex_stale_def idle_of_def ex_recorder_def init_shard_def flip_buffer_def)
  have "round_step list_table_ops ex_stale (ex_stale\<lparr>round_at := Ordering\<rparr>)"
    by (rule round_step.await_order) (simp_all add: ex_stale_def ex_recorder_def init_shard_def ref_of_def flip_buffer_def)
  from wait_excludes_recording [OF r _ _ this] st r show ?thesis by (simp add: ex_stale_def)
qed

end
