(* ===== verification/Statistics.thy ===== *)
theory Statistics
  imports Working_Core
begin

text \<open>
  The read handlers of the working core (\<open>xstats_handler\<close> in \<open>dyssectworkingcore.cc\<close>), built with DPDK
  16.07 or later and without Click's flow API. They print what the driver reports; the driver is a
  parameter. A handler gets the parameter of the request as \<open>input\<close> and returns its code and the text.
\<close>

datatype handler_op = h_vendor | h_driver | h_carrier | h_duplex | h_autoneg | h_speed | h_type
  | h_ipackets | h_ibytes | h_imissed | h_ierrors | h_nombufs | h_stats_packets | h_stats_bytes
  | h_active | h_safe_active | h_xstats | h_queue_count | h_nb_rx_queues | h_nb_tx_queues | h_nb_vf_pools
  | h_rss | h_rss_reta | h_rss_reta_size | h_mac | h_add_mac | h_remove_mac | h_vf_mac | h_mtu | h_device | h_isolate

text \<open>
  \<open>xstats\<close>: the names of the extended statistics with their ids and values; \<open>eth_stats\<close>: the code
  \<open>rte_eth_stats_get\<close> returns and the arrays \<open>q_ipackets\<close> and \<open>q_ibytes\<close> it fills.
\<close>

record nic_stats =
  xstats :: "(string \<times> nat \<times> nat) list"
  rx_queue_count :: "nat \<Rightarrow> int"
  eth_stats :: "int \<times> nat list \<times> nat list"

definition RTE_ETHDEV_QUEUE_STAT_CNTRS :: nat where "RTE_ETHDEV_QUEUE_STAT_CNTRS = 16"

definition EINVAL :: int where "EINVAL = 22"

subsection \<open>Numbers as text\<close>

definition digit :: "nat \<Rightarrow> char" where "digit n = char_of (48 + n)"

definition is_digit :: "char \<Rightarrow> bool" where "is_digit c \<longleftrightarrow> 48 \<le> (of_char c :: nat) \<and> (of_char c :: nat) < 58"

definition is_space :: "char \<Rightarrow> bool" where "is_space c \<longleftrightarrow> (of_char c :: nat) = 32 \<or> 9 \<le> (of_char c :: nat) \<and> (of_char c :: nat) < 14"

fun decimal :: "nat \<Rightarrow> string" where
  "decimal n = (if n < 10 then [digit n] else decimal (n div 10) @ [digit (n mod 10)])"

declare decimal.simps [simp del]

definition decimal_int :: "int \<Rightarrow> string" where
  "decimal_int i = (if i < 0 then ''-'' @ decimal (nat (- i)) else decimal (nat i))"

definition digits_value :: "string \<Rightarrow> nat" where
  "digits_value s = fold (\<lambda>c v. 10 * v + (of_char c - 48)) (takeWhile is_digit s) 0"

definition atoi :: "string \<Rightarrow> int" where
  "atoi s = (case dropWhile is_space s of [] \<Rightarrow> 0
     | c # cs \<Rightarrow> if c = CHR ''-'' then - int (digits_value cs) else if c = CHR ''+'' then int (digits_value cs) else int (digits_value (c # cs)))"

subsection \<open>The handler\<close>

definition print_xstat :: "string \<times> nat \<times> nat \<Rightarrow> string" where
  "print_xstat = (\<lambda>(name, i, v). name @ ''['' @ decimal i @ ''] = '' @ decimal v @ [CHR 0x0A])"

definition xstats_handler :: "nic_stats \<Rightarrow> handler_op \<Rightarrow> string \<Rightarrow> (int \<times> string) outcome" where
  "xstats_handler S op input = (case op of
     h_xstats \<Rightarrow>
       if input = [] then Inr (0, concat (map print_xstat (xstats S)))
       else (case List.find (\<lambda>x. fst x = input) (xstats S) of None \<Rightarrow> Inr (- 1, input) | Some (_, _, v) \<Rightarrow> Inr (0, decimal v))
   | h_queue_count \<Rightarrow>
       if input = [] then Inr (0, ''Queue '' @ decimal 0 @ '': '' @ decimal_int (rx_queue_count S 0) @ [CHR 0x0A])
       else Inr (0, decimal_int (rx_queue_count S (nat (atoi input mod 2 ^ 16))))
   | _ \<Rightarrow>
       if op = h_stats_packets \<or> op = h_stats_bytes then
         let (ret, q_ipackets, q_ibytes) = eth_stats S; i = atoi input; q = (if op = h_stats_packets then q_ipackets else q_ibytes) in
         if ret \<noteq> 0 then Inr (- 1, input)
         else if i < 0 \<or> i > int RTE_ETHDEV_QUEUE_STAT_CNTRS then Inr (- EINVAL, input)
         else check_index (nat i) q (Inr (0, decimal (q ! nat i)))
       else Inr (- 1, input))"

subsection \<open>What it answers\<close>

lemma of_char_digit: "n < 10 \<Longrightarrow> (of_char (digit n) :: nat) = 48 + n"
  by (simp add: digit_def)

lemma digit_is_digit: "n < 10 \<Longrightarrow> is_digit (digit n)"
  by (simp add: is_digit_def of_char_digit)

lemma decimal_digits: "\<forall>c\<in>set (decimal n). is_digit c"
proof (induction n rule: decimal.induct)
  case (1 n)
  then show ?case by (subst decimal.simps) (auto simp: digit_is_digit)
qed

lemma decimal_value: "digits_value (decimal n) = n"
proof -
  have "takeWhile is_digit (decimal n) = decimal n" using decimal_digits by (simp add: takeWhile_eq_all_conv)
  moreover have "fold (\<lambda>c v. 10 * v + (of_char c - 48)) (decimal n) 0 = n"
  proof (induction n rule: decimal.induct)
    case (1 n)
    then show ?case by (subst decimal.simps) (simp add: of_char_digit)
  qed
  ultimately show ?thesis by (simp only: digits_value_def)
qed

lemma atoi_decimal: "atoi (decimal n) = int n"
proof -
  obtain c cs where c: "decimal n = c # cs" by (cases "decimal n") (subst (asm) decimal.simps, auto split: if_splits)+
  then have "is_digit c" using decimal_digits [of n] by simp
  then have "\<not> is_space c" "c \<noteq> CHR ''-''" "c \<noteq> CHR ''+''" by (auto simp: is_digit_def is_space_def)
  then show ?thesis using decimal_value [of n] by (simp add: atoi_def c)
qed

text \<open>
  The counters of queue \<open>k\<close> are printed for the 16 queues there are; the number 16 itself passes the check
  and reads past the array, larger ones are refused.
\<close>

lemma queue_statistics:
  assumes "eth_stats S = (0, ps, bs)" and "length ps = RTE_ETHDEV_QUEUE_STAT_CNTRS" and "length bs = RTE_ETHDEV_QUEUE_STAT_CNTRS"
  shows "xstats_handler S h_stats_packets (decimal k) =
    (if k < 16 then Inr (0, decimal (ps ! k)) else if k = 16 then Inl OutOfBounds else Inr (- 22, decimal k))"
    and "xstats_handler S h_stats_bytes (decimal k) =
    (if k < 16 then Inr (0, decimal (bs ! k)) else if k = 16 then Inl OutOfBounds else Inr (- 22, decimal k))"
  using assms by (simp_all add: xstats_handler_def atoi_decimal RTE_ETHDEV_QUEUE_STAT_CNTRS_def EINVAL_def check_index_def)

end
