(* ===== verification/Shared_Memory.thy ===== *)
theory Shared_Memory
  imports Handover Offloading_Core Service_Chain Solver_Link
begin

text \<open>
  What all elements rely on in the memory they share (the static members of \<open>DyssectController\<close>):
  the tables, the rings and what may be in them, the indices and the numbers that are sent to the solver.
\<close>

subsection \<open>What a ring may hold\<close>

text \<open>
  The control rings of the offloading cores hold pointers to rings of working cores, the rings and
  queues of working cores hold packets. \<open>ok\<close> says which packets there are.
\<close>

fun data_ring :: "nat \<Rightarrow> ring_ptr \<Rightarrow> bool" where
  "data_ring W (RingOf i) = (i < W)"
| "data_ring W (QueueOf i) = (i < W)"
| "data_ring W (ToAdd e) = False"
| "data_ring W (ToRemove e) = False"

fun control_ring :: "nat \<Rightarrow> ring_ptr \<Rightarrow> bool" where
  "control_ring E (ToAdd e) = (e < E)"
| "control_ring E (ToRemove e) = (e < E)"
| "control_ring E (RingOf i) = False"
| "control_ring E (QueueOf i) = False"

fun is_packet :: "(mbuf \<Rightarrow> bool) \<Rightarrow> void_ptr \<Rightarrow> bool" where
  "is_packet ok (PMbuf m) = ok m"
| "is_packet ok (PRing p) = False"

fun is_queue :: "nat \<Rightarrow> void_ptr \<Rightarrow> bool" where
  "is_queue W (PMbuf m) = False"
| "is_queue W (PRing p) = data_ring W p"

definition rings_typed :: "('r \<Rightarrow> void_ptr list) \<Rightarrow> (mbuf \<Rightarrow> bool) \<Rightarrow> nat \<Rightarrow> nat \<Rightarrow> ('t, 'r) shared \<Rightarrow> bool" where
  "rings_typed cont ok W E sh \<longleftrightarrow> (\<forall>p. (data_ring W p \<longrightarrow> list_all (is_packet ok) (cont (ring_at sh p)))
     \<and> (control_ring E p \<longrightarrow> list_all (is_queue W) (cont (ring_at sh p))))"

lemma rings_typedD:
  assumes "rings_typed cont ok W E sh"
  shows "data_ring W p \<Longrightarrow> list_all (is_packet ok) (cont (ring_at sh p))" "control_ring E p \<Longrightarrow> list_all (is_queue W) (cont (ring_at sh p))"
  using assms by (simp_all add: rings_typed_def)

lemma rings_typed_cong: "ring_at sh' = ring_at sh \<Longrightarrow> rings_typed cont ok W E sh' = rings_typed cont ok W E sh"
  by (simp add: rings_typed_def)

lemma rings_typed_set:
  assumes "rings_typed cont ok W E sh" and "data_ring W p \<Longrightarrow> list_all (is_packet ok) (cont r)" and "control_ring E p \<Longrightarrow> list_all (is_queue W) (cont r)"
  shows "rings_typed cont ok W E (set_ring p r sh)"
  using assms by (simp add: rings_typed_def)

lemma data_not_control: "data_ring W p \<Longrightarrow> \<not> control_ring E p"
  by (cases p) simp_all

lemma list_all_take: "list_all P xs \<Longrightarrow> list_all P (take n xs)"
  by (auto simp: list_all_iff dest: in_set_takeD)

lemma list_all_drop: "list_all P xs \<Longrightarrow> list_all P (drop n xs)"
  by (auto simp: list_all_iff dest: in_set_dropD)

lemmas list_all_parts = list_all_take list_all_drop

subsection \<open>Ratios and volumes\<close>

text \<open>The ratios are small numbers, so that what \<open>update_ratio\<close> makes of them stays a finite double.\<close>

definition ratio_ok :: "double \<Rightarrow> bool" where
  "ratio_ok r \<longleftrightarrow> finite_double r \<and> \<bar>r\<bar> \<le> 4"

definition shard_good :: "('r \<Rightarrow> void_ptr list) \<Rightarrow> (mbuf \<Rightarrow> bool) \<Rightarrow> nat \<Rightarrow> ('t, 'r) ShardInfo \<Rightarrow> bool" where
  "shard_good cont ok W i \<longleftrightarrow> owner i < W \<and> (owner_new i < W \<or> owner_new i = UINT32_MAX)
     \<and> ref_count_1 i = 0 \<and> ref_count_2 i = 0 \<and> list_all (is_packet ok) (cont (local_queue i))
     \<and> ratio_ok (shard_r i) \<and> ratio_ok (r_new i) \<and> finite_double (shard_V i)"

subsection \<open>The invariant of the shared memory\<close>

text \<open>\<open>G\<close>: flows with their states that the tables have once had.\<close>

definition remembers :: "(DyssectFlow \<times> addr) set \<Rightarrow> ('t \<Rightarrow> (DyssectFlow \<times> addr) set) \<Rightarrow> ('t, 'r) shared \<Rightarrow> bool" where
  "remembers G ent sh \<longleftrightarrow> (\<forall>f a. (f, a) \<in> G \<longrightarrow> (f, a) \<in> known ent sh (shard_of (total_shards sh) f))"

definition memory_ok :: "(DyssectFlow \<times> addr) set \<Rightarrow> ('r \<Rightarrow> void_ptr list) \<Rightarrow> ('t \<Rightarrow> (DyssectFlow \<times> addr) set) \<Rightarrow> DyssectFlow set \<Rightarrow> (mbuf \<Rightarrow> bool)
    \<Rightarrow> nat \<Rightarrow> nat \<Rightarrow> nat \<Rightarrow> ('t, 'r) shared \<Rightarrow> bool" where
  "memory_ok G cont ent K ok W E ts sh \<longleftrightarrow> 0 < ts \<and> shared_ok W E sh \<and> total_shards sh = ts \<and> iqueues sh = W
     \<and> flows_ok ent K sh \<and> remembers G ent sh \<and> rings_typed cont ok W E sh
     \<and> toAddQueue sh = map ToAdd [0..<E] \<and> toRemoveQueue sh = map ToRemove [0..<E]
     \<and> (\<forall>i<W. data_ring W (queues sh ! i))
     \<and> (\<forall>e\<in>set (new_offloading_from_working sh). e < E \<or> e = UINT32_MAX)
     \<and> (\<forall>s<ts. shard_good cont ok W (shards sh ! s))"

lemma memory_okD:
  assumes "memory_ok G cont ent K ok W E ts sh"
  shows "shared_ok W E sh" "total_shards sh = ts" "iqueues sh = W" "flows_ok ent K sh" "rings_typed cont ok W E sh"
    "toAddQueue sh = map ToAdd [0..<E]" "toRemoveQueue sh = map ToRemove [0..<E]" "i < W \<Longrightarrow> data_ring W (queues sh ! i)"
    "s < ts \<Longrightarrow> shard_good cont ok W (shards sh ! s)" "length (shards sh) = ts" "remembers G ent sh" "0 < ts"
  using assms by (simp_all add: memory_ok_def shared_ok_def)

lemma flows_ok_frame [simp]:
  "flows_ok ent K (sh\<lparr>had_changes := v\<rparr>) = flows_ok ent K sh" "flows_ok ent K (sh\<lparr>transfer_r := v\<rparr>) = flows_ok ent K sh"
  "flows_ok ent K (sh\<lparr>transfer_shard := v\<rparr>) = flows_ok ent K sh" "flows_ok ent K (sh\<lparr>transfer_offloading := v\<rparr>) = flows_ok ent K sh"
  "flows_ok ent K (sh\<lparr>controller_signal := v\<rparr>) = flows_ok ent K sh" "flows_ok ent K (sh\<lparr>queues := qs, rings := rs\<rparr>) = flows_ok ent K sh"
  "flows_ok ent K (sh\<lparr>new_offloading_from_working := v\<rparr>) = flows_ok ent K sh" "flows_ok ent K (set_ring p r sh) = flows_ok ent K sh"
  by (simp_all add: flows_ok_def state_ok_def set_ring_def)

lemma remembers_mono:
  assumes "remembers G ent sh" and "total_shards sh' = total_shards sh" and "0 < total_shards sh"
    and "\<And>s. s < total_shards sh \<Longrightarrow> known ent sh s \<subseteq> known ent sh' s"
  shows "remembers G ent sh'"
proof -
  have "shard_of (total_shards sh) f < total_shards sh" for f using assms(3) by (simp add: shard_of_def)
  then have "known ent sh (shard_of (total_shards sh) f) \<subseteq> known ent sh' (shard_of (total_shards sh) f)" for f by (rule assms(4))
  then show ?thesis using assms(1,2) by (auto simp: remembers_def)
qed

lemma remembers_frame [simp]:
  "remembers G ent (sh\<lparr>had_changes := v\<rparr>) = remembers G ent sh" "remembers G ent (sh\<lparr>transfer_r := v\<rparr>) = remembers G ent sh"
  "remembers G ent (sh\<lparr>transfer_shard := v\<rparr>) = remembers G ent sh" "remembers G ent (sh\<lparr>transfer_offloading := v\<rparr>) = remembers G ent sh"
  "remembers G ent (sh\<lparr>controller_signal := v\<rparr>) = remembers G ent sh" "remembers G ent (sh\<lparr>queues := qs, rings := rs\<rparr>) = remembers G ent sh"
  "remembers G ent (sh\<lparr>new_offloading_from_working := v\<rparr>) = remembers G ent sh" "remembers G ent (set_ring p r sh) = remembers G ent sh"
  "remembers G ent (sh\<lparr>state_at := st\<rparr>) = remembers G ent sh" "remembers G ent (sh\<lparr>slots_at := g\<rparr>) = remembers G ent sh"
  "remembers G ent (sh\<lparr>epoch := n\<rparr>) = remembers G ent sh" "remembers G ent (sh\<lparr>ring_at := rr\<rparr>) = remembers G ent sh"
  by (simp_all add: remembers_def known_def)

text \<open>Rings.\<close>

lemma memory_ok_ring:
  assumes "memory_ok G cont ent K ok W E ts sh"
    and "data_ring W p \<Longrightarrow> list_all (is_packet ok) (cont r)" and "control_ring E p \<Longrightarrow> list_all (is_queue W) (cont r)"
  shows "memory_ok G cont ent K ok W E ts (set_ring p r sh)"
  using assms rings_typed_set [OF memory_okD(5) [OF assms(1)] assms(2,3)] by (simp add: memory_ok_def shared_ok_def)

lemma memory_ok_data_ring:
  assumes "memory_ok G cont ent K ok W E ts sh" and "data_ring W p" and "list_all (is_packet ok) (cont r)"
  shows "memory_ok G cont ent K ok W E ts (set_ring p r sh)"
  using memory_ok_ring assms data_not_control by metis

lemma enqueue_typed:
  assumes "ring_ok R cont cap" and "list_all P (cont r)" and "P x"
  shows "list_all P (cont (snd (ring_enqueue R x r)))"
  using assms by (cases "length (cont r) < cap r") (simp_all add: ring_ok_def)

lemma burst_typed:
  assumes "ring_ok R cont cap" and "list_all P (cont r)" and "list_all P xs"
  shows "list_all P (cont (snd (ring_enqueue_burst R xs r)))"
  using assms list_all_take by (simp add: ring_burst(1) [OF assms(1)])

lemma message_ok:
  assumes "ring_ok R cont cap" and "memory_ok G cont ent K ok W E ts sh" and "e < E" and "data_ring W p"
  shows "memory_ok G cont ent K ok W E ts (enqueue_at R (toRemoveQueue sh ! e) (PRing p) sh)"
    and "memory_ok G cont ent K ok W E ts (enqueue_at R (toAddQueue sh ! e) (PRing p) sh)"
proof -
  note t = rings_typedD(2) [OF memory_okD(5) [OF assms(2)]]
  show "memory_ok G cont ent K ok W E ts (enqueue_at R (toRemoveQueue sh ! e) (PRing p) sh)"
    unfolding enqueue_at_def
    by (rule memory_ok_ring [OF assms(2)]) (use assms memory_okD(7) [OF assms(2)] t [of "ToRemove e"] in \<open>auto intro: enqueue_typed\<close>)
  show "memory_ok G cont ent K ok W E ts (enqueue_at R (toAddQueue sh ! e) (PRing p) sh)"
    unfolding enqueue_at_def
    by (rule memory_ok_ring [OF assms(2)]) (use assms memory_okD(6) [OF assms(2)] t [of "ToAdd e"] in \<open>auto intro: enqueue_typed\<close>)
qed

text \<open>Flags and indices.\<close>

lemma memory_ok_flags:
  assumes "memory_ok G cont ent K ok W E ts sh"
  shows "memory_ok G cont ent K ok W E ts (sh\<lparr>had_changes := (had_changes sh)[i := v]\<rparr>)"
    "memory_ok G cont ent K ok W E ts (sh\<lparr>transfer_r := (transfer_r sh)[i := v]\<rparr>)"
    "memory_ok G cont ent K ok W E ts (sh\<lparr>transfer_shard := (transfer_shard sh)[i := v]\<rparr>)"
    "memory_ok G cont ent K ok W E ts (sh\<lparr>transfer_offloading := (transfer_offloading sh)[i := v]\<rparr>)"
    "memory_ok G cont ent K ok W E ts (sh\<lparr>controller_signal := (controller_signal sh)[i := v]\<rparr>)"
  using assms by (simp_all add: memory_ok_def shared_ok_def rings_typed_def)

lemma memory_ok_queues:
  assumes "memory_ok G cont ent K ok W E ts sh" and "data_ring W p"
  shows "memory_ok G cont ent K ok W E ts (sh\<lparr>queues := (queues sh)[i := p], rings := (rings sh)[i := p']\<rparr>)"
proof -
  have "\<forall>j<W. data_ring W ((queues sh)[i := p] ! j)" using assms memory_okD(8) [OF assms(1)] by (metis nth_list_update_eq nth_list_update_neq list_update_beyond not_le)
  then show ?thesis using assms(1) by (simp add: memory_ok_def shared_ok_def rings_typed_def)
qed

lemma memory_ok_new_offloading:
  assumes "memory_ok G cont ent K ok W E ts sh" and "e < E \<or> e = UINT32_MAX"
  shows "memory_ok G cont ent K ok W E ts (sh\<lparr>new_offloading_from_working := (new_offloading_from_working sh)[i := e]\<rparr>)"
  using assms by (auto simp: memory_ok_def shared_ok_def rings_typed_def dest!: set_update_subset_insert [THEN subsetD])

text \<open>One shard, its tables left alone.\<close>

lemma memory_ok_shard:
  assumes "memory_ok G cont ent K ok W E ts sh" and "\<And>i. table (f i) = table i \<and> flows3 (f i) = flows3 i \<and> flows3_2 (f i) = flows3_2 i"
    and "s < ts \<Longrightarrow> shard_good cont ok W (shards sh ! s) \<Longrightarrow> shard_good cont ok W (f (shards sh ! s))"
  shows "memory_ok G cont ent K ok W E ts (upd_shard s f sh)"
proof (cases "s < ts")
  case True
  have "shard_good cont ok W (f (shards sh ! s))" using assms(3) True memory_okD(9) [OF assms(1) True] by blast
  moreover have "remembers G ent (upd_shard s f sh)"
  proof -
    have "known ent (upd_shard s f sh) = known ent sh" by (rule ext) (simp add: known_def upd_shard_nth assms(2))
    then show ?thesis using memory_okD(11) [OF assms(1)] by (simp add: remembers_def)
  qed
  moreover have "flows_ok ent K (upd_shard s f sh)"
    using memory_okD(4) [OF assms(1)] assms(2) by (auto simp: flows_ok_def state_ok_def upd_shard_def nth_update)
  ultimately show ?thesis using assms(1)
    by (auto simp: memory_ok_def shared_ok_def rings_typed_def upd_shard_def nth_update shard_good_def)
next
  case False
  then show ?thesis using assms(1) memory_okD(10) [OF assms(1)] by (simp add: upd_shard_def list_update_beyond)
qed

subsection \<open>Packets\<close>

text \<open>What handling a packet leaves alone.\<close>

definition packet_view where
  "packet_view i = (owner i, owner_new i, ref_count_1 i, ref_count_2 i, local_queue i, shard_r i, r_new i, shard_V i)"

definition packet_frame :: "('t, 'r) shared \<Rightarrow> ('t, 'r) shared \<Rightarrow> bool" where
  "packet_frame sh sh' \<longleftrightarrow> sh' = sh\<lparr>shards := shards sh', state_at := state_at sh', slots_at := slots_at sh', heap_top := heap_top sh'\<rparr>
     \<and> map packet_view (shards sh') = map packet_view (shards sh)"

lemma packet_frame_refl: "packet_frame sh sh"
  by (simp add: packet_frame_def)

lemma packet_frame_trans: "packet_frame a b \<Longrightarrow> packet_frame b c \<Longrightarrow> packet_frame a c"
  unfolding packet_frame_def by (cases a, cases b, cases c) simp

lemma map_view_update: "v x = v (xs ! s) \<Longrightarrow> map v (xs[s := x]) = map v xs"
  by (metis list_update_id map_update)

lemma packet_frame_touch: "packet_frame sh (touch_known T s a sh)"
  by (simp add: touch_known_def Let_def packet_frame_def upd_shard_def map_view_update packet_view_def record_flow_def)

lemma packet_frame_add: "packet_frame sh (snd (add_flow T solver s pr f sh))"
  by (simp add: add_flow_def Let_def packet_frame_def upd_shard_def map_view_update packet_view_def)

lemma packet_frame_count: "packet_frame sh (count_packet solver s n a sh)"
  by (simp add: count_packet_def Let_def packet_frame_def upd_shard_def map_view_update packet_view_def)

lemma packet_frame_extract:
  assumes "extract_state crc T solver m sh = Inr (a, p, sh')"
  shows "packet_frame sh sh'"
proof -
  let ?f = "packet_flow crc (iqueues sh) m"
  let ?s = "shard_of (total_shards sh) ?f"
  obtain sh1 where look: "lookup_flow T solver ?s (is_priority (frame m)) ?f sh = (a, sh1)"
    and sh': "sh' = count_packet solver ?s (ip_len (frame m)) a sh1"
    using assms by (auto simp: extract_state_def Let_def check_index_Inr split: if_splits prod.splits)
  have "packet_frame sh sh1"
    using look packet_frame_touch packet_frame_refl packet_frame_add [of sh T solver ?s "is_priority (frame m)" ?f]
    by (cases "table_find T ?f (table (shards sh ! ?s))") (auto simp: lookup_flow_def split: if_splits)
  then show ?thesis unfolding sh' by (rule packet_frame_trans [OF _ packet_frame_count])
qed

lemma memory_ok_frame:
  assumes "memory_ok G cont ent K ok W E ts sh" and "packet_frame sh sh'" and "flows_ok ent K sh'" and "remembers G ent sh'"
  shows "memory_ok G cont ent K ok W E ts sh'"
proof -
  have l: "length (shards sh') = ts" using assms(2) memory_okD(10) [OF assms(1)] by (metis length_map packet_frame_def)
  have v: "packet_view (shards sh' ! s) = packet_view (shards sh ! s)" if "s < ts" for s
    using assms(2) that l memory_okD(10) [OF assms(1)] by (metis nth_map packet_frame_def)
  have good: "shard_good cont ok W (shards sh' ! s)" if "s < ts" for s
    using v [OF that] memory_okD(9) [OF assms(1) that] by (simp add: packet_view_def shard_good_def)
  then have own: "owner (shards sh' ! s) < W \<and> (owner_new (shards sh' ! s) < W \<or> owner_new (shards sh' ! s) = UINT32_MAX)" if "s < ts" for s
    using that by (simp add: shard_good_def)
  obtain x a b c where "sh' = sh\<lparr>shards := x, state_at := a, slots_at := b, heap_top := c\<rparr>" using assms(2) unfolding packet_frame_def by blast
  then show ?thesis using assms(1,3,4) l good own by (auto simp: memory_ok_def shared_ok_def rings_typed_def)
qed

definition packet_ok :: "(DyssectFlow \<Rightarrow> u32) \<Rightarrow> DyssectFlow set \<Rightarrow> nat \<Rightarrow> mbuf \<Rightarrow> bool" where
  "packet_ok crc K W m \<longleftrightarrow> headers_readable (frame m) \<and> packet_flow crc W m \<in> K"

lemma extract_memory_ok:
  assumes "memory_ok G cont ent K (packet_ok crc K W) W E ts sh" and "table_ok T K ent" and "0 < ts" and "packet_ok crc K W m"
  shows "\<exists>a p sh'. extract_state crc T solver m sh = Inr (a, p, sh') \<and> memory_ok G cont ent K (packet_ok crc K W) W E ts sh'
    \<and> state_shard (state_at sh' a) < ts"
proof -
  note m = memory_okD [OF assms(1)]
  have "extractable crc K sh m" using assms(4) m(3) by (simp add: packet_ok_def extractable_def flow_of_def)
  from extract_state_ok [OF m(4) assms(2) _ this, of solver] assms(3) m(2) obtain a p sh' where
    x: "extract_state crc T solver m sh = Inr (a, p, sh')" "flows_ok ent K sh'" "total_shards sh' = ts"
    and k: "\<forall>t. known ent sh' t = (if t = shard_of (total_shards sh) (flow_of crc sh m)
         then insert (flow_of crc sh m, a) (known ent sh t) else known ent sh t)" by auto
  let ?s = "shard_of ts (flow_of crc sh m)"
  have s: "?s < ts" using assms(3) by (simp add: shard_of_def)
  have "(flow_of crc sh m, a) \<in> ent (table (shards sh' ! ?s))" using k m(2) by (simp add: known_def)
  then have "state_ok sh' ?s (flow_of crc sh m) a" by (rule flows_okD(2) [OF x(2), rotated]) (simp add: s x(3))
  then have "state_shard (state_at sh' a) = ?s" by (simp only: state_ok_def)
  moreover have "remembers G ent sh'"
    by (rule remembers_mono [OF m(11)]) (use x(3) m(2) assms(3) k in auto)
  ultimately show ?thesis using x(1) memory_ok_frame [OF assms(1) packet_frame_extract [OF x(1)] x(2)] s by auto
qed

end
