(* ===== verification/Worker_Safety.thy ===== *)
theory Worker_Safety
  imports Shared_Memory
begin

text \<open>
  A working core's task never faults on the shared memory as the elements keep it, and keeps it so;
  packets may arrive at any time, also during the task.
\<close>

subsection \<open>Any hardware queue\<close>

text \<open>
  \<open>X\<close> are the states a hardware queue may be in, with whatever arrives later: a burst returns at most
  as many packets as asked for, all of them \<open>ok\<close>. \<open>busy\<close>: the next \<open>k\<close> bursts all return something.
\<close>

definition nic_delivers :: "'n nic_ops \<Rightarrow> (mbuf \<Rightarrow> bool) \<Rightarrow> 'n set \<Rightarrow> bool" where
  "nic_delivers N ok X \<longleftrightarrow> nic_ok N \<and> (\<forall>x\<in>X. \<forall>n. list_all ok (fst (rx_burst N n x)) \<and> snd (rx_burst N n x) \<in> X)"

fun busy :: "'n nic_ops \<Rightarrow> nat \<Rightarrow> nat \<Rightarrow> 'n \<Rightarrow> bool" where
  "busy N b 0 x = True"
| "busy N b (Suc k) x = (fst (rx_burst N b x) \<noteq> [] \<and> busy N b k (snd (rx_burst N b x)))"

lemma nic_burst:
  assumes "nic_delivers N ok X" and "x \<in> X" and "rx_burst N n x = (ms, x')"
  shows "list_all ok ms" "length ms \<le> n" "x' \<in> X"
  using assms unfolding nic_delivers_def nic_ok_def by (metis fst_conv snd_conv)+

lemma list_nic_delivers: "nic_delivers list_nic_ops ok {xs. list_all ok xs}"
  by (auto simp: nic_delivers_def nic_ok_def list_nic_ops_def list_all_iff dest: in_set_takeD in_set_dropD)

abbreviation sound where
  "sound G cont ent K crc W E ts sh \<equiv> memory_ok G cont ent K (packet_ok crc K W) W E ts sh"

definition worker_ok :: "nat \<Rightarrow> nat \<Rightarrow> nat \<Rightarrow> worker \<Rightarrow> bool" where
  "worker_ok W E i w \<longleftrightarrow> queueid w = i \<and> i < W \<and> 0 < burst w \<and> burst w \<le> OFF_PKTS \<and> off_pkts w = []
     \<and> offloading_idx w < E \<and> data_ring W (q w) \<and> data_ring W (myring w)"

text \<open>What a step of the worker gives.\<close>

definition worker_step_ok where
  "worker_step_ok G cont ent K crc W E ts i r \<longleftrightarrow> (\<exists>w' sh'. r = Inr (w', sh') \<and> worker_ok W E i w' \<and> sound G cont ent K crc W E ts sh')"

lemma worker_step_okE:
  assumes "worker_step_ok G cont ent K crc W E ts i r"
  obtains w' sh' where "r = Inr (w', sh')" "worker_ok W E i w'" "sound G cont ent K crc W E ts sh'"
  using assms by (auto simp: worker_step_ok_def)

text \<open>What a step with the hardware queue gives, where it may wait for ever if \<open>stuck\<close>.\<close>

definition core_step_ok where
  "core_step_ok G cont ent K crc W E ts i X stuck r \<longleftrightarrow> (case r of Inl e \<Rightarrow> e = Spinning \<and> stuck
     | Inr (w', nic', sh') \<Rightarrow> worker_ok W E i w' \<and> sound G cont ent K crc W E ts sh' \<and> nic' \<in> X)"

text \<open>The flags of all cores are there, and those of the owners to come.\<close>

lemma sound_flags:
  assumes "memory_ok G cont ent K ok W E ts sh" and "i < W"
  shows "i < length (had_changes sh)" "i < length (transfer_r sh)" "i < length (transfer_shard sh)" "i < length (transfer_offloading sh)"
    "i < length (controller_signal sh)" "i < length (new_offloading_from_working sh)" "i < length (queues sh)" "i < length (rings sh)"
  using memory_okD(1) [OF assms(1)] assms(2) by (simp_all add: shared_ok_def)

lemma sound_pending: "memory_ok G cont ent K ok W E ts sh \<Longrightarrow> pending_flagged sh"
  by (rule pending_flaggedI) (auto simp: memory_ok_def shared_ok_def)

subsection \<open>Messages and moving packets\<close>

lemma send_sound:
  assumes "ring_ok R cont cap" and "sound G cont ent K crc W E ts sh" and "e < E" and "data_ring W p"
  shows "\<exists>sh'. send_remove R e p sh = Inr sh' \<and> sound G cont ent K crc W E ts sh'" "\<exists>sh'. send_add R e p sh = Inr sh' \<and> sound G cont ent K crc W E ts sh'"
  using message_ok [OF assms] memory_okD(6,7) [OF assms(2)] assms(3) by (simp_all add: send_remove_def send_add_def)

lemma maybe_send_sound:
  assumes "ring_ok R cont cap" and "sound G cont ent K crc W E ts sh" and "e < E" and "data_ring W p"
  shows "\<exists>sh'. maybe_send send_remove R e p sh = Inr sh' \<and> sound G cont ent K crc W E ts sh'"
    "\<exists>sh'. maybe_send send_add R e p sh = Inr sh' \<and> sound G cont ent K crc W E ts sh'"
  using send_sound [OF assms] assms(2) by (simp_all add: maybe_send_def)

lemma move_ring_typed:
  assumes "ring_ok R cont cap" and "0 < b" and "list_all P (cont src)" and "list_all P (cont dst)"
  shows "\<exists>src' dst'. move_ring R b (ring_count R src) (src, dst) = Inr (src', dst') \<and> list_all P (cont src') \<and> list_all P (cont dst')"
proof -
  obtain src' dst' where m: "move_ring R b (ring_count R src) (src, dst) = Inr (src', dst')"
    using move_ring_returns [OF assms(1,2), of src "ring_count R src" dst] ring_burst(6) [OF assms(1)] by fastforce
  then show ?thesis using move_ring_cont [OF assms(1) m] assms(3,4) list_all_take by auto
qed

lemma drain_q_sound:
  assumes "ring_ok R cont cap" and "worker_ok W E i w" and "sound G cont ent K crc W E ts sh"
  shows "worker_step_ok G cont ent K crc W E ts i (drain_q R (w, sh))"
proof (cases "ring_count R (ring_at sh (q w)) = 0")
  case True
  then show ?thesis using assms by (simp add: drain_q_def worker_step_ok_def)
next
  case False
  have d: "data_ring W (q w)" "data_ring W (myring w)" "0 < burst w" using assms(2) by (simp_all add: worker_ok_def)
  note t = rings_typedD(1) [OF memory_okD(5) [OF assms(3)]]
  from move_ring_typed [OF assms(1) d(3) t [OF d(1)] t [OF d(2)]] obtain src dst where
    m: "move_ring R (burst w) (ring_count R (ring_at sh (q w))) (ring_at sh (q w), ring_at sh (myring w)) = Inr (src, dst)"
    "list_all (is_packet (packet_ok crc K W)) (cont src)" "list_all (is_packet (packet_ok crc K W)) (cont dst)" by blast
  have "sound G cont ent K crc W E ts (set_ring (myring w) dst (set_ring (q w) src sh))"
    by (intro memory_ok_data_ring assms(3) d m)
  then show ?thesis using m(1) False assms(2) by (simp add: drain_q_def worker_step_ok_def worker_ok_def)
qed

lemma take_local_queue_sound:
  assumes "ring_ok R cont cap" and "worker_ok W E i w" and "sound G cont ent K crc W E ts sh" and "s < ts"
  shows "worker_step_ok G cont ent K crc W E ts i (take_local_queue R s (w, sh))"
proof -
  have d: "data_ring W (myring w)" "0 < burst w" using assms(2) by (simp_all add: worker_ok_def)
  have l: "list_all (is_packet (packet_ok crc K W)) (cont (local_queue (shards sh ! s)))"
    using memory_okD(9) [OF assms(3,4)] by (simp add: shard_good_def)
  from move_ring_typed [OF assms(1) d(2) l rings_typedD(1) [OF memory_okD(5) [OF assms(3)] d(1)]] obtain src dst where
    m: "move_ring R (burst w) (ring_count R (local_queue (shards sh ! s))) (local_queue (shards sh ! s), ring_at sh (myring w)) = Inr (src, dst)"
    "list_all (is_packet (packet_ok crc K W)) (cont src)" "list_all (is_packet (packet_ok crc K W)) (cont dst)" by blast
  have "sound G cont ent K crc W E ts (set_ring (myring w) dst (upd_shard s (\<lambda>i. i\<lparr>local_queue := src\<rparr>) sh))"
    by (intro memory_ok_data_ring memory_ok_shard assms(3) d(1) m(3)) (use m(2) in \<open>simp_all add: shard_good_def\<close>)
  then show ?thesis using m(1) assms(2,4) memory_okD(10) [OF assms(3)] assms(3)
    by (simp add: take_local_queue_def Let_def worker_step_ok_def worker_ok_def)
qed

text \<open>A loop of steps.\<close>

lemma worker_steps:
  assumes "worker_ok W E i w" and "sound G cont ent K crc W E ts sh"
    and "\<And>x w sh. x \<in> set xs \<Longrightarrow> worker_ok W E i w \<Longrightarrow> sound G cont ent K crc W E ts sh \<Longrightarrow> worker_step_ok G cont ent K crc W E ts i (f x (w, sh))"
  shows "worker_step_ok G cont ent K crc W E ts i (outcome_fold f xs (w, sh))"
  using assms
proof (induction xs arbitrary: w sh)
  case Nil
  then show ?case by (simp add: worker_step_ok_def)
next
  case (Cons x xs)
  obtain w1 sh1 where 1: "f x (w, sh) = Inr (w1, sh1)" "worker_ok W E i w1" "sound G cont ent K crc W E ts sh1"
    by (rule worker_step_okE [OF Cons.prems(3) [of x w sh]]) (use Cons.prems in auto)
  show ?case using Cons.IH [OF 1(2,3)] Cons.prems(3) 1(1) by simp
qed

subsection \<open>Taking over changes\<close>

lemma set_r_sound:
  assumes "sound G cont ent K crc W E ts sh"
  shows "sound G cont ent K crc W E ts (fold (\<lambda>s sh. if owner (shards sh ! s) = me
      then upd_shard s (\<lambda>i. i\<lparr>shard_r := r_new i\<rparr>) sh else sh) ss sh)"
  by (rule fold_keep) (use assms in \<open>auto intro!: memory_ok_shard simp: shard_good_def\<close>)

lemma transfer_r_sound:
  assumes R: "ring_ok R cont cap" and "worker_ok W E i w" and "sound G cont ent K crc W E ts sh"
  shows "worker_step_ok G cont ent K crc W E ts i (worker_transfer_r R (w, sh))"
proof -
  let ?first = "if ring_count R (ring_at sh (q w)) \<noteq> 0
        then outcome_bind (send_remove R (offloading_idx w) (q w) sh) (\<lambda>sh1.
          let w' = w\<lparr>myown := True, q := myring w, myring := q w\<rparr>;
              sh2 = sh1\<lparr>queues := (queues sh1)[queueid w := q w'], rings := (rings sh1)[queueid w := myring w']\<rparr>
          in check_index (queueid w) (queues sh1) (check_index (queueid w) (rings sh1)
               (outcome_bind (send_add R (offloading_idx w') (q w') sh2) (\<lambda>sh3. Inr (w', sh3)))))
        else Inr (w, sh)"
  have d: "data_ring W (q w)" "data_ring W (myring w)" "offloading_idx w < E" "queueid w < W" using assms(2) by (simp_all add: worker_ok_def)
  have "worker_step_ok G cont ent K crc W E ts i ?first"
  proof -
    from send_sound(1) [OF R assms(3) d(3,1)] obtain sh1 where
      1: "send_remove R (offloading_idx w) (q w) sh = Inr sh1" "sound G cont ent K crc W E ts sh1" by blast
    from send_sound(2) [OF R memory_ok_queues [OF 1(2) d(2)] d(3,2)] obtain sh3 where
      "send_add R (offloading_idx w) (myring w) (sh1\<lparr>queues := (queues sh1)[queueid w := myring w], rings := (rings sh1)[queueid w := q w]\<rparr>) = Inr sh3"
      "sound G cont ent K crc W E ts sh3" by blast
    then show ?thesis using 1(1) assms(2,3) sound_flags(7,8) [OF 1(2) d(4)] by (simp add: worker_step_ok_def worker_ok_def)
  qed
  then obtain w1 sh1 where 1: "?first = Inr (w1, sh1)" "worker_ok W E i w1" "sound G cont ent K crc W E ts sh1" by (rule worker_step_okE)
  have w1: "queueid w1 < W" using 1(2) by (simp add: worker_ok_def)
  note s = set_r_sound [OF 1(3), of "queueid w1" "[0..<total_shards sh1]"]
  show ?thesis unfolding worker_transfer_r_def prod.case 1(1)
    using 1(2) memory_ok_flags(2) [OF s] sound_flags(2) [OF s w1] by (simp add: worker_step_ok_def Let_def)
qed

lemma transfer_r_burst: "worker_transfer_r R (w, sh) = Inr (w', sh') \<Longrightarrow> burst w' = burst w"
  by (auto simp: worker_transfer_r_def Let_def outcome_bind_Inr check_index_Inr split: if_splits)

lemma release_one:
  assumes "sound G cont ent K crc W E ts sh"
  shows "sound G cont ent K crc W E ts ((upd_shard s (\<lambda>i. i\<lparr>pause := 0\<rparr>) sh)\<lparr>had_changes := (had_changes sh)[j := 1]\<rparr>)"
proof -
  have "sound G cont ent K crc W E ts (upd_shard s (\<lambda>i. i\<lparr>pause := 0\<rparr>) sh)"
    by (rule memory_ok_shard [OF assms]) (simp_all add: shard_good_def)
  from memory_ok_flags(1) [OF this, of j 1] show ?thesis by simp
qed

lemma release_sound:
  assumes "sound G cont ent K crc W E ts sh"
  shows "\<exists>sh'. outcome_fold (release_shard me) [0..<total_shards sh] sh = Inr sh' \<and> sound G cont ent K crc W E ts sh'"
proof -
  have "sound G cont ent K crc W E ts (fold (released_shard me) [0..<total_shards sh] sh)"
    by (rule fold_keep [where P = "sound G cont ent K crc W E ts"])
      (use assms in \<open>auto simp: released_shard_def Let_def release_one [simplified]\<close>)
  then show ?thesis using release_all_ok [OF sound_pending [OF assms]] by blast
qed

lemma settle_sound:
  assumes "sound G cont ent K crc W E ts sh" and "me < W"
  shows "\<exists>sh'. outcome_fold (settle_shard me) [0..<total_shards sh] sh = Inr sh' \<and> sound G cont ent K crc W E ts sh'"
proof -
  have "sound G cont ent K crc W E ts (fold (settled_shard me) [0..<total_shards sh] sh)"
  proof (rule fold_keep [where P = "sound G cont ent K crc W E ts"])
  fix s sh assume s: "sound G cont ent K crc W E ts sh"
  let ?i = "shards sh ! s"
  let ?sh1 = "if pause ?i = 1 \<and> owner ?i = me \<and> owner_new ?i \<noteq> UINT32_MAX
              then (upd_shard s (\<lambda>i. i\<lparr>pause := 0\<rparr>) sh)\<lparr>had_changes := (had_changes sh)[owner_new ?i := 1]\<rparr> else sh"
  have "sound G cont ent K crc W E ts ?sh1" using s by (simp add: release_one [simplified])
  moreover from this have "sound G cont ent K crc W E ts (upd_shard s (\<lambda>i. i\<lparr>owner_new := UINT32_MAX, owner := me\<rparr>) ?sh1)"
    by (rule memory_ok_shard) (use assms(2) in \<open>simp_all add: shard_good_def\<close>)
  ultimately show "sound G cont ent K crc W E ts (settled_shard me s sh)" unfolding settled_shard_def Let_def by simp
  qed (rule assms)
  then show ?thesis using settle_all_ok [OF sound_pending [OF assms(1)]] by blast
qed

lemma transfer_offloading_sound:
  assumes R: "ring_ok R cont cap" and "worker_ok W E i w" and "sound G cont ent K crc W E ts sh"
  shows "worker_step_ok G cont ent K crc W E ts i (worker_transfer_offloading R (w, sh))"
proof -
  have d: "data_ring W (q w)" "offloading_idx w < E" using assms(2) by (simp_all add: worker_ok_def)
  from maybe_send_sound(1) [OF R assms(3) d(2,1)] obtain sh1 where
    1: "maybe_send send_remove R (offloading_idx w) (q w) sh = Inr sh1" "sound G cont ent K crc W E ts sh1" by blast
  obtain w2 sh2 where 2: "drain_q R (w, sh1) = Inr (w2, sh2)" "worker_ok W E i w2" "sound G cont ent K crc W E ts sh2"
    by (rule worker_step_okE [OF drain_q_sound [OF R assms(2) 1(2)]])
  let ?new = "new_offloading_from_working sh2 ! queueid w2"
  let ?last = "check_index (queueid w2) (new_offloading_from_working sh2) (if ?new \<noteq> UINT32_MAX
        then outcome_bind (send_add R ?new (q w2) sh2) (\<lambda>sh. Inr (w2\<lparr>offloading_idx := ?new\<rparr>,
          sh\<lparr>new_offloading_from_working := (new_offloading_from_working sh)[queueid w2 := UINT32_MAX]\<rparr>))
        else Inr (w2, sh2))"
  have q2: "queueid w2 < W + E" "data_ring W (q w2)" "queueid w2 < W" using 2(2) by (simp_all add: worker_ok_def)
  note l2 = sound_flags(6) [OF 2(3) q2(3)]
  then have new: "?new < E \<or> ?new = UINT32_MAX" using 2(3) nth_mem by (auto simp: memory_ok_def shared_ok_def)
  have "worker_step_ok G cont ent K crc W E ts i ?last"
  proof (cases "?new = UINT32_MAX")
    case True
    then show ?thesis using 2 l2 by (simp add: worker_step_ok_def)
  next
    case False
    then have e: "?new < E" using new by simp
    from send_sound(2) [OF R 2(3) e q2(2)] obtain sh3 where
      "send_add R ?new (q w2) sh2 = Inr sh3" "sound G cont ent K crc W E ts sh3" by blast
    moreover from this(2) have "sound G cont ent K crc W E ts (sh3\<lparr>new_offloading_from_working := (new_offloading_from_working sh3)[queueid w2 := UINT32_MAX]\<rparr>)"
      by (rule memory_ok_new_offloading) simp
    ultimately show ?thesis using e 2(2) False l2 by (simp add: worker_step_ok_def worker_ok_def)
  qed
  then obtain w3 sh3 where 3: "?last = Inr (w3, sh3)" "worker_ok W E i w3" "sound G cont ent K crc W E ts sh3" by (rule worker_step_okE)
  have "queueid w3 < length (transfer_offloading sh3)" using sound_flags(4) [OF 3(3)] 3(2) by (simp add: worker_ok_def)
  then show ?thesis unfolding worker_transfer_offloading_def prod.case 1(1) outcome_bind.simps 2(1) Let_def 3(1)
    using 3(2) memory_ok_flags(4) [OF 3(3)] by (simp add: worker_step_ok_def)
qed

lemma drain_q_burst: "drain_q R (w, sh) = Inr (w', sh') \<Longrightarrow> burst w' = burst w"
  by (auto simp: drain_q_def Let_def outcome_bind_Inr split: if_splits)

lemma transfer_offloading_burst:
  assumes "worker_transfer_offloading R (w, sh) = Inr (w', sh')"
  shows "burst w' = burst w"
  using assms unfolding worker_transfer_offloading_def prod.case outcome_bind_Inr Let_def
  by (simp only: split_paired_Ex prod.case check_index_Inr outcome_bind_Inr)
    (auto split: if_splits simp: outcome_bind_Inr dest!: drain_q_burst)

text \<open>The receiving loop goes on only while the hardware queue delivers something in every burst.\<close>

lemma receive_own_sound:
  assumes R: "ring_ok R cont cap" and N: "nic_delivers N (packet_ok crc K W) X"
    and "worker_ok W E i w" and "sound G cont ent K crc W E ts sh" and "nic \<in> X"
  shows "core_step_ok G cont ent K crc W E ts i X (busy N (burst w) fuel nic) (receive_own N R fuel left (w, nic, sh))"
  using assms(3-5)
proof (induction fuel arbitrary: left w nic sh)
  case 0
  then show ?case by (subst receive_own.simps) (simp add: core_step_ok_def)
next
  case (Suc n)
  let ?w = "w\<lparr>myown := True\<rparr>"
  have w: "worker_ok W E i ?w" using Suc.prems(1) by (simp add: worker_ok_def)
  obtain ms nic1 where b: "rx_burst N (burst w) nic = (ms, nic1)" by (cases "rx_burst N (burst w) nic")
  note ms = nic_burst [OF N Suc.prems(3) b]
  show ?case
  proof (cases "left = 0 \<or> ms = []")
    case True
    then show ?thesis using Suc.prems w b ms(3) by (subst receive_own.simps) (auto simp: core_step_ok_def)
  next
    case False
    let ?sh = "set_ring (myring w) (snd (ring_enqueue_burst R (map PMbuf ms) (ring_at sh (myring w)))) sh"
    have "list_all (is_packet (packet_ok crc K W)) (map PMbuf ms)" using ms(1) by (simp add: list_all_iff)
    moreover have d: "data_ring W (myring w)" using Suc.prems(1) by (simp add: worker_ok_def)
    ultimately have s: "sound G cont ent K crc W E ts ?sh"
      by (intro memory_ok_data_ring [OF Suc.prems(2)] burst_typed [OF R] rings_typedD(1) [OF memory_okD(5) [OF Suc.prems(2)]])
    from Suc.IH [OF w s ms(3), of "left - of_nat (length ms)"] False b show ?thesis
      by (subst receive_own.simps) (auto simp: Let_def)
  qed
qed

text \<open>After the loop nothing waits: a continuation that does not fault keeps the result in order.\<close>

lemma core_step_bind:
  assumes "core_step_ok G cont ent K crc W E ts i X stuck r"
    and "\<And>w nic sh. r = Inr (w, nic, sh) \<Longrightarrow> worker_ok W E i w \<Longrightarrow> sound G cont ent K crc W E ts sh \<Longrightarrow> nic \<in> X \<Longrightarrow>
      core_step_ok G cont ent K crc W E ts i X stuck (k (w, nic, sh))"
  shows "core_step_ok G cont ent K crc W E ts i X stuck (outcome_bind r k)"
  using assms by (cases r) (auto simp: core_step_ok_def)

lemma transfer_shard_sound:
  assumes R: "ring_ok R cont cap" and N: "nic_delivers N (packet_ok crc K W) X"
    and "worker_ok W E i w" and "sound G cont ent K crc W E ts sh" and "nic \<in> X"
  shows "core_step_ok G cont ent K crc W E ts i X (busy N (burst w) fuel nic) (worker_transfer_shard N R fuel (w, nic, sh))"
proof -
  have d: "offloading_idx w < E" "data_ring W (q w)" using assms(3) by (simp_all add: worker_ok_def)
  from maybe_send_sound(1) [OF R assms(4) d] obtain sh1 where
    1: "maybe_send send_remove R (offloading_idx w) (q w) sh = Inr sh1" "sound G cont ent K crc W E ts sh1" by blast
  let ?k = "\<lambda>(w, nic, sh). outcome_bind (drain_q R (w, sh)) (\<lambda>(w, sh).
     outcome_bind (maybe_send send_add R (offloading_idx w) (q w) sh) (\<lambda>sh.
     outcome_bind (if \<not> myown w then outcome_fold (release_shard (queueid w)) [0..<total_shards sh] sh else Inr sh) (\<lambda>sh.
     check_index (queueid w) (transfer_shard sh)
       (Inr (w, nic, sh\<lparr>transfer_shard := (transfer_shard sh)[queueid w := 0]\<rparr>)))))"
  have k: "core_step_ok G cont ent K crc W E ts i X stuck (?k (w2, nic2, sh2))"
    if w2: "worker_ok W E i w2" and s2: "sound G cont ent K crc W E ts sh2" and n2: "nic2 \<in> X" for w2 nic2 sh2 stuck
  proof -
    obtain w3 sh3 where 3: "drain_q R (w2, sh2) = Inr (w3, sh3)" "worker_ok W E i w3" "sound G cont ent K crc W E ts sh3"
      by (rule worker_step_okE [OF drain_q_sound [OF R w2 s2]])
    have d3: "offloading_idx w3 < E" "data_ring W (q w3)" "queueid w3 < W" using 3(2) by (simp_all add: worker_ok_def)
    from maybe_send_sound(2) [OF R 3(3) d3(1,2)] obtain sh4 where
      4: "maybe_send send_add R (offloading_idx w3) (q w3) sh3 = Inr sh4" "sound G cont ent K crc W E ts sh4" by blast
    obtain sh5 where 5: "(if \<not> myown w3 then outcome_fold (release_shard (queueid w3)) [0..<total_shards sh4] sh4 else Inr sh4) = Inr sh5"
      "sound G cont ent K crc W E ts sh5" using release_sound [OF 4(2), of "queueid w3"] 4(2) by (cases "myown w3") auto
    show ?thesis unfolding prod.case 3(1) outcome_bind.simps 4(1) 5(1)
      using 3(2) n2 sound_flags(3) [OF 5(2) d3(3)] memory_ok_flags(3) [OF 5(2)] by (simp add: core_step_ok_def)
  qed
  have "core_step_ok G cont ent K crc W E ts i X (busy N (burst w) fuel nic)
      (outcome_bind (receive_own N R fuel (of_nat (min (rx_queue_count N nic) (qsize w))) (w, nic, sh1)) ?k)"
    by (rule core_step_bind [OF receive_own_sound [OF R N assms(3) 1(2) assms(5)]]) (rule k)
  then show ?thesis unfolding worker_transfer_shard_def prod.case 1(1) outcome_bind.simps .
qed

lemma handle_signal_sound:
  assumes R: "ring_ok R cont cap" and N: "nic_delivers N (packet_ok crc K W) X"
    and "worker_ok W E i w" and "sound G cont ent K crc W E ts sh" and "nic \<in> X"
  shows "core_step_ok G cont ent K crc W E ts i X (controller_signal sh ! i = 1 \<and> busy N (burst w) fuel nic) (handle_signal N R fuel (w, nic, sh))"
proof (cases "controller_signal sh ! i = 1")
  case True
  have w: "queueid w = i" "i < W" using assms(3) by (simp_all add: worker_ok_def)
  have none: "worker_step_ok G cont ent K crc W E ts i (Inr (w, sh))" if "worker_ok W E i w" "sound G cont ent K crc W E ts sh" for w sh
    using that by (simp add: worker_step_ok_def)
  let ?a = "if transfer_r sh ! queueid w = 1 then worker_transfer_r R (w, sh) else Inr (w, sh)"
  have "worker_step_ok G cont ent K crc W E ts i ?a" by (simp add: transfer_r_sound [OF R] none assms(3,4))
  then obtain w1 sh1 where 1: "?a = Inr (w1, sh1)" "worker_ok W E i w1" "sound G cont ent K crc W E ts sh1" by (rule worker_step_okE)
  have w1: "queueid w1 = i" using 1(2) by (simp add: worker_ok_def)
  let ?b = "if transfer_offloading sh1 ! queueid w1 = 1 then worker_transfer_offloading R (w1, sh1) else Inr (w1, sh1)"
  have "worker_step_ok G cont ent K crc W E ts i ?b" by (simp add: transfer_offloading_sound [OF R] none 1(2,3))
  then obtain w2 sh2 where 2: "?b = Inr (w2, sh2)" "worker_ok W E i w2" "sound G cont ent K crc W E ts sh2" by (rule worker_step_okE)
  have w2: "queueid w2 = i" using 2(2) by (simp add: worker_ok_def)
  have "burst w1 = burst w" "burst w2 = burst w1" using 1(1) 2(1) transfer_r_burst transfer_offloading_burst by (auto split: if_splits)
  then have b: "burst w2 = burst w" by simp
  let ?c = "if transfer_shard sh2 ! queueid w2 = 1 then worker_transfer_shard N R fuel (w2, nic, sh2) else Inr (w2, nic, sh2)"
  let ?k = "\<lambda>(w, nic, sh). check_index (queueid w) (controller_signal sh)
         (Inr (w, nic, sh\<lparr>controller_signal := (controller_signal sh)[queueid w := 0]\<rparr>))"
  have "core_step_ok G cont ent K crc W E ts i X (busy N (burst w) fuel nic) ?c"
    using transfer_shard_sound [OF R N 2(2,3) assms(5)] 2(2,3) assms(5) by (simp add: b core_step_ok_def)
  then have "core_step_ok G cont ent K crc W E ts i X (busy N (burst w) fuel nic) (outcome_bind ?c ?k)"
  proof (rule core_step_bind)
    fix w nic sh assume "worker_ok W E i w" "sound G cont ent K crc W E ts sh" "nic \<in> X"
    then show "core_step_ok G cont ent K crc W E ts i X stuck (?k (w, nic, sh))" for stuck
      using sound_flags(5) memory_ok_flags(5) by (fastforce simp: core_step_ok_def worker_ok_def)
  qed
  moreover have "handle_signal N R fuel (w, nic, sh) = outcome_bind ?c ?k"
    unfolding handle_signal_def prod.case using True w sound_flags [OF assms(4) w(2)]
      1(1) w1 sound_flags [OF 1(3) w(2)] 2(1) w2 sound_flags [OF 2(3) w(2)] by simp
  ultimately show ?thesis using True by simp
next
  case False
  then show ?thesis using assms(3-5) sound_flags(5) [OF assms(4), of i] by (simp add: handle_signal_def core_step_ok_def worker_ok_def)
qed

subsection \<open>Handling packets\<close>

lemma process_sound:
  assumes R: "ring_ok R cont cap" and N: "nic_delivers N (packet_ok crc K W) X"
    and "worker_ok W E i w" and "sound G cont ent K crc W E ts sh" and "nic \<in> X"
  shows "\<exists>batch w' nic' sh'. process N R (w, nic, sh) = Inr (batch, w', nic', sh') \<and> worker_ok W E i w'
    \<and> sound G cont ent K crc W E ts sh' \<and> nic' \<in> X
    \<and> (\<forall>ms. batch = Some ms \<longrightarrow> list_all (packet_ok crc K W) ms \<and> length ms \<le> OFF_PKTS)"
proof -
  let ?first = "check_index (queueid w) (had_changes sh) (if had_changes sh ! queueid w = 1
        then outcome_bind (outcome_fold (take_local_queue R) [0..<total_shards sh] (w, sh))
          (\<lambda>(w, sh). check_index (queueid w) (had_changes sh) (Inr (w, sh\<lparr>had_changes := (had_changes sh)[queueid w := 0]\<rparr>)))
        else Inr (w, sh))"
  have w: "queueid w < length (had_changes sh)" using sound_flags(1) [OF assms(4)] assms(3) by (simp add: worker_ok_def)
  have "worker_step_ok G cont ent K crc W E ts i (outcome_fold (take_local_queue R) [0..<total_shards sh] (w, sh))"
    by (rule worker_steps [OF assms(3,4)]) (simp add: take_local_queue_sound [OF R] memory_okD(2) [OF assms(4)])
  then obtain w1 sh1 where 1: "outcome_fold (take_local_queue R) [0..<total_shards sh] (w, sh) = Inr (w1, sh1)" "worker_ok W E i w1"
    "sound G cont ent K crc W E ts sh1" by (rule worker_step_okE)
  have "queueid w1 < length (had_changes sh1)" using sound_flags(1) [OF 1(3)] 1(2) by (simp add: worker_ok_def)
  with 1 have "worker_step_ok G cont ent K crc W E ts i ?first" by (simp add: worker_step_ok_def memory_ok_flags(1) assms(3,4) w)
  then obtain w2 sh2 where 2: "?first = Inr (w2, sh2)" "worker_ok W E i w2" "sound G cont ent K crc W E ts sh2" by (rule worker_step_okE)
  obtain ms nic1 where b: "rx_burst N (burst w2) nic = (ms, nic1)" by (cases "rx_burst N (burst w2) nic")
  note ms = nic_burst [OF N assms(5) b]
  have "length ms \<le> OFF_PKTS" using ms(2) 2(2) by (simp add: worker_ok_def)
  then show ?thesis unfolding process_def prod.case 2(1) outcome_bind.simps
    using 2(2,3) assms(5) ms by (cases "myown w2") (auto simp: b)
qed

text \<open>A batch is not longer than \<open>off_pkts\<close>, which is empty before it.\<close>

lemma run_sound:
  assumes T: "table_ok T K ent" "0 < ts"
    and "worker_ok W E i (w\<lparr>off_pkts := []\<rparr>)" and "sound G cont ent K crc W E ts sh" and "list_all (packet_ok crc K W) (off_pkts w)"
    and "list_all (packet_ok crc K W) ms" and "length (off_pkts w) + length ms \<le> OFF_PKTS"
  shows "\<exists>w' outs' sh'. outcome_fold (run crc T) ms (w, outs, sh) = Inr (w', outs', sh') \<and> worker_ok W E i (w'\<lparr>off_pkts := []\<rparr>)
    \<and> sound G cont ent K crc W E ts sh' \<and> list_all (packet_ok crc K W) (off_pkts w')"
  using assms(3-)
proof (induction ms arbitrary: w outs sh)
  case (Cons m ms)
  have m: "packet_ok crc K W m" "list_all (packet_ok crc K W) ms" using Cons.prems(4) by simp_all
  from extract_memory_ok [OF Cons.prems(2) T m(1), of "worker_solver w"] obtain a p sh1 where
    1: "extract_state crc T (worker_solver w) m sh = Inr (a, p, sh1)" "sound G cont ent K crc W E ts sh1" "state_shard (state_at sh1 a) < ts"
    by blast
  have l: "state_shard (state_at sh1 a) < length (shards sh1)" using 1(3) memory_okD(10) [OF 1(2)] by simp
  let ?w = "w\<lparr>off_pkts := off_pkts w @ [m]\<rparr>"
  have "run crc T m (w, outs, sh) = Inr (?w, outs, sh1) \<or> run crc T m (w, outs, sh) = Inr (w, outs @ [p], sh1)"
    using 1(1) l Cons.prems(5) by (simp add: run_def Let_def)
  then show ?case
  proof
    assume r: "run crc T m (w, outs, sh) = Inr (?w, outs, sh1)"
    have "list_all (packet_ok crc K W) (off_pkts ?w)" "length (off_pkts ?w) + length ms \<le> OFF_PKTS"
      "worker_ok W E i (?w\<lparr>off_pkts := []\<rparr>)" using Cons.prems m by simp_all
    from Cons.IH [OF this(3) 1(2) this(1) m(2) this(2), of outs] r show ?thesis by simp
  next
    assume r: "run crc T m (w, outs, sh) = Inr (w, outs @ [p], sh1)"
    have "length (off_pkts w) + length ms \<le> OFF_PKTS" using Cons.prems(5) by simp
    from Cons.IH [OF Cons.prems(1) 1(2) Cons.prems(3) m(2) this, of "outs @ [p]"] r show ?thesis by simp
  qed
qed simp

lemma flush_sound:
  assumes R: "ring_ok R cont cap" and "worker_ok W E i (w\<lparr>off_pkts := []\<rparr>)" and "sound G cont ent K crc W E ts sh"
    and "list_all (packet_ok crc K W) (off_pkts w)"
  shows "worker_step_ok G cont ent K crc W E ts i (Inr (flush_offloaded R (w, sh)))"
proof (cases "off_pkts w = []")
  case True
  then have "w\<lparr>off_pkts := []\<rparr> = w" by simp
  with assms(2) have "worker_ok W E i w" by (simp only:)
  then show ?thesis using True assms(3) by (simp add: flush_offloaded_def worker_step_ok_def)
next
  case False
  have d: "data_ring W (q w)" using assms(2) by (simp add: worker_ok_def)
  have "list_all (is_packet (packet_ok crc K W)) (map PMbuf (off_pkts w))" using assms(4) by (simp add: list_all_iff)
  then have "sound G cont ent K crc W E ts (set_ring (q w) (snd (ring_enqueue_burst R (map PMbuf (off_pkts w)) (ring_at sh (q w)))) sh)"
    by (intro memory_ok_data_ring [OF assms(3)] burst_typed [OF R] rings_typedD(1) [OF memory_okD(5) [OF assms(3)]] d)
  then show ?thesis using False assms(2) by (simp add: flush_offloaded_def worker_step_ok_def)
qed

lemma extract_ptrs_sound:
  assumes T: "table_ok T K ent" "0 < ts" and "sound G cont ent K crc W E ts sh" and "list_all (is_packet (packet_ok crc K W)) xs"
  shows "\<exists>outs' sh'. outcome_fold (extract_ptr crc T solver) xs (outs, sh) = Inr (outs', sh') \<and> sound G cont ent K crc W E ts sh'"
  using assms(3,4)
proof (induction xs arbitrary: outs sh)
  case (Cons x xs)
  then obtain m where x: "x = PMbuf m" "packet_ok crc K W m" by (cases x) auto
  from extract_memory_ok [OF Cons.prems(1) T x(2), of solver] obtain a p sh1 where
    1: "extract_state crc T solver m sh = Inr (a, p, sh1)" "sound G cont ent K crc W E ts sh1" by blast
  have "list_all (is_packet (packet_ok crc K W)) xs" using Cons.prems(2) by simp
  from Cons.IH [OF 1(2) this, of "outs @ [p]"] 1(1) x(1) show ?case by simp
qed simp

lemma work_off_sound:
  assumes R: "ring_ok R cont cap" and T: "table_ok T K ent" "0 < ts"
    and "worker_ok W E i w" and "sound G cont ent K crc W E ts sh"
  shows "\<exists>b outs w' sh'. work_off crc T R (w, sh) = Inr (b, outs, w', sh') \<and> worker_ok W E i w' \<and> sound G cont ent K crc W E ts sh'"
proof -
  have w: "queueid w < W" "data_ring W (myring w)" "0 < burst w" "worker_ok W E i (w\<lparr>myown := False\<rparr>)"
    using assms(4) by (simp_all add: worker_ok_def)
  show ?thesis
  proof (cases "ring_count R (ring_at sh (myring w)) = 0")
    case True
    then show ?thesis using settle_sound [OF assms(5) w(1)] w(4) by (auto simp: work_off_def)
  next
    case False
    let ?n = "min (ring_count R (ring_at sh (myring w))) (burst w)"
    obtain xs r where d: "ring_dequeue_burst R ?n (ring_at sh (myring w)) = (xs, r)" by fastforce
    note t = rings_typedD(1) [OF memory_okD(5) [OF assms(5)] w(2)]
    have xs: "list_all (is_packet (packet_ok crc K W)) xs" "list_all (is_packet (packet_ok crc K W)) (cont r)"
      using ring_burst(3,4) [OF R, of ?n "ring_at sh (myring w)"] d t list_all_parts by (metis fst_conv snd_conv)+
    from extract_ptrs_sound [OF T memory_ok_data_ring [OF assms(5) w(2) xs(2)] xs(1), of "worker_solver w" "[]"] obtain outs sh' where
      "outcome_fold (extract_ptr crc T (worker_solver w)) xs ([], set_ring (myring w) r sh) = Inr (outs, sh')" "sound G cont ent K crc W E ts sh'" by blast
    moreover have "?n \<noteq> 0" using False w(3) by (simp add: min_def)
    ultimately have "work_off crc T R (w, sh) = Inr (True, outs, w, sh')" using False d by (simp add: work_off_def Let_def)
    then show ?thesis using assms(4) \<open>sound G cont ent K crc W E ts sh'\<close> by blast
  qed
qed

text \<open>The task never faults; it waits for ever only in \<open>receive_own\<close>, on a hardware queue that never pauses.\<close>

lemma worker_task_sound:
  assumes R: "ring_ok R cont cap" and T: "table_ok T K ent" "0 < ts" and N: "nic_delivers N (packet_ok crc K W) X"
    and "worker_ok W E i w" and "sound G cont ent K crc W E ts sh" and "nic \<in> X"
  shows "case worker_run_task N crc T R fuel (w, nic, sh) of
      Inl e \<Rightarrow> e = Spinning \<and> \<not> myown w \<and> controller_signal sh ! i = 1 \<and> busy N (burst w) fuel nic
    | Inr (b, outs, w', nic', sh') \<Rightarrow> worker_ok W E i w' \<and> sound G cont ent K crc W E ts sh' \<and> nic' \<in> X"
proof (cases "myown w")
  case True
  from work_off_sound [OF R T assms(5,6)] obtain b outs w' sh' where
    1: "work_off crc T R (w, sh) = Inr (b, outs, w', sh')" "worker_ok W E i w'" "sound G cont ent K crc W E ts sh'" by blast
  then show ?thesis using True assms(7) by (simp add: worker_run_task_def)
next
  case False
  note h = handle_signal_sound [OF R N assms(5-7), of fuel]
  show ?thesis
  proof (cases "handle_signal N R fuel (w, nic, sh)")
    case (Inl e)
    then show ?thesis using h False by (simp add: worker_run_task_def core_step_ok_def)
  next
    case (Inr x)
    then obtain w1 nic1 sh1 where 1: "handle_signal N R fuel (w, nic, sh) = Inr (w1, nic1, sh1)" "worker_ok W E i w1"
      "sound G cont ent K crc W E ts sh1" "nic1 \<in> X" using h by (cases x) (simp add: core_step_ok_def)
    from process_sound [OF R N 1(2-4)] obtain batch w2 nic2 sh2 where
      2: "process N R (w1, nic1, sh1) = Inr (batch, w2, nic2, sh2)" "worker_ok W E i w2" "sound G cont ent K crc W E ts sh2" "nic2 \<in> X"
      and batch: "\<forall>ms. batch = Some ms \<longrightarrow> list_all (packet_ok crc K W) ms \<and> length ms \<le> OFF_PKTS" by blast
    show ?thesis
    proof (cases batch)
      case None
      then show ?thesis using False 1(1) 2 by (simp add: worker_run_task_def)
    next
      case (Some ms)
      have "off_pkts w2 = []" using 2(2) by (simp add: worker_ok_def)
      then have "w2\<lparr>off_pkts := []\<rparr> = w2" "list_all (packet_ok crc K W) (off_pkts w2)" "length (off_pkts w2) + length ms \<le> OFF_PKTS"
        using batch Some by simp_all
      with run_sound [OF T, where G = G and cont = cont and crc = crc and W = W and E = E and i = i and w = w2 and sh = sh2 and ms = ms and outs = "[]"] 2(2,3) batch Some obtain w3 outs sh3 where
        3: "outcome_fold (run crc T) ms (w2, [], sh2) = Inr (w3, outs, sh3)" "worker_ok W E i (w3\<lparr>off_pkts := []\<rparr>)"
        "sound G cont ent K crc W E ts sh3" "list_all (packet_ok crc K W) (off_pkts w3)" by auto
      obtain w4 sh4 where 4: "flush_offloaded R (w3, sh3) = (w4, sh4)" "worker_ok W E i w4" "sound G cont ent K crc W E ts sh4"
        by (rule worker_step_okE [OF flush_sound [OF R 3(2-4)]]) simp
      then show ?thesis using False 1(1) 2(1,4) 3(1) Some by (simp add: worker_run_task_def)
    qed
  qed
qed

end
