(* ===== verification/Offloader_Safety.thy ===== *)
theory Offloader_Safety
  imports Worker_Safety
begin

text \<open>
  An offloading core's task never faults on the shared memory as the elements keep it, and keeps it so.
\<close>

definition offloader_ok :: "nat \<Rightarrow> nat \<Rightarrow> nat \<Rightarrow> offloader \<Rightarrow> bool" where
  "offloader_ok W E j c \<longleftrightarrow> off_idx c = j \<and> j < E \<and> list_all (data_ring W) (serving c)"

lemma queue_pointers: "list_all (is_queue W) xs \<Longrightarrow> \<exists>ps. xs = map PRing ps \<and> list_all (data_ring W) ps"
proof (induction xs)
  case (Cons x xs)
  then obtain ps p where "xs = map PRing ps" "list_all (data_ring W) ps" "x = PRing p" "data_ring W p" by (cases x) auto
  then show ?case by (intro exI [of _ "p # ps"]) simp
qed simp

lemma update_queues_sound:
  assumes R: "ring_ok R cont cap" and "offloader_ok W E j c" and M: "sound G cont ent K crc W E ts sh"
  shows "\<exists>c' sh'. update_queues R (c, sh) = Inr (c', sh') \<and> offloader_ok W E j c' \<and> sound G cont ent K crc W E ts sh'"
proof -
  have j: "off_idx c < E" "off_idx c = j" "list_all (data_ring W) (serving c)" using assms(2) by (simp_all add: offloader_ok_def)
  note m = memory_okD [OF M]
  have at: "toRemoveQueue sh ! off_idx c = ToRemove j" "toAddQueue sh ! off_idx c = ToAdd j" using m(6,7) j by simp_all
  have ctl: "control_ring E (ToRemove j)" "control_ring E (ToAdd j)" using j by simp_all
  obtain gone where gone: "cont (ring_at sh (ToRemove j)) = map PRing gone"
    using queue_pointers [OF rings_typedD(2) [OF m(5) ctl(1)]] by blast
  obtain new where new: "cont (ring_at sh (ToAdd j)) = map PRing new" "list_all (data_ring W) new"
    using queue_pointers [OF rings_typedD(2) [OF m(5) ctl(2)]] by blast
  have "off_idx c < length (toRemoveQueue sh)" "off_idx c < length (toAddQueue sh)" using m(6,7) j by simp_all
  from update_queues_ok [OF R this, unfolded at, OF _ gone new(1)] obtain sh' where
    u: "update_queues R (c, sh) = Inr (c\<lparr>serving := filter (\<lambda>x. x \<notin> set gone) (serving c) @ new\<rparr>, sh')" "sh' = sh\<lparr>ring_at := ring_at sh'\<rparr>"
    and r: "cont (ring_at sh' (ToRemove j)) = []" "cont (ring_at sh' (ToAdd j)) = []"
      "\<forall>p. p \<noteq> ToRemove j \<longrightarrow> p \<noteq> ToAdd j \<longrightarrow> ring_at sh' p = ring_at sh p" by auto
  have "cont (ring_at sh' p) = [] \<or> ring_at sh' p = ring_at sh p" for p using r by metis
  then have "rings_typed cont (packet_ok crc K W) W E sh'"
    unfolding rings_typed_def using rings_typedD [OF m(5)] by (metis list.pred_inject(1))
  moreover obtain x where x: "sh' = sh\<lparr>ring_at := x\<rparr>" using u(2) by blast
  moreover have "flows_ok ent K sh'" using m(4) by (simp add: x flows_ok_def state_ok_def)
  ultimately have "sound G cont ent K crc W E ts sh'" using M by (simp add: memory_ok_def shared_ok_def)
  moreover have "offloader_ok W E j (c\<lparr>serving := filter (\<lambda>x. x \<notin> set gone) (serving c) @ new\<rparr>)"
    using j new(2) by (auto simp: offloader_ok_def list_all_iff)
  ultimately show ?thesis using u(1) by blast
qed

lemma as_mbufs_typed: "list_all (is_packet ok) xs \<Longrightarrow> \<exists>ms'. outcome_fold as_mbuf xs ms = Inr ms'"
proof (induction xs arbitrary: ms)
  case (Cons x xs)
  then obtain m where "x = PMbuf m" by (cases x) auto
  then show ?case using Cons.IH [of "ms @ [m]"] Cons.prems by (simp add: as_mbuf_def)
qed simp

lemma offloader_task_sound:
  assumes R: "ring_ok R cont cap" and "offloader_ok W E j c" and "sound G cont ent K crc W E ts sh"
  shows "\<exists>b ms c' sh'. offloader_run_task R (c, sh) = Inr (b, ms, c', sh') \<and> offloader_ok W E j c' \<and> sound G cont ent K crc W E ts sh'"
proof -
  from update_queues_sound [OF assms] obtain c1 sh1 where
    1: "update_queues R (c, sh) = Inr (c1, sh1)" "offloader_ok W E j c1" "sound G cont ent K crc W E ts sh1" by blast
  show ?thesis
  proof (cases "serving c1 = []")
    case True
    then have "offloader_run_task R (c, sh) = Inr (True, [], c1, sh1)" using 1(1) by (simp add: offloader_run_task_def)
    then show ?thesis using 1(2,3) by blast
  next
    case False
    let ?p = "serving c1 ! (unat (off_count c1) mod length (serving c1))" and ?c = "c1\<lparr>off_count := off_count c1 + 1\<rparr>"
    have d: "data_ring W ?p" using 1(2) False by (simp add: offloader_ok_def list_all_length)
    obtain xs r where x: "ring_dequeue_burst R (off_burst ?c) (ring_at sh1 ?p) = (xs, r)" by fastforce
    note t = rings_typedD(1) [OF memory_okD(5) [OF 1(3)] d]
    have xs: "list_all (is_packet (packet_ok crc K W)) xs" "list_all (is_packet (packet_ok crc K W)) (cont r)"
      using ring_burst(3,4) [OF R, of "off_burst ?c" "ring_at sh1 ?p"] x t list_all_parts by (metis fst_conv snd_conv)+
    obtain ms where "outcome_fold as_mbuf xs [] = Inr ms" using as_mbufs_typed [OF xs(1)] by blast
    then have "offloader_run_task R (c, sh) = Inr (True, ms, ?c, set_ring ?p r sh1)"
      using 1(1) False x by (simp add: offloader_run_task_def choose_queue_def)
    moreover have "offloader_ok W E j ?c" using 1(2) by (simp add: offloader_ok_def)
    ultimately show ?thesis using memory_ok_data_ring [OF 1(3) d xs(2)] by blast
  qed
qed

end
