(* ===== verification/Round_Safety.thy ===== *)
theory Round_Safety
  imports Offloader_Safety
begin

text \<open>
  A round of the controller, with the solver's answer over the pipes, keeps the shared memory as the
  other elements need it, and the numbers the next request to the solver is made of.
\<close>

subsection \<open>All shards at once\<close>

definition same_tables :: "('t \<Rightarrow> (DyssectFlow \<times> addr) set) \<Rightarrow> ('t, 'r) ShardInfo \<Rightarrow> ('t, 'r) ShardInfo \<Rightarrow> bool" where
  "same_tables ent i i' \<longleftrightarrow> table i' = table i \<and> ent (flows3 i') \<subseteq> ent (flows3 i) \<and> ent (flows3_2 i') \<subseteq> ent (flows3_2 i)"

lemma same_tables_fields: "table i' = table i \<Longrightarrow> flows3 i' = flows3 i \<Longrightarrow> flows3_2 i' = flows3_2 i \<Longrightarrow> same_tables ent i i'"
  by (simp add: same_tables_def)

lemma memory_ok_shards:
  assumes "memory_ok G cont ent K ok W E ts sh" and "length xs = ts"
    and "\<And>s. s < ts \<Longrightarrow> same_tables ent (shards sh ! s) (xs ! s)"
    and "\<And>s. s < ts \<Longrightarrow> shard_good cont ok W (shards sh ! s) \<Longrightarrow> shard_good cont ok W (xs ! s)"
  shows "memory_ok G cont ent K ok W E ts (sh\<lparr>shards := xs\<rparr>)"
proof -
  note m = memory_okD [OF assms(1)]
  have good: "shard_good cont ok W (xs ! s)" if "s < ts" for s using assms(4) m(9) that by blast
  then have own: "owner (xs ! s) < W \<and> (owner_new (xs ! s) < W \<or> owner_new (xs ! s) = UINT32_MAX)" if "s < ts" for s
    using that by (simp add: shard_good_def)
  have "flows_ok ent K (sh\<lparr>shards := xs\<rparr>)" unfolding flows_ok_def
  proof (intro conjI allI impI)
    fix s assume "s < total_shards (sh\<lparr>shards := xs\<rparr>)"
    then have s: "s < ts" "s < total_shards sh" using m(2) by simp_all
    note f = flows_okD [OF m(4) s(2)] and t = assms(3) [OF s(1), unfolded same_tables_def]
    show "fst ` ent (table (shards (sh\<lparr>shards := xs\<rparr>) ! s)) \<subseteq> K" using f(1) t by simp
    show "ent (flows3 (shards (sh\<lparr>shards := xs\<rparr>) ! s)) \<subseteq> ent (table (shards (sh\<lparr>shards := xs\<rparr>) ! s))"
      "ent (flows3_2 (shards (sh\<lparr>shards := xs\<rparr>) ! s)) \<subseteq> ent (table (shards (sh\<lparr>shards := xs\<rparr>) ! s))" using f(3,4) t by auto
    fix k a assume "(k, a) \<in> ent (table (shards (sh\<lparr>shards := xs\<rparr>) ! s))"
    then show "state_ok (sh\<lparr>shards := xs\<rparr>) s k a" using f(2) t by (simp add: state_ok_def)
  qed (simp add: assms(2) m(2))
  moreover have "known ent (sh\<lparr>shards := xs\<rparr>) s = known ent sh s" if "s < ts" for s
    using assms(3) [OF that] by (simp add: known_def same_tables_def)
  then have "remembers G ent (sh\<lparr>shards := xs\<rparr>)" using m(2,11,12) by (simp add: remembers_def shard_of_def)
  ultimately show ?thesis using assms(1,2) good own by (simp add: memory_ok_def shared_ok_def rings_typed_def)
qed

lemma memory_ok_map:
  assumes "memory_ok G cont ent K ok W E ts sh" and "\<And>i. same_tables ent i (f i)" and "\<And>i. shard_good cont ok W i \<Longrightarrow> shard_good cont ok W (f i)"
  shows "memory_ok G cont ent K ok W E ts (sh\<lparr>shards := map f (shards sh)\<rparr>)"
  by (rule memory_ok_shards [OF assms(1)]) (use assms memory_okD(10) [OF assms(1)] in simp_all)

lemma flows_ok_epoch: "flows_ok ent K (sh\<lparr>epoch := n\<rparr>) = flows_ok ent K sh"
  by (simp add: flows_ok_def state_ok_def)

text \<open>The states of flows, up to the copies of their shares.\<close>

lemma memory_ok_states:
  assumes "memory_ok G cont ent K ok W E ts sh" and "\<And>a. \<exists>p q. st a = (state_at sh a)\<lparr>prob2 := p, cdf := q\<rparr>"
  shows "memory_ok G cont ent K ok W E ts (sh\<lparr>state_at := st\<rparr>)"
proof -
  have "flow (st a) = flow (state_at sh a)" "state_shard (st a) = state_shard (state_at sh a)" "global_state (st a) = global_state (state_at sh a)"
    "prob (st a) = prob (state_at sh a)" for a
    using assms(2) [of a] by auto
  then have "flows_ok ent K (sh\<lparr>state_at := st\<rparr>) = flows_ok ent K sh" by (simp add: flows_ok_def state_ok_def)
  then show ?thesis using assms(1) by (simp add: memory_ok_def shared_ok_def rings_typed_def)
qed

lemma memory_ok_arrays:
  assumes "memory_ok G cont ent K ok W E ts sh" and "length xs = W + E"
  shows "memory_ok G cont ent K ok W E ts (sh\<lparr>transfer_r := xs\<rparr>)" "memory_ok G cont ent K ok W E ts (sh\<lparr>controller_signal := xs\<rparr>)"
  using assms by (simp_all add: memory_ok_def shared_ok_def rings_typed_def)

subsection \<open>Ratios and volumes\<close>

lemma ratio_ok_rnd: "\<bar>x\<bar> \<le> 4 \<Longrightarrow> ratio_ok (rnd x)"
  using finite_double_small [of x] rnd_mono [of x 4] rnd_mono [of "- 4" x] rnd_of_int [of 4] rnd_of_int [of "- 4"]
  by (simp add: ratio_ok_def abs_le_iff)

lemma snap_ratio_ok: "ratio_ok r \<Longrightarrow> \<bar>r\<bar> \<le> 2 \<Longrightarrow> ratio_ok (snap_ratio r acc ps)"
proof (cases rule: snap_ratio_cases [where r = r and acc = acc and ps = ps])
  case (snap j)
  assume r: "\<bar>r\<bar> \<le> 2"
  have "dmul r SCALE \<le> rnd 3" using r by (auto simp: dmul_def SCALE_def intro!: rnd_mono)
  also have "rnd 3 = 3" using rnd_of_int [of 3] by simp
  finally have "cum_share acc ps j < 3" using snap by simp
  moreover have "- 2 \<le> cum_share acc ps j" using snap r by linarith
  moreover have "\<bar>EPSILON\<bar> \<le> 1" by (simp add: EPSILON_def)
  ultimately have "\<bar>cum_share acc ps j + EPSILON\<bar> \<le> 4" by linarith
  then show ?thesis using snap by (simp add: dadd_def ratio_ok_rnd)
qed simp

lemma new_ratio_ok: "ratio_ok (r_new i) \<Longrightarrow> \<bar>r_new i\<bar> \<le> 2 \<Longrightarrow> ratio_ok (new_ratio sh i)"
  by (simp add: new_ratio_def snap_ratio_ok)

lemma update_ratio_sound:
  assumes "memory_ok G cont ent K ok W E ts sh" and "\<forall>s<ts. \<bar>r_new (shards sh ! s)\<bar> \<le> 2" and "update_ratio sh = Inr (b, sh')"
  shows "memory_ok G cont ent K ok W E ts sh'"
proof -
  note m = memory_okD [OF assms(1)]
  have s1: "memory_ok G cont ent K ok W E ts (sh\<lparr>shards := map (with_new_ratio sh) (shards sh)\<rparr>)"
    by (rule memory_ok_shards [OF assms(1)])
       (use assms(2) m(10) in \<open>simp_all add: with_new_ratio_def shard_good_def same_tables_fields new_ratio_ok\<close>)
  have "length (flagged sh (total_shards sh)) = W + E" using m(1) by (simp add: flagged_def shared_ok_def)
  from memory_ok_arrays(1) [OF s1 this] show ?thesis
    using ratio_updated_eq [of sh] m(2,10) update_ratio_pure [OF assms(3)] by simp
qed

lemma shard_volume_finite: "finite_double (shard_volume (processingtime_p n w) p)"
proof -
  have up: "0 \<le> x \<Longrightarrow> x \<le> 2 ^ 53 \<Longrightarrow> 0 \<le> rnd x \<and> rnd x \<le> 2 ^ 53" for x
    using rnd_mono [of x "2 ^ 53"] rnd_of_int [of "2 ^ 53"] by (simp add: rnd_nonneg)
  have e: "0 \<le> rnd (1 / 10 ^ 6)" "rnd (1 / 10 ^ 6) \<le> 1"
    using rnd_mono [of "1 / 10 ^ 6" 1] rnd_of_int [of 1] by (simp_all add: rnd_nonneg)
  then have t: "0 \<le> processingtime_p n w" "processingtime_p n w \<le> 1"
    using rnd_mono [of "rnd (1 / 10 ^ 6)" 1] rnd_of_int [of 1] by (simp_all add: processingtime_p_def dmul_def rnd_nonneg)
  have "(of_nat (unat p) :: rat) < of_nat (2 ^ 32)" using unsigned_less [where ?'a = nat, of p] by (subst of_nat_less_iff) simp
  then have p: "0 \<le> (of_nat (unat p) :: rat)" "(of_nat (unat p) :: rat) \<le> 2 ^ 32" by (simp_all del: of_nat_unat)
  have "of_nat (unat p) * processingtime_p n w \<le> 2 ^ 32 * 1" using p t by (intro mult_mono) simp_all
  then have 1: "0 \<le> dmul (of_nat (unat p)) (processingtime_p n w)" "dmul (of_nat (unat p)) (processingtime_p n w) \<le> 2 ^ 32"
    using rnd_mono [of "of_nat (unat p) * processingtime_p n w" "2 ^ 32"] rnd_of_int [of "2 ^ 32"] p t by (simp_all add: dmul_def rnd_nonneg)
  have "dmul (of_nat (unat p)) (processingtime_p n w) * 10 ^ 6 \<le> 2 ^ 53" using 1(2) by simp
  then have 2: "0 \<le> dmul (dmul (of_nat (unat p)) (processingtime_p n w)) (10 ^ 6)"
    "dmul (dmul (of_nat (unat p)) (processingtime_p n w)) (10 ^ 6) \<le> 2 ^ 53"
    using up [of "dmul (of_nat (unat p)) (processingtime_p n w) * 10 ^ 6"] 1(1) by (simp_all add: dmul_def)
  have "\<bar>dmul (dmul (of_nat (unat p)) (processingtime_p n w)) (10 ^ 6) / of_nat SHORT_TIME\<bar> \<le> 2 ^ 53"
    using 2 by (simp add: SHORT_TIME_def)
  then show ?thesis unfolding shard_volume_def ddiv_def by (rule finite_double_small)
qed

subsection \<open>The numbers of a request\<close>

definition controller_ok :: "nat \<Rightarrow> nat \<Rightarrow> nat \<Rightarrow> controller \<Rightarrow> bool" where
  "controller_ok W E ts c \<longleftrightarrow> controller_inv c ts \<and> num_W c = W \<and> num_E c = E \<and> total_cores c = W + E
     \<and> relation_ok W E (W + E) (mat_O c) \<and> length (new_A c) = ts * (W + E) \<and> length (new_O c) = (W + E) * (W + E)
     \<and> (\<forall>v\<in>{Cap (slo c), Csp (slo c), SLOp (slo c), Car (slo c), Csr (slo c), SLOr (slo c), Tr c, Tp c}. finite_double v)"

lemma sound_epoch_inv: "memory_ok G cont ent K ok W E ts sh \<Longrightarrow> controller_ok W E ts c \<Longrightarrow> epoch_inv W E c sh"
  by (auto simp: memory_ok_def controller_ok_def epoch_inv_def)

lemma matrix_cell:
  assumes "v \<in> set m" and "length m = n * tc"
  obtains i j where "i < n" "j < (tc :: nat)" "v = m ! (i * tc + j)"
proof -
  obtain k where k: "k < n * tc" "v = m ! k" using assms by (auto simp: in_set_conv_nth)
  then have "0 < tc" by (cases tc) auto
  then have "k div tc < n" "k mod tc < tc" "v = m ! (k div tc * tc + k mod tc)"
    using k by (simp_all add: less_mult_imp_div_less)
  then show thesis by (rule that)
qed

lemma assign_cells: "assign_ok W tc ts m \<Longrightarrow> v \<in> set m \<Longrightarrow> v \<le> 1"
  by (erule matrix_cell [where n = ts and tc = tc]) (auto simp: assign_ok_def one_hot_def)

lemma relation_cells: "relation_ok W E tc m \<Longrightarrow> v \<in> set m \<Longrightarrow> v \<le> 1"
  by (erule matrix_cell [where n = tc and tc = tc]) (auto simp: relation_ok_def)

lemma sound_askable:
  assumes "memory_ok G cont ent K ok W E ts sh" and "controller_ok W E ts c" and "8 * ts \<le> PIPE_BUF" and "W + E \<le> MAX_TERMS"
  shows "askable W E c sh"
proof -
  note m = memory_okD [OF assms(1)]
  have A: "assign_ok W (W + E) ts (mat_A c)" and O: "relation_ok W E (W + E) (mat_O c)"
    using assms(2) by (auto simp: controller_ok_def controller_inv_def)
  have "v \<le> UINT32_MAX" if "v \<in> set (mat_A c) \<union> set (mat_O c)" for v
    using that assign_cells [OF A, of v] relation_cells [OF O, of v] by (auto simp: UINT32_MAX_def)
  moreover have "finite_double (shard_V (shards sh ! s)) \<and> finite_double (shard_r (shards sh ! s))" if "s < ts" for s
    using m(9) [OF that] by (simp add: shard_good_def ratio_ok_def)
  ultimately show ?thesis using assms sound_epoch_inv [OF assms(1,2)] m(2) A O
    by (auto simp: askable_def sendable_def controller_ok_def MAX_TERMS_def PIPE_BUF_def UINT32_MAX_def assign_ok_def relation_ok_def)
qed

subsection \<open>The parts of a round\<close>

lemma volume_shards_cases:
  assumes "length (shards sh) = total_shards sh" and "volume_shards c sh = (c', sh')"
  obtains (none) "c' = c" "sh' = sh"
  | (all) f where "c' = c \<or> c' = c\<lparr>Tr := processingtime_r (total_flows c) (num_W c), Tp := processingtime_p (total_flows c) (num_W c)\<rparr>"
      "sh' = sh\<lparr>shards := map (\<lambda>i. i\<lparr>shard_V := f i\<rparr>) (shards sh)\<rparr>" "\<And>i. finite_double (f i)"
proof -
  consider "last_totalpackets c = 0" | "last_totalpackets c \<noteq> 0" "total_packets c \<noteq> 0" | "last_totalpackets c \<noteq> 0" "total_packets c = 0" by blast
  then show thesis
  proof cases
    case 1
    then show thesis using assms(2) none by (simp add: volume_shards_def)
  next
    case 2
    then show thesis
      using assms(2) all [of "\<lambda>i. shard_volume (processingtime_p (total_flows c) (num_W c)) (old_packets i)"] shard_volume_finite
      by (auto simp: volume_shards_def Let_def fold_upd_all [OF assms(1)])
  next
    case 3
    then show thesis using assms(2) all [of "\<lambda>_. 0"] finite_double_small [of 0]
      by (auto simp: volume_shards_def fold_upd_all [OF assms(1)])
  qed
qed

lemma processingtime_finite: "finite_double (processingtime_r n w)" "finite_double (processingtime_p n w)"
proof -
  have "0 \<le> rnd (1 / 10 ^ 6)" "rnd (1 / 10 ^ 6) \<le> 1"
    using rnd_mono [of "1 / 10 ^ 6" 1] rnd_of_int [of 1] by (simp_all add: rnd_nonneg)
  then have "\<bar>1 * rnd (1 / 10 ^ 6)\<bar> \<le> 2 ^ 53" by simp
  then show "finite_double (processingtime_r n w)" "finite_double (processingtime_p n w)"
    unfolding processingtime_r_def processingtime_p_def dmul_def by (rule finite_double_small)+
qed

lemma swap_volume_sound:
  assumes M: "memory_ok G cont ent K ok W E ts sh" and C: "controller_ok W E ts c"
    and "swap_shards c sh = (c1, sh1)" and "volume_shards c1 sh1 = (c2, sh2)"
  shows "memory_ok G cont ent K ok W E ts sh2 \<and> controller_ok W E ts c2"
proof -
  note m = memory_okD [OF M]
  have 1: "c1 = c\<lparr>last_totalpackets := total_packets c, total_bytes := sum_list (map shard_bytes (shards sh)),
       total_packets := sum_list (map shard_packets (shards sh))\<rparr>"
     "sh1 = sh\<lparr>shards := map (\<lambda>i. swap_shard (i\<lparr>use_2 := \<not> use_2 i\<rparr>)) (shards sh)\<rparr>"
    using swap_shards_eq [of sh c] m(2,10) assms(3) by auto
  have M1: "memory_ok G cont ent K ok W E ts sh1"
    unfolding 1(2) by (rule memory_ok_map [OF M]) (simp_all add: same_tables_fields swap_shard_def shard_good_def)
  have C1: "controller_ok W E ts c1" using C by (auto simp: controller_ok_def controller_inv_def 1(1))
  have "length (shards sh1) = total_shards sh1" using memory_okD(2,10) [OF M1] by simp
  from this assms(4) show ?thesis
  proof (cases rule: volume_shards_cases)
    case none
    then show ?thesis using M1 C1 by simp
  next
    case (all f)
    have "memory_ok G cont ent K ok W E ts sh2"
      unfolding all(2) by (rule memory_ok_map [OF M1]) (simp_all add: same_tables_fields shard_good_def all(3))
    moreover have "controller_ok W E ts c2" using C1 all(1) by (auto simp: controller_ok_def controller_inv_def processingtime_finite)
    ultimately show ?thesis ..
  qed
qed

lemma relation_relates: "relation_ok W E tc m \<Longrightarrow> w < tc \<Longrightarrow> e < tc \<Longrightarrow> relates m tc w e \<Longrightarrow> e < E \<and> w < W"
  by (simp add: relation_ok_def)

lemma update_relationship_sound:
  assumes R: "ring_ok R cont cap" and "sound G cont ent K crc W E ts sh"
    and "relation_ok W E (W + E) (mat_O c)" and "relation_ok W E (W + E) (new_O c)" and "total_cores c = W + E"
    and u: "update_relationship R c sh = Inr (b, c', sh')"
  shows "sound G cont ent K crc W E ts sh' \<and> c' = c\<lparr>mat_O := new_O c\<rparr>"
proof (cases "new_O c = mat_O c")
  case True
  then show ?thesis using assms by (auto simp: update_relationship_def)
next
  case False
  have "\<exists>s'. outcome_fold (relationship_cell R c) (List.product [0..<total_cores c] [0..<total_cores c]) sh = Inr s'
    \<and> sound G cont ent K crc W E ts s'"
  proof (rule outcome_fold_keep [where P = "sound G cont ent K crc W E ts", OF assms(2)])
    fix x s assume x: "x \<in> set (List.product [0..<total_cores c] [0..<total_cores c])" and s: "sound G cont ent K crc W E ts s"
    have "x \<in> {0..<total_cores c} \<times> {0..<total_cores c}" using x by (simp only: set_product set_upt)
    then obtain w e where we: "x = (w, e)" "w < total_cores c" "e < total_cores c" by (cases x) simp
    have l: "length (queues s) = W" "length (toRemoveQueue s) = E" using memory_okD(1) [OF s] by (simp_all add: shared_ok_def)
    have e: "e < E \<and> w < W" if "relates (mat_O c) (total_cores c) w e \<or> relates (new_O c) (total_cores c) w e"
      using that relation_relates [OF assms(3), of w e] relation_relates [OF assms(4), of w e] we(2,3) unfolding assms(5) by blast
    have cell: "relationship_cell R c (w, e) s = Inr (
       if announced c s w e then announce_offloading w e s
       else if lost c w e then enqueue_at R (toRemoveQueue s ! e) (PRing (queues s ! w)) s else s)"
      using relationship_cell_ok [OF _ _ we(2,3) l] assms(3-5) memory_okD(1) [OF s] we(2) by (simp add: shared_ok_def)
    have "sound G cont ent K crc W E ts (announce_offloading w e s)" if "announced c s w e"
    proof -
      have "e < E" using e that by (simp add: announced_def gained_def)
      from memory_ok_flags(4) [OF memory_ok_new_offloading [OF s disjI1 [OF this], of w], of w 1] show ?thesis
        by (simp add: announce_offloading_def)
    qed
    moreover have "sound G cont ent K crc W E ts (enqueue_at R (toRemoveQueue s ! e) (PRing (queues s ! w)) s)" if "lost c w e"
      by (rule message_ok(1) [OF R s]) (use e that memory_okD(8) [OF s] in \<open>auto simp: lost_def\<close>)
    ultimately show "\<exists>s'. relationship_cell R c x s = Inr s' \<and> sound G cont ent K crc W E ts s'" unfolding we(1) cell using s by auto
  qed
  then show ?thesis using u False by (auto simp: update_relationship_def)
qed

lemma update_shards_sound:
  assumes M: "memory_ok G cont ent K ok W E ts sh" and "assign_ok W (total_cores c) ts (new_A c)" and "update_shards c sh = Inr (b, c', sh')"
  shows "memory_ok G cont ent K ok W E ts sh'"
proof -
  have step: "memory_ok G cont ent K ok W E ts (migrated_cells b c' s)"
    if "memory_ok G cont ent K ok W E ts s" "new_A c' = new_A c" "total_cores c' = total_cores c" for b c' s
    unfolding migrated_cells_def
  proof (intro fold_keep [where P = "memory_ok G cont ent K ok W E ts"])
    fix x y s' assume x: "x \<in> set [0..<total_shards s]" "y \<in> set [0..<total_cores c']" and s': "memory_ok G cont ent K ok W E ts s'"
    have xt: "x < ts" "y < total_cores c" using x memory_okD(2) [OF that(1)] that(3) by simp_all
    have "y < W" if "becomes c' x y"
    proof -
      have "new_A c ! (x * total_cores c + y) = 1" using that \<open>new_A c' = new_A c\<close> \<open>total_cores c' = total_cores c\<close> by (simp add: becomes_def)
      then have "y = assigned (new_A c) (total_cores c) x" using assms(2) xt by (auto simp: assign_ok_def one_hot_def split: if_splits)
      then show ?thesis using assign_ok_less [OF assms(2) xt(1)] by simp
    qed
    then show "memory_ok G cont ent K ok W E ts (if becomes c' x y then migrated_shard x y b s' else s')"
      using s' by (auto simp: migrated_shard_def shard_good_def intro!: memory_ok_shard memory_ok_flags(3))
  qed (rule that(1))
  note u = update_shards_pure [OF assms(3)]
  show ?thesis
  proof (cases "new_A c = mat_A c")
    case True
    then show ?thesis using assms(1) u True by (simp add: shards_updated_def)
  next
    case False
    have "memory_ok G cont ent K ok W E ts (migrated_cells True (reta_updated (total_shards sh) c) (migrated_cells False c sh))"
      by (intro step M) (simp_all add: frame_simps)
    then show ?thesis using u False by (auto simp: shards_updated_def Let_def)
  qed
qed

lemma signals_sound:
  assumes "memory_ok G cont ent K ok W E ts sh" and "signal_workers W sh = Inr sh'"
  shows "memory_ok G cont ent K ok W E ts sh'"
proof -
  have l: "W \<le> length (controller_signal sh)" using memory_okD(1) [OF assms(1)] by (simp add: shared_ok_def)
  from signal_workers_ok [OF l] assms(2) obtain cs where "sh' = sh\<lparr>controller_signal := cs\<rparr>" "length cs = length (controller_signal sh)"
    by auto
  then show ?thesis using memory_ok_arrays(2) [OF assms(1)] memory_okD(1) [OF assms(1)] by (simp add: shared_ok_def)
qed

lemma reta_updated_numbers [frame_simps]:
  "slo (reta_updated ts c) = slo c" "Tr (reta_updated ts c) = Tr c" "Tp (reta_updated ts c) = Tp c" "use_solver (reta_updated ts c) = use_solver c"
  by (simp_all add: reta_updated_def Let_def split: prod.split)

lemma apply_solution_steps:
  assumes "apply_solution R c sh = Inr (c', sh')"
  obtains b1 sh1 b2 c2 sh2 b3 c3 sh3 where "update_ratio sh = Inr (b1, sh1)" "update_relationship R c sh1 = Inr (b2, c2, sh2)"
    "update_shards c2 sh2 = Inr (b3, c3, sh3)" "c' = c3" "sh' = sh3 \<or> signal_workers (num_W c3) sh3 = Inr sh'"
  using assms unfolding apply_solution_def outcome_bind_Inr by (auto simp: outcome_bind_Inr split: if_splits)

lemma apply_solution_sound:
  assumes R: "ring_ok R cont cap" and "sound G cont ent K crc W E ts sh" and "controller_ok W E ts c0"
    and "c = c0\<lparr>new_A := A, new_O := O'\<rparr>" and "answer_ok W E ts (r, A, O')" and "\<forall>s<ts. \<bar>r_new (shards sh ! s)\<bar> \<le> 2"
    and a: "apply_solution R c sh = Inr (c', sh')"
  shows "sound G cont ent K crc W E ts sh' \<and> controller_ok W E ts c'"
proof -
  obtain b1 sh1 b2 c2 sh2 b3 c3 sh3 where 1: "update_ratio sh = Inr (b1, sh1)" and 2: "update_relationship R c sh1 = Inr (b2, c2, sh2)"
    and 3: "update_shards c2 sh2 = Inr (b3, c3, sh3)" and end': "c' = c3" "sh' = sh3 \<or> signal_workers (num_W c3) sh3 = Inr sh'"
    by (rule apply_solution_steps [OF a])
  have c: "relation_ok W E (W + E) (mat_O c)" "relation_ok W E (W + E) (new_O c)" "total_cores c = W + E" "new_A c = A" "new_O c = O'"
    using assms(3-5) by (simp_all add: controller_ok_def answer_ok_def)
  note s1 = update_ratio_sound [OF assms(2,6) 1]
  note s2 = update_relationship_sound [OF R s1 c(1-3) 2]
  have A: "assign_ok W (total_cores c2) ts (new_A c2)" using s2 c assms(5) by (simp add: answer_ok_def)
  have s3: "sound G cont ent K crc W E ts sh3" by (rule update_shards_sound [OF conjunct1 [OF s2] A 3])
  have inv: "controller_inv c2 ts" using s2 assms(3,4) by (auto simp: controller_ok_def controller_inv_def)
  have ts2: "total_shards sh2 = ts" using s2 memory_okD(2) by blast
  have W: "num_W c2 = W" using s2 assms(3,4) by (simp add: controller_ok_def)
  have i3: "controller_inv c3 ts" "mat_A c3 = new_A c2"
    using shards_updated_inv [OF _ _ update_shards_pure [OF 3, symmetric]] inv A ts2 W by (auto)
  have f3: "num_W c3 = W" "num_E c3 = E" "total_cores c3 = W + E" "mat_O c3 = O'" "new_A c3 = A" "new_O c3 = O'" "slo c3 = slo c0" "Tr c3 = Tr c0" "Tp c3 = Tp c0"
    using update_shards_pure [OF 3] s2 c assms(3,4) by (auto simp: shards_updated_def Let_def frame_simps controller_ok_def split: if_splits)
  have "length A = ts * (W + E)" "length O' = (W + E) * (W + E)" using assms(5) by (simp_all add: answer_ok_def assign_ok_def relation_ok_def)
  then have "controller_ok W E ts c3" using i3 f3 assms(3,5) by (simp add: controller_ok_def answer_ok_def)
  then show ?thesis using s3 signals_sound [OF s3] end' f3(1) by auto
qed

text \<open>An answer of the solver: ratios between 0 and 1, up to the tolerance.\<close>

definition answer_small :: "nat \<Rightarrow> double list \<times> nat list \<times> nat list \<Rightarrow> bool" where
  "answer_small ts = (\<lambda>(r, A, O'). length r = ts \<and> (\<forall>v\<in>set r. finite_double v \<and> \<bar>v\<bar> \<le> 2))"

lemma accept_answer_sound:
  assumes M: "memory_ok G cont ent K ok W E ts sh" and "answer_small ts (r, A, O')" and "accept_answer (r, A, O') c sh = (c', sh')"
  shows "memory_ok G cont ent K ok W E ts sh' \<and> c' = c\<lparr>new_A := A, new_O := O'\<rparr> \<and> (\<forall>s<ts. \<bar>r_new (shards sh' ! s)\<bar> \<le> 2)"
proof -
  note m = memory_okD [OF M]
  have e: "c' = c\<lparr>new_A := A, new_O := O'\<rparr>" "sh' = sh\<lparr>shards := map (\<lambda>s. (shards sh ! s)\<lparr>r_new := r ! s\<rparr>) [0..<ts]\<rparr>"
    using assms(2,3) accept_answer_eq [of sh r A O' c] m(2,10) by (auto simp: answer_small_def cong: map_cong)
  have r: "finite_double (r ! s)" "\<bar>r ! s\<bar> \<le> 2" if "s < ts" for s using assms(2) that by (auto simp: answer_small_def)
  have "memory_ok G cont ent K ok W E ts sh'" unfolding e(2)
    by (rule memory_ok_shards [OF M]) (use r in \<open>simp_all add: same_tables_fields shard_good_def ratio_ok_def order_trans [OF r(2)]\<close>)
  then show ?thesis using e r by simp
qed

lemma order_clear_sound:
  assumes "table_ok T K ent" and "sort_ok srt" and M: "memory_ok G cont ent K ok W E ts sh"
  shows "\<exists>n sh5 sh6. order_shards T srt c sh = Inr (c\<lparr>total_flows := n\<rparr>, sh5) \<and> clear_flows T sh5 = Inr sh6 \<and> memory_ok G cont ent K ok W E ts sh6"
proof -
  note m = memory_okD [OF M]
  have refs: "ref_count_1 i = 0 \<and> ref_count_2 i = 0" if "i \<in> set (shards sh)" for i
    using that m(9,10) by (auto simp: in_set_conv_nth shard_good_def)
  have "length (shards sh) = total_shards sh" "\<forall>i\<in>set (shards sh). ref_of (\<not> use_2 i) i = 0" using m(2,10) refs by (auto simp: ref_of_def)
  from order_shards_ok [OF assms(2,1) flows_ok_tables_ok [OF m(4) assms(1)] this, of c] obtain vs st where
    o: "order_shards T srt c sh = Inr (c\<lparr>total_flows := of_nat (\<Sum>s<ts. length (vs s))\<rparr>,
      sh\<lparr>shards := map (\<lambda>s. (shards sh ! s)\<lparr>ordered_flows := vs s\<rparr>) [0..<ts], state_at := st\<rparr>)"
    and so: "\<forall>s<ts. shard_ordered T sh s st (vs s)" and rest: "\<forall>a. (\<forall>s<ts. a \<notin> set (vs s)) \<longrightarrow> st a = state_at sh a"
    unfolding m(2) by blast
  let ?sh4 = "sh\<lparr>shards := map (\<lambda>s. (shards sh ! s)\<lparr>ordered_flows := vs s\<rparr>) [0..<ts]\<rparr>" and ?sh5 = "sh\<lparr>shards := map (\<lambda>s. (shards sh ! s)\<lparr>ordered_flows := vs s\<rparr>) [0..<ts], state_at := st\<rparr>"
  have "\<exists>p q. st a = (state_at sh a)\<lparr>prob2 := p, cdf := q\<rparr>" for a
  proof (cases "\<exists>s<ts. a \<in> set (vs s)")
    case True
    then obtain s j where s: "s < ts" "j < length (vs s)" "a = vs s ! j" by (auto simp: in_set_conv_nth)
    then have "st a = (state_at sh a)\<lparr>prob2 := share_of sh a, cdf := cum_share 0 (map (share_of sh) (vs s)) j\<rparr>"
      using so by (auto simp: shard_ordered_def)
    then show ?thesis by blast
  next
    case False
    then have "st a = (state_at sh a)\<lparr>prob2 := prob2 (state_at sh a), cdf := cdf (state_at sh a)\<rparr>" using rest by simp
    then show ?thesis by blast
  qed
  moreover have M4: "memory_ok G cont ent K ok W E ts ?sh4"
    by (rule memory_ok_shards [OF M]) (simp_all add: same_tables_fields shard_good_def)
  ultimately have M5: "memory_ok G cont ent K ok W E ts ?sh5" using memory_ok_states [OF M4, of st] by simp
  note m5 = memory_okD [OF M5]
  have "clear_flows T ?sh5 = Inr (?sh5\<lparr>shards := map (clear_idle T) (shards ?sh5)\<rparr>)"
  proof (rule clear_flows_eq)
    show "length (shards ?sh5) = total_shards ?sh5" using m5(2,10) by simp
    show "\<forall>i\<in>set (shards ?sh5). ref_of (\<not> use_2 i) i = 0" using m5(9,10) by (auto simp: shard_good_def ref_of_def)
  qed
  moreover have "memory_ok G cont ent K ok W E ts (?sh5\<lparr>shards := map (clear_idle T) (shards ?sh5)\<rparr>)"
    by (rule memory_ok_map [OF M5])
       (use assms(1) in \<open>auto simp: clear_idle_def same_tables_def shard_good_def table_ok_def\<close>)
  ultimately show ?thesis using o by blast
qed

text \<open>One round, with an answer of the solver or without.\<close>

lemma epoch_sound:
  assumes R: "ring_ok R cont cap" and T: "table_ok T K ent" and S: "sort_ok srt"
    and M: "sound G cont ent K crc W E ts sh" and C: "controller_ok W E ts c"
    and a: "\<forall>a. answer = Some a \<longrightarrow> answer_ok W E ts a \<and> answer_small ts a"
  shows "\<exists>c' sh'. update_short_epoch R T srt solver answer c sh = Inr (c', sh') \<and> sound G cont ent K crc W E ts sh' \<and> controller_ok W E ts c'"
proof -
  obtain c1 sh1 where 1: "swap_shards c sh = (c1, sh1)" by (cases "swap_shards c sh")
  obtain c2 sh2 where 2: "volume_shards c1 sh1 = (c2, sh2)" by (cases "volume_shards c1 sh1")
  note s2 = swap_volume_sound [OF M C 1 2]
  let ?inner = "case (if solver then answer else None) of None \<Rightarrow> Inr (c2, sh2)
         | Some a \<Rightarrow> let (c3, sh3) = accept_answer a c2 sh2 in apply_solution R c3 sh3"
  have "\<exists>c4 sh4. ?inner = Inr (c4, sh4) \<and> sound G cont ent K crc W E ts sh4 \<and> controller_ok W E ts c4"
  proof (cases "if solver then answer else None")
    case None
    then show ?thesis using s2 by simp
  next
    case (Some b)
    obtain r A O' where b: "b = (r, A, O')" by (cases b)
    have ok: "answer_ok W E ts (r, A, O')" "answer_small ts (r, A, O')" using a Some b by (auto split: if_splits)
    obtain c3 sh3 where 3: "accept_answer (r, A, O') c2 sh2 = (c3, sh3)" by (cases "accept_answer (r, A, O') c2 sh2")
    note s3 = accept_answer_sound [OF conjunct1 [OF s2] ok(2) 3]
    have ts: "total_shards sh3 = ts" using s3 memory_okD(2) by blast
    have inv: "epoch_inv W E c2 sh3" using s2 s3 sound_epoch_inv by blast
    from apply_solution_ok [OF inv _ ok(1) [folded ts], of c3 R] s3 obtain c4 sh4 where 4: "apply_solution R c3 sh3 = Inr (c4, sh4)" by auto
    from apply_solution_sound [OF R _ conjunct2 [OF s2] _ ok(1) _ 4] s3 have "sound G cont ent K crc W E ts sh4 \<and> controller_ok W E ts c4" by blast
    then show ?thesis using Some b 3 4 by simp
  qed
  then obtain c4 sh4 where 4: "?inner = Inr (c4, sh4)" "sound G cont ent K crc W E ts sh4" "controller_ok W E ts c4" by blast
  have "sound G cont ent K crc W E ts (sh4\<lparr>epoch := epoch sh4 + 1\<rparr>)"
    using 4(2) by (simp add: memory_ok_def shared_ok_def rings_typed_def flows_ok_epoch)
  from order_clear_sound [OF T S this, of c4] obtain n sh5 sh6 where
    "order_shards T srt c4 (sh4\<lparr>epoch := epoch sh4 + 1\<rparr>) = Inr (c4\<lparr>total_flows := n\<rparr>, sh5)" "clear_flows T sh5 = Inr sh6" "sound G cont ent K crc W E ts sh6"
    by blast
  moreover have "controller_ok W E ts (c4\<lparr>total_flows := n\<rparr>)" using 4(3) by (auto simp: controller_ok_def controller_inv_def)
  ultimately show ?thesis using 4(1) by (simp add: update_short_epoch_def 1 2)
qed

end
