(* ===== verification/Whole_System.thy ===== *)
theory Whole_System
  imports Round_Safety
begin

text \<open>
  The whole system: the controller with the solver, the working cores with their network functions and
  the offloading cores, on the memory they share. Each task that ends is one step, in any order and any
  number of times; packets arrive at any time, also during a task. (\<open>Recording\<close> looks inside the steps;
  what a task that never ends leaves behind is not a state of the system.)
\<close>

subsection \<open>The contract of a task\<close>

text \<open>
  A task of an element with its own state \<open>a\<close>, run on the shared memory \<open>s\<close>, does not fault: it ends and
  keeps both in order, or it waits for ever, which it does only if \<open>waits a s\<close>.
\<close>

locale task =
  fixes run :: "'a \<times> 's \<Rightarrow> ('x \<times> 'a \<times> 's) outcome" and mine :: "'a \<Rightarrow> bool" and ours :: "'s \<Rightarrow> bool" and waits :: "'a \<Rightarrow> 's \<Rightarrow> bool"
  assumes run_ok: "mine a \<Longrightarrow> ours s \<Longrightarrow>
    (case run (a, s) of Inl e \<Rightarrow> e = Spinning \<and> waits a s | Inr (x, a', s') \<Rightarrow> mine a' \<and> ours s')"
begin

lemma keeps: "mine a \<Longrightarrow> ours s \<Longrightarrow> run (a, s) = Inr (x, a', s') \<Longrightarrow> mine a' \<and> ours s'"
  using run_ok [of a s] by simp

lemma ends: "mine a \<Longrightarrow> ours s \<Longrightarrow> \<not> waits a s \<Longrightarrow> \<exists>x a' s'. run (a, s) = Inr (x, a', s')"
  using run_ok [of a s] by (cases "run (a, s)") auto

lemma only_waits: "mine a \<Longrightarrow> ours s \<Longrightarrow> run (a, s) = Inl e \<Longrightarrow> e = Spinning \<and> waits a s"
  using run_ok [of a s] by simp

end

text \<open>The libraries with their documented behaviour, and the shared memory.\<close>

definition libraries :: "'r ring_ops \<Rightarrow> ('r \<Rightarrow> void_ptr list) \<Rightarrow> ('r \<Rightarrow> nat) \<Rightarrow> 't table_ops \<Rightarrow> DyssectFlow set
    \<Rightarrow> ('t \<Rightarrow> (DyssectFlow \<times> addr) set) \<Rightarrow> ((addr \<Rightarrow> double) \<Rightarrow> addr list \<Rightarrow> addr list) \<Rightarrow> bool" where
  "libraries R cont cap T K ent srt \<longleftrightarrow> ring_ok R cont cap \<and> table_ok T K ent \<and> sort_ok srt"

definition shared_memory where
  "shared_memory G R cont cap T K ent srt crc W E ts sh \<longleftrightarrow> libraries R cont cap T K ent srt \<and> 0 < ts \<and> sound G cont ent K crc W E ts sh"

subsection \<open>Working cores\<close>

definition core_task :: "'n nic_ops \<Rightarrow> (DyssectFlow \<Rightarrow> u32) \<Rightarrow> 't table_ops \<Rightarrow> 'r ring_ops \<Rightarrow> nat
    \<Rightarrow> (worker \<times> 'n) \<times> ('t, 'r) shared \<Rightarrow> (packet list \<times> (worker \<times> 'n) \<times> ('t, 'r) shared) outcome" where
  "core_task N crc T R fuel = (\<lambda>((w, nic), sh). outcome_bind (worker_run_task N crc T R fuel (w, nic, sh))
     (\<lambda>(b, outs, w', nic', sh'). Inr (outs, (w', nic'), sh')))"

definition core_ok :: "'n nic_ops \<Rightarrow> 'n set \<Rightarrow> (DyssectFlow \<Rightarrow> u32) \<Rightarrow> DyssectFlow set \<Rightarrow> nat \<Rightarrow> nat \<Rightarrow> nat \<Rightarrow> worker \<times> 'n \<Rightarrow> bool" where
  "core_ok N X crc K W E i = (\<lambda>(w, nic). nic_delivers N (packet_ok crc K W) X \<and> worker_ok W E i w \<and> nic \<in> X)"

text \<open>
  When core \<open>i\<close> may wait for ever: it has been told to take part in a change, and its hardware queue
  delivers packets in every one of the bursts there is fuel for.
\<close>

definition core_waits :: "'n nic_ops \<Rightarrow> nat \<Rightarrow> nat \<Rightarrow> worker \<times> 'n \<Rightarrow> ('t, 'r) shared \<Rightarrow> bool" where
  "core_waits N fuel i = (\<lambda>(w, nic) sh. \<not> myown w \<and> controller_signal sh ! i = 1 \<and> busy N (burst w) fuel nic)"

interpretation core: task "core_task N crc T R fuel" "core_ok N X crc K W E i"
  "shared_memory G R cont cap T K ent srt crc W E ts" "core_waits N fuel i"
  for N crc T G R X K W E i cont cap ent srt ts fuel
proof
  fix a s
  assume a: "core_ok N X crc K W E i a" and s: "shared_memory G R cont cap T K ent srt crc W E ts s"
  obtain w nic where [simp]: "a = (w, nic)" by (cases a)
  from worker_task_sound [where R = R and cont = cont and cap = cap and T = T and K = K and ent = ent and ts = ts and N = N and X = X and W = W
      and E = E and i = i and w = w and G = G and crc = crc and sh = s and nic = nic and fuel = fuel] a s have
    "case worker_run_task N crc T R fuel (w, nic, s) of
      Inl e \<Rightarrow> e = Spinning \<and> \<not> myown w \<and> controller_signal s ! i = 1 \<and> busy N (burst w) fuel nic
    | Inr (b, outs, w', nic', sh') \<Rightarrow> worker_ok W E i w' \<and> sound G cont ent K crc W E ts sh' \<and> nic' \<in> X"
    by (simp add: core_ok_def shared_memory_def libraries_def)
  then show "case core_task N crc T R fuel (a, s) of Inl e \<Rightarrow> e = Spinning \<and> core_waits N fuel i a s
      | Inr (x, a', s') \<Rightarrow> core_ok N X crc K W E i a' \<and> shared_memory G R cont cap T K ent srt crc W E ts s'"
    using a s by (cases "worker_run_task N crc T R fuel (w, nic, s)") (auto simp: core_task_def core_ok_def shared_memory_def core_waits_def)
qed

subsection \<open>Offloading cores\<close>

definition offload_task :: "'r ring_ops \<Rightarrow> offloader \<times> ('t, 'r) shared \<Rightarrow> (mbuf list \<times> offloader \<times> ('t, 'r) shared) outcome" where
  "offload_task R x = outcome_bind (offloader_run_task R x) (\<lambda>(b, ms, c', sh'). Inr (ms, c', sh'))"

interpretation offload: task "offload_task R" "offloader_ok W E j" "shared_memory G R cont cap T K ent srt crc W E ts" "\<lambda>_ _. False"
  for G R W E j cont cap T K ent srt crc ts
proof
  fix a s
  assume a: "offloader_ok W E j a" and s: "shared_memory G R cont cap T K ent srt crc W E ts s"
  then have "ring_ok R cont cap" "sound G cont ent K crc W E ts s" by (simp_all add: shared_memory_def libraries_def)
  from offloader_task_sound [OF this(1) a this(2)] obtain b ms c' s' where
    "offloader_run_task R (a, s) = Inr (b, ms, c', s')" "offloader_ok W E j c'" "sound G cont ent K crc W E ts s'" by blast
  then show "case offload_task R (a, s) of Inl e \<Rightarrow> e = Spinning \<and> False
      | Inr (x, a', s') \<Rightarrow> offloader_ok W E j a' \<and> shared_memory G R cont cap T K ent srt crc W E ts s'"
    using s by (simp add: offload_task_def shared_memory_def)
qed

subsection \<open>The controller with the solver\<close>

text \<open>How the pipes and the solver behave during one round: any schedules, any contents of local variables.\<close>

record exchange =
  ex_fresh :: "nat \<Rightarrow> u8 list"
  ex_request_pipe :: fifo
  ex_answer_pipe :: fifo
  ex_scale :: u32

definition exchange_ok :: "exchange \<Rightarrow> bool" where
  "exchange_ok x \<longleftrightarrow> any_bytes (ex_fresh x) \<and> chunks (ex_request_pipe x) = [] \<and> chunks (ex_answer_pipe x) = []"

text \<open>\<open>run_task\<close>, where \<open>update_short_epoch\<close> asks the solver after it has taken the volumes of the shards.\<close>

definition controller_task :: "'r ring_ops \<Rightarrow> 't table_ops \<Rightarrow> ((addr \<Rightarrow> double) \<Rightarrow> addr list \<Rightarrow> addr list)
    \<Rightarrow> (u32 \<Rightarrow> long_request \<Rightarrow> long_vars grb) \<Rightarrow> (u32 \<Rightarrow> short_request \<Rightarrow> short_vars grb) \<Rightarrow> exchange \<Rightarrow> nat \<Rightarrow> u64
    \<Rightarrow> controller \<times> ('t, 'r) shared \<Rightarrow> (bool \<times> controller \<times> ('t, 'r) shared) outcome" where
  "controller_task R T srt long short x hz rdtsc = (\<lambda>(c, sh).
     outcome_bind (if due (tsc_to_us hz rdtsc) c \<and> use_solver c
        then let (c1, sh1) = swap_shards c sh; (c2, sh2) = volume_shards c1 sh1
             in ask_solver (ex_fresh x) long short (ex_scale x) (ex_request_pipe x) (ex_answer_pipe x) c2 sh2
        else Inr None)
       (\<lambda>answer. controller_run_task R T srt hz rdtsc answer c sh))"

definition controller_mine :: "(u32 \<Rightarrow> short_request \<Rightarrow> short_vars grb) \<Rightarrow> exchange \<Rightarrow> nat \<Rightarrow> nat \<Rightarrow> nat \<Rightarrow> controller \<Rightarrow> bool" where
  "controller_mine short x W E ts c \<longleftrightarrow> solves_short short \<and> exchange_ok x \<and> 8 * ts \<le> PIPE_BUF \<and> W + E \<le> MAX_TERMS \<and> controller_ok W E ts c"

lemma optimal_small:
  assumes "optimal scale rq x"
  shows "answer_small (SHARDS rq) (short_answer rq x)"
proof -
  have "bounded gurobi_tol 0 1 (x_r x s)" if "s < SHARDS rq" for s
    using assms that by (simp add: optimal_def short_feasible_def short_bounds_def core_bounds_def)
  then have "\<bar>x_r x s\<bar> \<le> 2" if "s < SHARDS rq" for s
    using that by (fastforce simp: bounded_def le_within_def gurobi_tol_def FEAS_TOL_def abs_le_iff)
  then show ?thesis using assms by (auto simp: answer_small_def short_answer_def optimal_def)
qed

lemma solver_answers_ok:
  assumes "askable W E c sh" and "solves_short short" and "short scale (request_of c sh) = Optimal x"
  shows "answer_ok W E (total_shards sh) (short_answer (request_of c sh) x)"
proof -
  let ?q = "request_of c sh"
  obtain r A O' where a: "short_answer ?q x = (r, A, O')" by (cases "short_answer ?q x")
  have x: "short_feasible gurobi_tol scale ?q x" using assms(2,3) by (simp add: solves_short_def optimal_def)
  have "W + E \<le> MAX_TERMS" using assms(1) by (simp add: askable_def)
  then show ?thesis
    using short_answer_assignment [OF x] short_answer_relation [OF x] request_sizes [OF assms(1)] by (simp add: a answer_ok_def)
qed

lemma solver_asked:
  assumes "controller_mine short x W E ts c" and "memory_ok G cont ent K ok W E ts sh"
  shows "case ask_solver (ex_fresh x) long short scale (ex_request_pipe x) (ex_answer_pipe x) c sh of
      Inl e \<Rightarrow> e = Spinning \<and> (\<exists>q. short scale q = Throws)
    | Inr answer \<Rightarrow> \<forall>a. answer = Some a \<longrightarrow> answer_ok W E ts a \<and> answer_small ts a"
proof -
  have c: "controller_ok W E ts c" "8 * ts \<le> PIPE_BUF" "W + E \<le> MAX_TERMS" "solves_short short" "any_bytes (ex_fresh x)"
    "chunks (ex_request_pipe x) = []" "chunks (ex_answer_pipe x) = []"
    using assms(1) by (simp_all add: controller_mine_def exchange_ok_def)
  have k: "askable W E c sh" by (rule sound_askable [OF assms(2) c(1-3)])
  have ts: "total_shards sh = ts" "SHARDS (request_of c sh) = ts" using memory_okD(2) [OF assms(2)] by (simp_all add: request_of_def)
  note r = asked [OF k c(5-7,4), where long = long and scale = scale]
  show ?thesis
  proof (cases "short scale (request_of c sh)")
    case (Optimal v)
    then have "optimal scale (request_of c sh) v" using c(4) by (simp add: solves_short_def)
    then show ?thesis
      using solver_answers_ok [OF k c(4) Optimal] optimal_small [of scale "request_of c sh" v] ts unfolding r Optimal by simp
  qed (use r in auto)
qed

interpretation controller: task "controller_task R T srt long short x hz rdtsc" "controller_mine short x W E ts"
  "shared_memory G R cont cap T K ent srt crc W E ts" "\<lambda>_ _. \<exists>q. short (ex_scale x) q = Throws"
  for G R T srt long short x hz rdtsc W E ts cont cap K ent crc
proof
  fix c s
  assume c: "controller_mine short x W E ts c" and s: "shared_memory G R cont cap T K ent srt crc W E ts s"
  have l: "ring_ok R cont cap" "table_ok T K ent" "sort_ok srt" "sound G cont ent K crc W E ts s" "controller_ok W E ts c"
    using c s by (simp_all add: shared_memory_def libraries_def controller_mine_def)
  let ?answer = "if due (tsc_to_us hz rdtsc) c \<and> use_solver c
        then let (c1, sh1) = swap_shards c s; (c2, sh2) = volume_shards c1 sh1
             in ask_solver (ex_fresh x) long short (ex_scale x) (ex_request_pipe x) (ex_answer_pipe x) c2 sh2
        else Inr None"
  obtain c1 sh1 where 1: "swap_shards c s = (c1, sh1)" by (cases "swap_shards c s")
  obtain c2 sh2 where 2: "volume_shards c1 sh1 = (c2, sh2)" by (cases "volume_shards c1 sh1")
  note s2 = swap_volume_sound [OF l(4,5) 1 2]
  have "controller_mine short x W E ts c2" using c s2 by (simp add: controller_mine_def)
  from solver_asked [OF this conjunct1 [OF s2], where long = long and scale = "ex_scale x"]
  have a: "case ?answer of Inl e \<Rightarrow> e = Spinning \<and> (\<exists>q. short (ex_scale x) q = Throws)
    | Inr answer \<Rightarrow> \<forall>a. answer = Some a \<longrightarrow> answer_ok W E ts a \<and> answer_small ts a" by (simp add: 1 2)
  show "case controller_task R T srt long short x hz rdtsc (c, s) of Inl e \<Rightarrow> e = Spinning \<and> (\<exists>q. short (ex_scale x) q = Throws)
      | Inr (b, c', s') \<Rightarrow> controller_mine short x W E ts c' \<and> shared_memory G R cont cap T K ent srt crc W E ts s'"
  proof (cases ?answer)
    case (Inl e)
    then show ?thesis using a by (simp add: controller_task_def)
  next
    case (Inr answer)
    have ans: "\<forall>a. answer = Some a \<longrightarrow> answer_ok W E ts a \<and> answer_small ts a" using a unfolding Inr by simp
    from epoch_sound [OF l ans, of "use_solver c"] obtain c' s' where e: "update_short_epoch R T srt (use_solver c) answer c s = Inr (c', s')"
      "sound G cont ent K crc W E ts s'" "controller_ok W E ts c'" by blast
    have r: "controller_task R T srt long short x hz rdtsc (c, s) = controller_run_task R T srt hz rdtsc answer c s"
      unfolding controller_task_def prod.case Inr by simp
    have "controller_ok W E ts (c'\<lparr>next_short := n\<rparr>)" for n using e(3) by (auto simp: controller_ok_def controller_inv_def)
    then have "controller_mine short x W E ts (c'\<lparr>next_short := n\<rparr>)" for n using c by (simp add: controller_mine_def)
    moreover have "shared_memory G R cont cap T K ent srt crc W E ts s'" using e(2) s by (simp add: shared_memory_def)
    ultimately show ?thesis using c s unfolding r by (simp add: controller_run_task_def Let_def e(1))
  qed
qed

subsection \<open>The steps of the system\<close>

record ('t, 'r, 'n) system =
  ctl :: controller
  memory :: "('t, 'r) shared"
  cores :: "(worker \<times> 'n) list"
  offloaders :: "offloader list"

text \<open>
  The network functions may get any packets, of which they process a batch or fault; a hardware queue may at any time go to any of its states \<open>X\<close>.
\<close>

inductive step :: "'r ring_ops \<Rightarrow> 't table_ops \<Rightarrow> 'n set \<Rightarrow> ((addr \<Rightarrow> double) \<Rightarrow> addr list \<Rightarrow> addr list) \<Rightarrow> (DyssectFlow \<Rightarrow> u32)
    \<Rightarrow> 'n nic_ops \<Rightarrow> (u32 \<Rightarrow> long_request \<Rightarrow> long_vars grb) \<Rightarrow> (u32 \<Rightarrow> short_request \<Rightarrow> short_vars grb)
    \<Rightarrow> ('t, 'r, 'n) system \<Rightarrow> ('t, 'r, 'n) system \<Rightarrow> bool"
  for R T X srt crc N long short where
  round: "exchange_ok x \<Longrightarrow> controller_task R T srt long short x hz rdtsc (ctl s, memory s) = Inr (b, c', sh') \<Longrightarrow>
    step R T X srt crc N long short s (s\<lparr>ctl := c', memory := sh'\<rparr>)"
| work: "i < length (cores s) \<Longrightarrow> core_task N crc T R fuel (cores s ! i, memory s) = Inr (outs, w', sh') \<Longrightarrow>
    step R T X srt crc N long short s (s\<lparr>cores := (cores s)[i := w'], memory := sh'\<rparr>)"
| offload: "j < length (offloaders s) \<Longrightarrow> offload_task R (offloaders s ! j, memory s) = Inr (ms, c', sh') \<Longrightarrow>
    step R T X srt crc N long short s (s\<lparr>offloaders := (offloaders s)[j := c'], memory := sh'\<rparr>)"
| chain: "chain_push_batch ids napt ps (slots_at (memory s)) = Inr (out, g) \<Longrightarrow>
    step R T X srt crc N long short s (s\<lparr>memory := (memory s)\<lparr>slots_at := g\<rparr>\<rparr>)"
| arrive: "i < length (cores s) \<Longrightarrow> nic' \<in> X \<Longrightarrow>
    step R T X srt crc N long short s (s\<lparr>cores := (cores s)[i := (fst (cores s ! i), nic')]\<rparr>)"

text \<open>
  The system after \<open>configure\<close> of all elements, with bursts of at most 128 packets and at most 512 shards.
\<close>

definition worker_started :: "'n set \<Rightarrow> ('t, 'r) shared \<Rightarrow> nat \<Rightarrow> worker \<times> 'n \<Rightarrow> bool" where
  "worker_started X sh i = (\<lambda>(w, nic). (\<exists>port solver. worker_configure 0 port i (burst w) solver sh = Inr w) \<and> 0 < burst w \<and> burst w \<le> OFF_PKTS
     \<and> nic \<in> X)"

definition started :: "'r ring_ops \<Rightarrow> 't table_ops \<Rightarrow> 'n set \<Rightarrow> config \<Rightarrow> ('t, 'r, 'n) system \<Rightarrow> bool" where
  "started R T X cfg s \<longleftrightarrow> (\<exists>env mem st. configure T R env cfg mem st = Inr (ctl s, memory s))
     \<and> 0 < arg_SHARDS cfg \<and> 8 * arg_SHARDS cfg \<le> PIPE_BUF \<and> 0 < arg_E cfg \<and> arg_W cfg \<le> 4095 \<and> arg_W cfg + arg_E cfg \<le> MAX_TERMS
     \<and> (\<forall>v\<in>{Cap (slo (ctl s)), Csp (slo (ctl s)), SLOp (slo (ctl s)), Car (slo (ctl s)), Csr (slo (ctl s)), SLOr (slo (ctl s))}. finite_double v)
     \<and> length (cores s) = arg_W cfg \<and> (\<forall>i<arg_W cfg. worker_started X (memory s) i (cores s ! i))
     \<and> length (offloaders s) = arg_E cfg \<and> (\<forall>j<arg_E cfg. \<exists>port b. offloader_configure 0 j port b = Inr (offloaders s ! j))"

inductive reached for R T X srt crc N long short cfg where
  start: "started R T X cfg s \<Longrightarrow> reached R T X srt crc N long short cfg s"
| more: "reached R T X srt crc N long short cfg s \<Longrightarrow> step R T X srt crc N long short s s' \<Longrightarrow> reached R T X srt crc N long short cfg s'"

subsection \<open>The invariant of the system\<close>

definition system_ok where
  "system_ok G R cont cap T K ent srt crc N X short W E ts s \<longleftrightarrow> shared_memory G R cont cap T K ent srt crc W E ts (memory s)
     \<and> (\<forall>x. exchange_ok x \<longrightarrow> controller_mine short x W E ts (ctl s))
     \<and> length (cores s) = W \<and> (\<forall>i<W. core_ok N X crc K W E i (cores s ! i))
     \<and> length (offloaders s) = E \<and> (\<forall>j<E. offloader_ok W E j (offloaders s ! j))"

lemma functions_ok:
  assumes "memory_ok G cont ent K ok W E ts sh" and "chain_push_batch ids napt ps (slots_at sh) = Inr (out, g)"
  shows "memory_ok G cont ent K ok W E ts (sh\<lparr>slots_at := g\<rparr>)"
proof -
  have "length (g a) = length (slots_at sh a)" for a
    using assms(2) ids.batch_frame napt.batch_frame unfolding chain_Inr by metis
  then have "flows_ok ent K (sh\<lparr>slots_at := g\<rparr>) = flows_ok ent K sh" by (simp add: flows_ok_def state_ok_def)
  then show ?thesis using assms(1) by (simp add: memory_ok_def shared_ok_def rings_typed_def)
qed

lemma system_ok_step:
  assumes "system_ok G R cont cap T K ent srt crc N X short W E ts s" and "step R T X srt crc N long short s s'"
  shows "system_ok G R cont cap T K ent srt crc N X short W E ts s'"
proof -
  have m: "shared_memory G R cont cap T K ent srt crc W E ts (memory s)" and c: "exchange_ok x \<Longrightarrow> controller_mine short x W E ts (ctl s)"
    and w: "length (cores s) = W" "i < W \<Longrightarrow> core_ok N X crc K W E i (cores s ! i)"
    and o: "length (offloaders s) = E" "j < E \<Longrightarrow> offloader_ok W E j (offloaders s ! j)" for x i j
    using assms(1) by (simp_all add: system_ok_def)
  from assms(2) show ?thesis
  proof cases
    case (round x hz rdtsc b c' sh')
    from controller.keeps [OF c [OF round(2)] m round(3)] have k: "controller_mine short x W E ts c'" "shared_memory G R cont cap T K ent srt crc W E ts sh'" by blast+
    have "controller_mine short y W E ts c'" if "exchange_ok y" for y using k(1) that by (simp add: controller_mine_def)
    then show ?thesis using k(2) w o by (simp add: round(1) system_ok_def)
  next
    case (work i fuel outs w' sh')
    have i: "i < W" using work(2) w(1) by simp
    from core.keeps [OF w(2) [OF i] m work(3)] have "core_ok N X crc K W E i w'" "shared_memory G R cont cap T K ent srt crc W E ts sh'" by blast+
    then show ?thesis using c w o by (simp add: work(1) system_ok_def nth_update)
  next
    case (offload j ms c' sh')
    have j: "j < E" using offload(2) o(1) by simp
    from offload.keeps [OF o(2) [OF j] m offload(3)] have "offloader_ok W E j c'" "shared_memory G R cont cap T K ent srt crc W E ts sh'" by blast+
    then show ?thesis using c w o by (simp add: offload(1) system_ok_def nth_update)
  next
    case (chain ids napt ps out g)
    have "shared_memory G R cont cap T K ent srt crc W E ts ((memory s)\<lparr>slots_at := g\<rparr>)"
      using m functions_ok [OF _ chain(2)] by (simp add: shared_memory_def)
    then show ?thesis using c w o by (simp add: chain(1) system_ok_def)
  next
    case (arrive i nic')
    have i: "i < W" using arrive(2) w(1) by simp
    have "core_ok N X crc K W E i (fst (cores s ! i), nic')"
      using w(2) [OF i] arrive(3) by (simp add: core_ok_def case_prod_beta)
    then show ?thesis using c m w o by (simp add: arrive(1) system_ok_def nth_update)
  qed
qed

subsection \<open>The start\<close>

lemma start_offloading:
  assumes "first_relationship W E tc (m0, off0, new0) = (m, off, new)" and "\<forall>e\<in>set new0. e < E \<or> e = UINT32_MAX"
  shows "\<forall>e\<in>set new. e < E \<or> e = UINT32_MAX"
proof -
  let ?P = "\<lambda>(m, off, new). \<forall>e\<in>set new. e < E \<or> e = UINT32_MAX"
  have "?P (first_relationship W E tc (m0, off0, new0))" unfolding first_relationship_def
    by (rule fold_keep [where P = ?P]) (use assms(2) in \<open>auto split: if_splits dest!: set_update_subset_insert [THEN subsetD]\<close>)
  then show ?thesis by (simp add: assms(1))
qed

lemma start_memory_ok:
  assumes conf: "configure T R env cfg mem st = Inr (c, sh)" and "0 < arg_SHARDS cfg" and E: "0 < arg_E cfg" and W: "arg_W cfg \<le> 4095"
    and R: "ring_ok R cont cap" and T: "table_ok T K ent"
  shows "memory_ok {} cont ent K ok (arg_W cfg) (arg_E cfg) (arg_SHARDS cfg) sh"
proof -
  from conf obtain off new O' where rel: "first_relationship (arg_W cfg) (arg_E cfg) (arg_W cfg + arg_E cfg)
       (replicate ((arg_W cfg + arg_E cfg) * (arg_W cfg + arg_E cfg)) 0,
        replicate (arg_W cfg + arg_E cfg) 0, replicate (arg_W cfg + arg_E cfg) 0) = (O', off, new)"
    and sh: "sh = init_queues R (arg_W cfg) (arg_E cfg) (init_shards T R (arg_W cfg)
       ((configured_shared cfg mem st)\<lparr>offloading_from_working := off, new_offloading_from_working := new\<rparr>))"
    by (rule configure_success)
  have "new_offloading_from_working sh = new"
    using init_queues_frame [where E = "arg_E cfg" and W = "arg_W cfg" and R = R and sh = "init_shards T R (arg_W cfg)
       ((configured_shared cfg mem st)\<lparr>offloading_from_working := off, new_offloading_from_working := new\<rparr>)"]
    by (auto simp: sh init_shards_def elim!: same_but_ringsE)
  then have new: "\<forall>e\<in>set (new_offloading_from_working sh). e < arg_E cfg \<or> e = UINT32_MAX"
    using start_offloading [OF rel] E by simp
  note so = configure_shared_ok [OF conf] and rl = configure_relationship [OF conf E] and rg = configure_rings [OF conf R E W]
  have d: "cont (ring_at sh p) = []" if "data_ring (arg_W cfg) p" for p using that rg by (cases p) auto
  have ct: "list_all (is_queue (arg_W cfg)) (cont (ring_at sh p))" if "control_ring (arg_E cfg) p" for p
    using that rg by (cases p) (auto simp: list_all_iff)
  have "rings_typed cont ok (arg_W cfg) (arg_E cfg) sh" using d ct by (simp add: rings_typed_def)
  moreover have "ratio_ok 0" "finite_double 0" using finite_double_small [of 0] by (simp_all add: ratio_ok_def)
  moreover have "cont (ring_create R 2048) = []" using R by (simp add: ring_ok_def)
  moreover have "owner (shards sh ! s) < arg_W cfg" "0 < arg_W cfg" if "s < arg_SHARDS cfg" for s
    using so that by (auto simp: shared_ok_def)
  ultimately show ?thesis
    using so rl new configure_iqueues [OF conf] configure_flows_ok [OF conf T] configure_shards [OF conf] assms(2)
    by (simp add: memory_ok_def shard_good_def init_shard_def remembers_def)
qed

lemma start_system_ok:
  assumes lib: "libraries R cont cap T K ent srt" and "nic_delivers N (packet_ok crc K (arg_W cfg)) X" and "solves_short short" and st: "started R T X cfg s"
  shows "system_ok {} R cont cap T K ent srt crc N X short (arg_W cfg) (arg_E cfg) (arg_SHARDS cfg) s"
proof -
  from st obtain env mem t where conf: "configure T R env cfg mem t = Inr (ctl s, memory s)" by (auto simp: started_def)
  have b: "0 < arg_SHARDS cfg" "8 * arg_SHARDS cfg \<le> PIPE_BUF" "0 < arg_E cfg" "arg_W cfg \<le> 4095" "arg_W cfg + arg_E cfg \<le> MAX_TERMS"
    using st by (simp_all add: started_def)
  have l: "ring_ok R cont cap" "table_ok T K ent" using lib by (simp_all add: libraries_def)
  have m: "memory_ok {} cont ent K (packet_ok crc K (arg_W cfg)) (arg_W cfg) (arg_E cfg) (arg_SHARDS cfg) (memory s)"
    by (rule start_memory_ok [OF conf b(1,3,4) l])
  note rl = configure_relationship [OF conf b(3)] and ci = configure_controller_inv [OF conf b(1)]
  have "Tr (ctl s) = processingtime_r 0 0" "Tp (ctl s) = processingtime_p 0 0" "new_O (ctl s) = mat_O (ctl s)"
    by (rule configure_success [OF conf], simp add: configured_controller_def processingtime_r_def processingtime_p_def dmul_def)+
  moreover have "length (mat_A (ctl s)) = arg_SHARDS cfg * total_cores (ctl s)" using ci by (simp add: controller_inv_def assign_ok_def)
  moreover have "length (mat_O (ctl s)) = total_cores (ctl s) * total_cores (ctl s)" using rl by (simp add: relation_ok_def)
  moreover have "\<forall>v\<in>{Cap (slo (ctl s)), Csp (slo (ctl s)), SLOp (slo (ctl s)), Car (slo (ctl s)), Csr (slo (ctl s)), SLOr (slo (ctl s))}. finite_double v"
    using st by (simp add: started_def)
  ultimately have "controller_ok (arg_W cfg) (arg_E cfg) (arg_SHARDS cfg) (ctl s)"
    using rl ci by (simp add: controller_ok_def processingtime_finite)
  then have c: "controller_mine short x (arg_W cfg) (arg_E cfg) (arg_SHARDS cfg) (ctl s)" if "exchange_ok x" for x
    using that b assms(3) by (simp add: controller_mine_def)
  have w: "core_ok N X crc K (arg_W cfg) (arg_E cfg) i (cores s ! i)" if i: "i < arg_W cfg" for i
  proof -
    obtain w nic where wn: "cores s ! i = (w, nic)" by (cases "cores s ! i")
    then obtain port solver where "worker_configure 0 port i (burst w) solver (memory s) = Inr w" and w: "0 < burst w" "burst w \<le> OFF_PKTS"
      "nic \<in> X" using st i by (auto simp: started_def worker_started_def)
    then have "w = \<lparr>portid = port, queueid = i, burst = burst w, worker_solver = solver, off_pkts = [], qsize = 256, myown = False,
          q = QueueOf i, myring = RingOf i, offloading_idx = i mod arg_E cfg\<rparr>"
      using i rl by (simp add: worker_configure_def check_index_def split: if_splits)
    then have "queueid w = i" "off_pkts w = []" "q w = QueueOf i" "myring w = RingOf i" "offloading_idx w = i mod arg_E cfg"
      by (metis worker.simps)+
    then show ?thesis using i b(3) w assms(2) wn by (simp add: core_ok_def worker_ok_def)
  qed
  have "offloader_ok (arg_W cfg) (arg_E cfg) j (offloaders s ! j)" if j: "j < arg_E cfg" for j
  proof -
    obtain port n where "offloader_configure 0 j port n = Inr (offloaders s ! j)" using st j by (auto simp: started_def)
    then have o: "offloaders s ! j = \<lparr>off_idx = j, off_count = 0, off_burst = n, off_queueid = port, serving = []\<rparr>"
      by (simp add: offloader_configure_def)
    show ?thesis unfolding o using j by (simp add: offloader_ok_def)
  qed
  then show ?thesis using m c w b(1) lib st by (simp add: system_ok_def shared_memory_def started_def)
qed

lemma reached_ok:
  assumes "libraries R cont cap T K ent srt" and "nic_delivers N (packet_ok crc K (arg_W cfg)) X" and "solves_short short" and "reached R T X srt crc N long short cfg s"
  shows "system_ok {} R cont cap T K ent srt crc N X short (arg_W cfg) (arg_E cfg) (arg_SHARDS cfg) s"
  using assms(4)
proof (induction rule: reached.induct)
  case (start s)
  then show ?case by (rule start_system_ok [OF assms(1-3)])
next
  case (more s s')
  then show ?case using system_ok_step by blast
qed

text \<open>
  From a reached state on, whatever happens next keeps every flow's state.
\<close>

lemma later_ok:
  assumes "system_ok G R cont cap T K ent srt crc N X short W E ts s" and "(step R T X srt crc N long short)\<^sup>*\<^sup>* s s'"
  shows "system_ok G R cont cap T K ent srt crc N X short W E ts s'"
  using assms(2,1) by (induction rule: rtranclp_induct) (auto intro: system_ok_step)

lemma system_ok_remembers:
  assumes "system_ok {} R cont cap T K ent srt crc N X short W E ts s" and "remembers G ent (memory s)"
  shows "system_ok G R cont cap T K ent srt crc N X short W E ts s"
  using assms by (simp add: system_ok_def shared_memory_def memory_ok_def)


text \<open>
  C1: from the configuration of the elements on, in whatever order the tasks of the controller, the
  working cores and the offloading cores and the batches of the network functions run and whatever arrives,
  before or during a task, no task of the controller, a working core or an offloading core faults: no index is
  out of range, no pointer is null or taken for something else, \<open>off_pkts\<close> is not overrun, nothing is divided by
  0. (Of the network functions the batches that do not fault are steps; \<open>ids_batch_succeeds_iff\<close> says which.) An offloading core's task always ends. A
  working core's task ends unless it has been told to take part in a change and every burst it asks for
  returns packets (then \<open>transfer_shard\<close> may go on for ever). The controller's waits for ever only if
  Gurobi throws. Assignment, relation, redirection table, owners and flow tables are always consistent.
  Assumed: \<open>configure\<close> succeeded with at least one offloading core, 1 to 512 shards, at most 4095 working
  cores and numbers of the configuration that are finite doubles; bursts of 1 to 128 packets; packets with
  readable headers and flows that are legal keys of the flow tables; rings, flow tables, \<open>sort\<close> and Gurobi as
  documented.
\<close>

theorem system_never_faults:
  assumes "libraries R cont cap T K ent srt" and "nic_delivers N (packet_ok crc K (arg_W cfg)) X" and "solves_short short"
    and "reached R T X srt crc N long short cfg s"
  shows "epoch_inv (arg_W cfg) (arg_E cfg) (ctl s) (memory s) \<and> flows_ok ent K (memory s)
    \<and> (\<forall>i<arg_W cfg. \<forall>fuel. (\<exists>r. core_task N crc T R fuel (cores s ! i, memory s) = Inr r)
         \<or> core_task N crc T R fuel (cores s ! i, memory s) = Inl Spinning \<and> core_waits N fuel i (cores s ! i) (memory s))
    \<and> (\<forall>j<arg_E cfg. \<exists>r. offload_task R (offloaders s ! j, memory s) = Inr r)
    \<and> (\<forall>x hz rdtsc e. exchange_ok x \<longrightarrow> controller_task R T srt long short x hz rdtsc (ctl s, memory s) = Inl e
         \<longrightarrow> e = Spinning \<and> (\<exists>rq. short (ex_scale x) rq = Throws))"
proof -
  let ?W = "arg_W cfg" and ?E = "arg_E cfg" and ?ts = "arg_SHARDS cfg"
  have ok: "system_ok {} R cont cap T K ent srt crc N X short ?W ?E ?ts s" by (rule reached_ok [OF assms])
  then have m: "shared_memory {} R cont cap T K ent srt crc ?W ?E ?ts (memory s)" by (simp add: system_ok_def)
  then have M: "sound {} cont ent K crc ?W ?E ?ts (memory s)" by (simp add: shared_memory_def)
  have "exchange_ok \<lparr>ex_fresh = \<lambda>n. replicate n 0, ex_request_pipe = f, ex_answer_pipe = f, ex_scale = 0\<rparr>" if "chunks f = []" for f
    using that by (simp add: exchange_ok_def)
  then have "controller_ok ?W ?E ?ts (ctl s)" using ok by (metis controller_mine_def fifo.select_convs(1) system_ok_def)
  then have "epoch_inv ?W ?E (ctl s) (memory s)" by (rule sound_epoch_inv [OF M])
  moreover have "(\<exists>r. core_task N crc T R fuel (cores s ! i, memory s) = Inr r)
      \<or> core_task N crc T R fuel (cores s ! i, memory s) = Inl Spinning \<and> core_waits N fuel i (cores s ! i) (memory s)" if "i < ?W" for i fuel
    using core.only_waits [OF _ m, where a = "cores s ! i" and i = i and N = N and X = X and fuel = fuel] ok that
    by (cases "core_task N crc T R fuel (cores s ! i, memory s)") (auto simp: system_ok_def)
  moreover have "\<exists>r. offload_task R (offloaders s ! j, memory s) = Inr r" if "j < ?E" for j
    using offload.ends [OF _ m, where a = "offloaders s ! j" and j = j] ok that by (fastforce simp: system_ok_def)
  moreover have "e = Spinning \<and> (\<exists>rq. short (ex_scale x) rq = Throws)"
    if "exchange_ok x" "controller_task R T srt long short x hz rdtsc (ctl s, memory s) = Inl e" for x hz rdtsc e
    using controller.only_waits [OF _ m that(2)] ok that(1) by (simp add: system_ok_def)
  ultimately show ?thesis using memory_okD(4) [OF M] by blast
qed

subsection \<open>An example\<close>

text \<open>Two working cores, of which one has three packets waiting, and an offloading core.\<close>

definition ex_start :: "controller \<Rightarrow> (list_table, list_ring) shared \<Rightarrow> (list_table, list_ring, mbuf list) system" where
  "ex_start c sh = \<lparr>ctl = c, memory = sh,
     cores = [(ex_worker, map snd ex_trace), (ex_worker\<lparr>queueid := 1, q := QueueOf 1, myring := RingOf 1\<rparr>, [])],
     offloaders = [\<lparr>off_idx = 0, off_count = 0, off_burst = 32, off_queueid = 2, serving = []\<rparr>]\<rparr>"

abbreviation ex_queues :: "mbuf list set" where "ex_queues \<equiv> {xs. list_all (packet_ok ex_crc ex_packet_keys 2) xs}"

lemma ex_queues_deliver: "nic_delivers list_nic_ops (packet_ok ex_crc ex_packet_keys (arg_W (ex_config 4 2 1))) ex_queues"
  using list_nic_delivers by (simp add: ex_config_def)

lemma ex_start_ok:
  assumes conf: "ex_configure 8 4 2 1 = Inr (c, sh)"
  shows "started list_ring_ops list_table_ops ex_queues (ex_config 4 2 1) (ex_start c sh)"
proof -
  have rl: "queues sh = map QueueOf [0..<2]" "rings sh = map RingOf [0..<2]" "\<forall>w<2. offloading_from_working sh ! w = 0"
    "length (offloading_from_working sh) = 3"
    using configure_relationship [OF conf] configure_shared_ok [OF conf] by (simp_all add: ex_config_def shared_ok_def)
  have w0: "worker_configure 0 0 0 32 True sh = Inr ex_worker"
    using rl by (simp add: worker_configure_def ex_worker_def)
  have w1: "worker_configure 0 0 1 32 True sh = Inr (ex_worker\<lparr>queueid := 1, q := QueueOf 1, myring := RingOf 1\<rparr>)"
    using rl by (simp add: worker_configure_def ex_worker_def)
  have o: "offloader_configure 0 0 2 32 = Inr (offloaders (ex_start c sh) ! 0)" by (simp add: offloader_configure_def ex_start_def)
  have iq: "iqueues sh = 2" using configure_iqueues [OF conf] by (simp add: ex_config_def)
  have tr: "\<forall>x\<in>set ex_trace. packet_ok ex_crc ex_packet_keys 2 (snd x)"
    using ex_headers ex_packet_flow by (simp add: ex_trace_def packet_ok_def ex_packet_keys_def)
  have slo: "slo c = ex_slo" by (rule configure_success [OF conf]) (simp add: ex_slo_def)
  have "worker_started ex_queues sh 0 (cores (ex_start c sh) ! 0)"
    using w0 tr unfolding worker_started_def ex_start_def by (fastforce simp: ex_worker_def OFF_PKTS_def list_all_iff)
  moreover have "worker_started ex_queues sh 1 (cores (ex_start c sh) ! 1)"
    using w1 unfolding worker_started_def ex_start_def by (fastforce simp: ex_worker_def OFF_PKTS_def)
  ultimately show ?thesis unfolding started_def
    using conf o slo ex_slo_finite(1)
    by (auto simp: ex_config_def ex_start_def PIPE_BUF_def MAX_TERMS_def less_2_cases_iff)
qed

text \<open>The first task of core 0: all three packets' flows get a state.\<close>

abbreviation ex_reached :: "(list_table, list_ring, mbuf list) system \<Rightarrow> bool" where
  "ex_reached \<equiv> reached list_ring_ops list_table_ops ex_queues ex_sort ex_crc list_nic_ops (\<lambda>_ _. NotOptimal) ex_solver (ex_config 4 2 1)"

abbreviation ex_ent :: "list_table \<Rightarrow> (DyssectFlow \<times> addr) set" where "ex_ent \<equiv> \<lambda>t. set (AList.clearjunk t)"

lemma ex_libraries: "libraries list_ring_ops fst snd list_table_ops ex_packet_keys ex_ent ex_sort"
  using list_ring_ok list_table_ok [OF ex_packet_keys_ok] ex_sort_ok by (simp add: libraries_def)

lemma ex_first_task:
  obtains s a where "ex_reached s" and "total_shards (memory s) = 4" and "iqueues (memory s) = 2" and "flows_ok ex_ent ex_packet_keys (memory s)"
    and "(ex_packet_flow 1792 5, a) \<in> known ex_ent (memory s) (shard_of 4 (ex_packet_flow 1792 5))"
proof -
  obtain c sh where conf: "ex_configure 8 4 2 1 = Inr (c, sh)" using ex_configure_ok [of 8 2 4 1] by auto
  note T = list_table_ok [OF ex_packet_keys_ok]
  have ts: "total_shards sh = 4" "iqueues sh = 2" and fl: "flows_ok ex_ent ex_packet_keys sh"
    using configure_shared_ok [OF conf] configure_iqueues [OF conf] configure_flows_ok [OF conf T] by (simp_all add: ex_config_def)
  have flow: "flow_of ex_crc sh' (ex_mbuf 0 5 7) = ex_packet_flow 1792 5" if "iqueues sh' = 2" for sh' :: "(list_table, list_ring) shared"
    using that ex_packet_flow by (simp add: flow_of_def)
  have x: "\<forall>m\<in>set (map snd ex_trace). extractable ex_crc ex_packet_keys sh' m" if "iqueues sh' = 2" for sh' :: "(list_table, list_ring) shared"
    using that by (auto simp: ex_trace_def extractable_def flow_of_def ex_headers ex_packet_flow ex_packet_keys_def simp del: One_nat_def)
  obtain ms where ms: "map snd ex_trace = ex_mbuf 0 5 7 # ms" "length ms = 2" by (simp add: ex_trace_def)
  have w: "off_pkts ex_worker = []" "quiet ex_worker sh" "burst ex_worker = 32"
    using configure_flags [OF conf] by (simp_all add: ex_worker_def quiet_def ex_config_def)
  have "0 < total_shards sh" "extractable ex_crc ex_packet_keys sh (ex_mbuf 0 5 7)" "length (off_pkts ex_worker) < OFF_PKTS"
    using ts x [OF ts(2)] ms w by (simp_all add: OFF_PKTS_def)
  from run_ok [OF fl T this, of "[]"] obtain a w1 outs sh1 where 1: "run ex_crc list_table_ops (ex_mbuf 0 5 7) (ex_worker, [], sh) = Inr (w1, outs, sh1)"
    "flows_ok ex_ent ex_packet_keys sh1" "total_shards sh1 = 4" "iqueues sh1 = 2" "length (off_pkts w1) \<le> 1"
    "(ex_packet_flow 1792 5, a) \<in> known ex_ent sh1 (shard_of 4 (ex_packet_flow 1792 5))"
    using ts flow [OF ts(2)] w(1) by (fastforce split: if_splits)
  have "0 < total_shards sh1" "\<forall>m\<in>set ms. extractable ex_crc ex_packet_keys sh1 m" "length (off_pkts w1) + length ms \<le> OFF_PKTS"
    using 1 x [OF 1(4)] ms by (simp_all add: OFF_PKTS_def)
  from run_batch_ok [OF 1(2) T this, of outs] obtain w2 ps sh2 where 2: "outcome_fold (run ex_crc list_table_ops) ms (w1, outs, sh1) = Inr (w2, ps, sh2)"
    "flows_ok ex_ent ex_packet_keys sh2" "total_shards sh2 = 4" "iqueues sh2 = 2" "known ex_ent sh1 t \<subseteq> known ex_ent sh2 t" for t
    using 1(3,4) by fastforce
  obtain w3 sh3 where f: "flush_offloaded list_ring_ops (w2, sh2) = (w3, sh3)" by fastforce
  then have "sh3 = sh2\<lparr>ring_at := ring_at sh3\<rparr>" by (auto simp: flush_offloaded_def set_ring_def split: if_splits)
  then obtain g where g: "sh3 = sh2\<lparr>ring_at := g\<rparr>" by blast
  have "flows_ok ex_ent ex_packet_keys sh3 = flows_ok ex_ent ex_packet_keys sh2" "known ex_ent sh3 = known ex_ent sh2"
    by (simp_all add: g flows_ok_def state_ok_def known_def fun_eq_iff)
  then have 3: "total_shards sh3 = 4" "iqueues sh3 = 2" "known ex_ent sh3 = known ex_ent sh2" "flows_ok ex_ent ex_packet_keys sh3"
    using 2 g by simp_all
  have batch: "outcome_fold (run ex_crc list_table_ops) (map snd ex_trace) (ex_worker, [], sh) = Inr (w2, ps, sh2)" unfolding ms(1) using 1(1) 2(1) by simp
  have len: "length (map snd ex_trace) = 3" "map snd ex_trace \<noteq> []" by (simp_all add: ex_trace_def)
  have "worker_run_task list_nic_ops ex_crc list_table_ops list_ring_ops 4 (ex_worker, map snd ex_trace, sh) = Inr (True, ps, w3, [], sh3)"
    using w len f batch by (simp add: worker_run_task_def handle_signal_def process_def quiet_def list_nic_ops_def)
  then have t: "core_task list_nic_ops ex_crc list_table_ops list_ring_ops 4 (cores (ex_start c sh) ! 0, memory (ex_start c sh))
      = Inr (ps, (w3, []), sh3)"
    using len(1) by (simp add: core_task_def ex_start_def)
  have "0 < length (cores (ex_start c sh))" by (simp add: ex_start_def)
  from reached.more [OF reached.start [OF ex_start_ok [OF conf]] step.work [OF this t]]
  have "ex_reached ((ex_start c sh)\<lparr>cores := (cores (ex_start c sh))[0 := (w3, [])], memory := sh3\<rparr>)" .
  from that [OF this] show ?thesis using 3 1(6) 2(5) by auto
qed


theorem system_never_faults_witness:
  "\<exists>c sh r. ex_configure 8 4 2 1 = Inr (c, sh)
     \<and> core_task list_nic_ops ex_crc list_table_ops list_ring_ops 2 (cores (ex_start c sh) ! 0, sh) = Inr r"
proof -
  obtain c sh where conf: "ex_configure 8 4 2 1 = Inr (c, sh)" using ex_configure_ok [of 8 2 4 1] by auto
  have r: "reached list_ring_ops list_table_ops ex_queues ex_sort ex_crc list_nic_ops (\<lambda>_ _. NotOptimal) ex_solver (ex_config 4 2 1) (ex_start c sh)"
    by (rule reached.start [OF ex_start_ok [OF conf]])
  have W: "0 < arg_W (ex_config 4 2 1)" by (simp add: ex_config_def)
  have "length (map snd ex_trace) \<le> 32" by (simp add: ex_trace_def)
  then have "\<not> core_waits list_nic_ops 2 0 (cores (ex_start c sh) ! 0) (memory (ex_start c sh))"
    by (simp add: core_waits_def ex_start_def ex_worker_def list_nic_ops_def numeral_2_eq_2)
  moreover have "memory (ex_start c sh) = sh" by (simp add: ex_start_def)
  ultimately show ?thesis using system_never_faults [OF ex_libraries ex_queues_deliver ex_solver_solves r] W conf by metis
qed

end
